(* ===== verification/Prelude.thy ===== *)
theory Prelude
  imports Main "HOL-Library.Word"
begin

text \<open>
  Prelude of the kernel model: the machine integer types of the C sources, the C
  \<open>for\<close> loop over an unsigned counter, and the facts on words and bits that every
  component theory uses.
  The collection \<open>word_nat\<close> translates word arithmetic that does not wrap into
  arithmetic on \<open>nat\<close>; \<open>frame\<close> collects the facts that an operation leaves a part
  of the state alone.
\<close>

unbundle bit_operations_syntax

type_synonym u8 = "8 word"
type_synonym u16 = "16 word"
type_synonym u32 = "32 word"
type_synonym u64 = "64 word"

named_theorems word_nat "word arithmetic read as arithmetic on natural numbers"
named_theorems frame "parts of the state an operation leaves alone"

section \<open>Words\<close>

lemma unat_inc: "x < y \<Longrightarrow> unat (x + 1) = Suc (unat x)"
  for x y :: "'a::len word"
proof -
  assume "x < y"
  then have "unat x < unat y"
    by (rule unat_mono)
  moreover have "unat y < 2 ^ LENGTH('a)"
    by (rule unsigned_less)
  ultimately have "unat x + 1 < 2 ^ LENGTH('a)"
    by linarith
  then show ?thesis
    using unat_add_lem [of x 1] by simp
qed

lemma inc_le: "x < y \<Longrightarrow> x + 1 \<le> y"
  for x y :: "'a::len word"
  by (simp add: word_le_nat_alt unat_inc Suc_le_eq unat_mono)

lemma less_inc_iff: "x < y \<Longrightarrow> k < x + 1 \<longleftrightarrow> k < x \<or> k = x"
  for x y k :: "'a::len word"
  by (auto simp: word_less_nat_alt unat_inc less_Suc_eq word_unat_eq_iff)

lemma unat_div_word [word_nat]: "unat (x div y) = unat x div unat y"
  for x y :: "'a::len word"
  by (rule unat_div)

lemma unat_mod_word [word_nat]: "unat (x mod y) = unat x mod unat y"
  for x y :: "'a::len word"
  by (rule unat_mod)

lemma unat_of_nat_lt: "n < 2 ^ LENGTH('a) \<Longrightarrow> unat (of_nat n :: 'a::len word) = n"
  by (simp add: unat_of_nat take_bit_nat_eq_self)

lemma unat_add_lt: "unat x + unat y < 2 ^ LENGTH('a) \<Longrightarrow> unat (x + y) = unat x + unat y"
  for x y :: "'a::len word"
  using unat_add_lem by blast

lemma unat_mult_lt: "unat x * unat y < 2 ^ LENGTH('a) \<Longrightarrow> unat (x * y) = unat x * unat y"
  for x y :: "'a::len word"
  using unat_mult_lem by blast

lemma unat_add_const_lt:
  "unat x + n < 2 ^ LENGTH('a) \<Longrightarrow> unat (x + of_nat n) = unat x + n"
  for x :: "'a::len word"
  by (subst unat_add_lt) (simp_all add: unat_of_nat_lt)

lemma word_mod_8_lt: "unat (x mod 8) < 8" for x :: u64
  by (simp add: unat_mod)

section \<open>The C loop \<open>for (i = lo; i < hi; i++) body\<close>\<close>

text \<open>
  The counter is a word of the source's width. The guard \<open>i < hi\<close> holds whenever the
  counter is incremented, so it never wraps and the loop ends.
\<close>

function for_up :: "'a::len word \<Rightarrow> 'a word \<Rightarrow> ('a word \<Rightarrow> 's \<Rightarrow> 's) \<Rightarrow> 's \<Rightarrow> 's" where
  "for_up i hi body s = (if i < hi then for_up (i + 1) hi body (body i s) else s)"
  by pat_completeness auto
termination
proof (relation "measure (\<lambda>(i, hi, body, s). unat hi - unat i)")
  fix i hi :: "'a word" and body :: "'a word \<Rightarrow> 's \<Rightarrow> 's" and s :: 's
  assume "i < hi"
  then show "((i + 1, hi, body, body i s), i, hi, body, s)
      \<in> measure (\<lambda>(i, hi, body, s). unat hi - unat i)"
    by (auto simp: unat_inc dest: unat_mono)
qed simp

declare for_up.simps [simp del]

lemma for_up_stop [simp]: "\<not> i < hi \<Longrightarrow> for_up i hi body s = s"
  by (subst for_up.simps) simp

lemma for_up_step: "i < hi \<Longrightarrow> for_up i hi body s = for_up (i + 1) hi body (body i s)"
  by (subst for_up.simps) simp

text \<open>The invariant rule: \<open>P\<close> is indexed by the value of the counter.\<close>

lemma for_up_inv:
  assumes "P i s" and "i \<le> hi"
    and "\<And>j t. i \<le> j \<Longrightarrow> j < hi \<Longrightarrow> P j t \<Longrightarrow> P (j + 1) (body j t)"
  shows "P hi (for_up i hi body s)"
  using assms
proof (induction i hi body s rule: for_up.induct)
  case (1 i hi body s)
  show ?case
  proof (cases "i < hi")
    case True
    have "P hi (for_up (i + 1) hi body (body i s))"
    proof (rule "1.IH" [OF True])
      show "P (i + 1) (body i s)"
        using True "1.prems" by simp
      show "i + 1 \<le> hi"
        by (rule inc_le [OF True])
      fix j t
      assume "i + 1 \<le> j" "j < hi" "P j t"
      moreover have "i \<le> j"
        using \<open>i + 1 \<le> j\<close> True by (simp add: word_le_nat_alt unat_inc)
      ultimately show "P (j + 1) (body j t)"
        using "1.prems"(3) by blast
    qed
    then show ?thesis
      by (simp add: for_up_step [OF True])
  next
    case False
    then have "i = hi"
      using "1.prems"(2) by simp
    then show ?thesis
      using "1.prems"(1) by simp
  qed
qed

lemma for_up_preserves:
  assumes "P s" and "\<And>j t. i \<le> j \<Longrightarrow> j < hi \<Longrightarrow> P t \<Longrightarrow> P (body j t)"
  shows "P (for_up i hi body s)"
proof (cases "i \<le> hi")
  case True
  show ?thesis
    by (rule for_up_inv [where P = "\<lambda>_. P", OF assms(1) True]) (use assms(2) in blast)
next
  case False
  then show ?thesis
    using assms(1) by simp
qed

text \<open>The loop as a fold over the counters, for reasoning on \<open>nat\<close>.\<close>

lemma for_up_fold:
  "for_up i hi body s = fold (\<lambda>n. body (of_nat n)) [unat i..<unat hi] s"
proof (induction i hi body s rule: for_up.induct)
  case (1 i hi body s)
  show ?case
  proof (cases "i < hi")
    case True
    then have "[unat i..<unat hi] = unat i # [unat (i + 1)..<unat hi]"
      by (simp add: unat_inc [OF True] upt_rec unat_mono)
    then show ?thesis
      using "1.IH" [OF True] by (simp add: for_up_step [OF True])
  next
    case False
    then show ?thesis
      by (simp add: word_less_nat_alt)
  qed
qed

lemma for_up_nat_fold:
  fixes body :: "'a::len word \<Rightarrow> 's \<Rightarrow> 's"
  assumes "n < 2 ^ LENGTH('a)"
  shows "for_up 0 (of_nat n) body s = fold (\<lambda>k. body (of_nat k)) [0..<n] s"
  by (simp add: for_up_fold unat_of_nat_lt [OF assms])

text \<open>Splitting a loop, shifting its counter, and two nested loops over the rows and columns
  of a table, which are one loop over the index \<open>y * w + x\<close>.\<close>

lemma for_up_append:
  "a \<le> b \<Longrightarrow> b \<le> c \<Longrightarrow> for_up a c body s = for_up b c body (for_up a b body s)"
proof -
  assume "a \<le> b" "b \<le> c"
  then have "[unat a..<unat c] = [unat a..<unat b] @ [unat b..<unat c]"
    by (metis le_Suc_ex upt_add_eq_append word_le_nat_alt)
  then show ?thesis by (simp add: for_up_fold)
qed

lemma for_up_shift:
  fixes b w :: "'a::len word"
  assumes "unat b + unat w < 2 ^ LENGTH('a)"
  shows "for_up 0 w (\<lambda>x. body (b + x)) s = for_up b (b + w) body s"
proof -
  have "[unat b..<unat b + unat w] = map (\<lambda>n. n + unat b) [0..<unat w]"
    by (simp add: map_add_upt add.commute)
  then have "for_up b (b + w) body s = fold (\<lambda>n. body (of_nat n)) (map (\<lambda>n. n + unat b) [0..<unat w]) s"
    by (simp add: for_up_fold unat_add_lt [OF assms])
  also have "\<dots> = fold (\<lambda>n. body (b + of_nat n)) [0..<unat w] s"
    by (simp add: fold_map comp_def add.commute)
  finally show ?thesis
    by (simp add: for_up_fold)
qed

lemma for_up_nested:
  fixes w h :: "'a::len word"
  assumes "unat h * unat w < 2 ^ LENGTH('a)"
  shows "for_up 0 h (\<lambda>y. for_up 0 w (\<lambda>x. body (y * w + x))) s = for_up 0 (h * w) body s"
proof (rule for_up_inv [where P = "\<lambda>y t. t = for_up 0 (y * w) body s" and i = 0])
  fix y t
  assume "0 \<le> y" and y: "y < h" and t: "t = for_up 0 (y * w) body s"
  have *: "Suc (unat y) * unat w \<le> unat h * unat w"
    using unat_mono [OF y] by (intro mult_le_mono1) simp
  then have yw: "unat (y * w) = unat y * unat w"
    using assms by (intro unat_mult_lt) simp
  then have bound: "unat (y * w) + unat w < 2 ^ LENGTH('a)"
    using * assms by simp
  have le: "y * w \<le> y * w + w"
    using unat_add_lt [OF bound] by (simp add: word_le_nat_alt)
  have "for_up 0 w (\<lambda>x. body (y * w + x)) t = for_up (y * w) (y * w + w) body t"
    by (rule for_up_shift [OF bound])
  also have "\<dots> = for_up 0 (y * w + w) body s"
    unfolding t by (rule for_up_append [OF _ le, symmetric]) simp
  finally show "for_up 0 w (\<lambda>x. body (y * w + x)) t = for_up 0 ((y + 1) * w) body s"
    by (simp add: algebra_simps)
qed simp_all

text \<open>\<open>for (i = lo; i < hi; i++) sm += i;\<close>\<close>

lemma sum_loop: "for_up (i :: u64) hi (\<lambda>i sm. sm + i) a = a + of_nat (\<Sum>x\<in>{unat i..<unat hi}. x)"
proof -
  have f: "fold (\<lambda>n sm. sm + of_nat n) xs a = a + of_nat (sum_list xs)" for xs :: "nat list" and a :: u64
    by (induction xs arbitrary: a) (simp_all add: ac_simps)
  have "sum_list [unat i..<unat hi] = (\<Sum>x\<in>{unat i..<unat hi}. x)"
    using sum_list_distinct_conv_sum_set [of "[unat i..<unat hi]" "\<lambda>x. x"] by simp
  then show ?thesis
    unfolding for_up_fold f by (simp only:)
qed

section \<open>The C loop that returns at the first hit\<close>

text \<open>\<open>for (i = lo; i < hi; i++) if (P i) return i;\<close>\<close>

function find_up :: "'a::len word \<Rightarrow> 'a word \<Rightarrow> ('a word \<Rightarrow> bool) \<Rightarrow> 'a word option" where
  "find_up i hi P = (if i < hi then if P i then Some i else find_up (i + 1) hi P else None)"
  by pat_completeness auto
termination
  by (relation "measure (\<lambda>(i, hi, P). unat hi - unat i)") (auto simp: unat_inc dest: unat_mono)

declare find_up.simps [simp del]

lemma inc_le_iff: "x < y \<Longrightarrow> x + 1 \<le> k \<longleftrightarrow> x < k"
  for x y k :: "'a::len word"
  by (simp add: word_le_nat_alt word_less_nat_alt unat_inc [of x y] Suc_le_eq)

lemma find_up_None: "find_up i hi P = None \<longleftrightarrow> (\<forall>k. i \<le> k \<and> k < hi \<longrightarrow> \<not> P k)"
proof (induction i hi P rule: find_up.induct)
  case (1 i hi P)
  show ?case
  proof (cases "i < hi \<and> \<not> P i")
    case True
    then have "find_up i hi P = find_up (i + 1) hi P"
      by (subst find_up.simps) simp
    moreover have "i \<le> k \<longleftrightarrow> i + 1 \<le> k \<or> k = i" for k
      using True by (auto simp: inc_le_iff [of i hi])
    ultimately show ?thesis
      using "1.IH" True by auto
  next
    case False
    then show ?thesis
      by (subst find_up.simps) (auto dest: order.strict_trans1)
  qed
qed

lemma find_up_Some:
  assumes "find_up i hi P = Some j"
  shows "i \<le> j \<and> j < hi \<and> P j \<and> (\<forall>k. i \<le> k \<and> k < j \<longrightarrow> \<not> P k)"
  using assms
proof (induction i hi P rule: find_up.induct)
  case (1 i hi P)
  have hi: "i < hi"
    using "1.prems" by (subst (asm) find_up.simps) (auto split: if_splits)
  show ?case
  proof (cases "P i")
    case True
    then show ?thesis
      using "1.prems" hi by (subst (asm) find_up.simps) auto
  next
    case False
    then have "find_up (i + 1) hi P = Some j"
      using "1.prems" hi by (subst (asm) find_up.simps) simp
    from "1.IH" [OF hi False this] have j: "i + 1 \<le> j" "j < hi" "P j"
      "\<forall>k. i + 1 \<le> k \<and> k < j \<longrightarrow> \<not> P k"
      by blast+
    have less: "i < k \<longleftrightarrow> i + 1 \<le> k" for k
      by (simp only: inc_le_iff [OF hi])
    have "i \<le> k \<longleftrightarrow> i + 1 \<le> k \<or> k = i" for k
      unfolding order.order_iff_strict [of i k] less by blast
    with j False show ?thesis
      by blast
  qed
qed

section \<open>Bits of a byte\<close>

lemma bit_set_bit:
  "n < 8 \<Longrightarrow> bit (b OR push_bit n 1) m \<longleftrightarrow> bit b m \<or> m = n" for b :: u8
  by (auto simp: bit_simps)

lemma bit_clear_bit:
  "n < 8 \<Longrightarrow> bit (b AND NOT (push_bit n 1)) m \<longleftrightarrow> bit b m \<and> m \<noteq> n" for b :: u8
  by (auto simp: bit_simps dest: bit_imp_le_length)

lemma and_one_bit: "n < 8 \<Longrightarrow> b AND push_bit n 1 \<noteq> 0 \<longleftrightarrow> bit b n" for b :: u8
proof -
  assume "n < 8"
  have "b AND push_bit n 1 = (if bit b n then push_bit n 1 else 0)"
    by (rule bit_word_eqI) (auto simp: bit_simps)
  moreover have "push_bit n (1 :: u8) \<noteq> 0"
    using \<open>n < 8\<close> by (simp add: bit_eq_iff bit_simps) (use \<open>n < 8\<close> in blast)
  ultimately show ?thesis by auto
qed

text \<open>The same masks in the form that the simplifier gives them.\<close>

lemmas bit_set_pow2 = bit_set_bit [unfolded push_bit_of_1]
lemmas bit_clear_pow2 = bit_clear_bit [unfolded push_bit_of_1]

lemma and_pow2_bit: "n < 8 \<Longrightarrow> b AND 2 ^ n \<noteq> 0 \<longleftrightarrow> bit b n" for b :: u8
  using and_one_bit [of n b] by simp

section \<open>Rounding with masks\<close>

lemma unat_drop_bit: "unat (drop_bit k x) = unat x div 2 ^ k" for x :: "'a::len word"
  by (subst unat_drop_bit_eq) (rule drop_bit_eq_div)

lemma and_not_mask_eq: "x AND NOT (mask n) = push_bit n (drop_bit n x)" for x :: "'a::len word"
  by (rule bit_word_eqI) (auto simp: bit_simps)

lemma unat_and_not_mask: "unat (x AND NOT (mask n)) = unat x div 2 ^ n * 2 ^ n" for x :: "'a::len word"
proof -
  have lt: "unat x div 2 ^ n * 2 ^ n < 2 ^ LENGTH('a)"
    using unsigned_less [of x, where 'a = nat] div_times_less_eq_dividend order.strict_trans1 by blast
  have "of_nat (unat x div 2 ^ n) = drop_bit n x"
    by (simp only: unat_drop_bit [symmetric] of_nat_unat) simp
  then have "x AND NOT (mask n) = of_nat (unat x div 2 ^ n * 2 ^ n)"
    by (simp only: of_nat_mult and_not_mask_eq push_bit_eq_mult) simp
  then show ?thesis
    using unat_of_nat_lt [OF lt] by simp
qed

lemma bit_lt_pow2: "unat x < 2 ^ n \<Longrightarrow> bit x i \<Longrightarrow> i < n" for x :: "'a::len word"
proof (rule ccontr)
  assume lt: "unat x < 2 ^ n" and b: "bit x i" and "\<not> i < n"
  then have "unat x < 2 ^ i"
    using power_increasing [of n i "2 :: nat"] by linarith
  then have "\<not> odd (unat x div 2 ^ i)"
    by simp
  then have "\<not> bit (unat x) i"
    by (simp add: bit_iff_odd)
  then show False
    using b by (simp add: bit_unsigned_iff)
qed

lemma unat_ucast_32_64: "unat (ucast x :: u64) = unat x" for x :: u32
proof -
  have "unat x < 2 ^ 64"
    using unsigned_less [of x, where 'a = nat] by simp
  then show ?thesis
    by (simp add: unsigned_ucast_eq take_bit_nat_eq_self)
qed

lemma ucast_inc_32_64:
  fixes x hi :: u32
  assumes "x < hi"
  shows "(ucast (x + 1) :: u64) = ucast x + 1"
proof -
  have "unat x + 1 < 2 ^ 64"
    using unsigned_less [of x, where 'a = nat] by simp
  then have "unat (ucast (x + 1) :: u64) = unat (ucast x + 1 :: u64)"
    using unat_add_lt [of "ucast x :: u64" 1] by (simp add: unat_ucast_32_64 unat_inc [OF assms])
  then show ?thesis
    by (simp only: word_unat_eq_iff)
qed

section \<open>Signed 32-bit integers\<close>

lemma sint32: "sint e = (if unat e < 2 ^ 31 then int (unat e) else int (unat e) - 2 ^ 32)" for e :: u32
proof -
  define n where "n = unat e"
  have n: "n < 2 ^ 32" and u: "uint e = int n"
    using unsigned_less [of e, where 'a = nat] by (simp_all add: n_def)
  have "bit (int n) 31 \<longleftrightarrow> bit n 31"
    by (rule bit_of_nat_iff_bit)
  also have "\<dots> \<longleftrightarrow> odd (n div 2 ^ 31)"
    by (rule bit_iff_odd)
  also have "\<dots> \<longleftrightarrow> \<not> n < 2 ^ 31"
  proof (cases "n < 2 ^ 31")
    case False
    then have "n div 2 ^ 31 = 1"
      using n by (intro div_nat_eqI) simp_all
    with False show ?thesis by (simp only:) simp
  qed simp
  finally have "bit (int n) 31 \<longleftrightarrow> \<not> n < 2 ^ 31" .
  moreover have "take_bit 32 (int n) = int n"
    using n by (simp add: take_bit_int_eq_self)
  ultimately show ?thesis
    by (simp add: sint_uint u signed_take_bit_eq_take_bit_minus n_def [symmetric])
qed

lemma sint_small: "unat x < 2 ^ 31 \<Longrightarrow> sint x = int (unat x)" for x :: u32
  unfolding sint32 by (simp only: if_True)

end
