(* ===== verification/Memory.thy ===== *)
theory Memory
  imports Prelude
begin

text \<open>
  The byte-addressed memory that the C pointers of the kernel point into: loads and stores
  of little-endian 8, 16, 32 and 64-bit values, the \<open>memcpy\<close> and \<open>memset\<close> of
  \<^verbatim>\<open>c/kernel/minimal_step9.c\<close>, and the laws of loads after stores.  Addresses are 64-bit
  words and pointer arithmetic wraps, as it does on the machine.
\<close>

type_synonym memory = "u64 \<Rightarrow> u8"

section \<open>Loads and stores of \<open>n\<close> bytes\<close>

fun load_le :: "nat \<Rightarrow> memory \<Rightarrow> u64 \<Rightarrow> 'a::len word" where
  "load_le 0 m a = 0"
| "load_le (Suc n) m a = ucast (m a) OR push_bit 8 (load_le n m (a + 1))"

fun store_le :: "nat \<Rightarrow> u64 \<Rightarrow> 'a::len word \<Rightarrow> memory \<Rightarrow> memory" where
  "store_le 0 a w m = m"
| "store_le (Suc n) a w m = store_le n (a + 1) (drop_bit 8 w) (m(a := ucast w))"

definition load16 :: "memory \<Rightarrow> u64 \<Rightarrow> u16" where
  "load16 m a = load_le 2 m a"

definition load32 :: "memory \<Rightarrow> u64 \<Rightarrow> u32" where
  "load32 m a = load_le 4 m a"

definition load64 :: "memory \<Rightarrow> u64 \<Rightarrow> u64" where
  "load64 m a = load_le 8 m a"

definition store64 :: "u64 \<Rightarrow> u64 \<Rightarrow> memory \<Rightarrow> memory" where
  "store64 a w m = store_le 8 a w m"

definition store32 :: "u64 \<Rightarrow> u32 \<Rightarrow> memory \<Rightarrow> memory" where
  "store32 a w m = store_le 4 a w m"

text \<open>The bytes of an object of \<open>n\<close> bytes at address \<open>a\<close>.\<close>

definition in_range :: "u64 \<Rightarrow> nat \<Rightarrow> u64 \<Rightarrow> bool" where
  "in_range a n x \<longleftrightarrow> unat (x - a) < n"

definition disjoint_ranges :: "u64 \<Rightarrow> nat \<Rightarrow> u64 \<Rightarrow> nat \<Rightarrow> bool" where
  "disjoint_ranges a n b k \<longleftrightarrow> (\<forall>i<n. \<not> in_range b k (a + of_nat i))"

lemma sub_one_unat: "x \<noteq> 0 \<Longrightarrow> unat (x - 1) = unat x - 1" for x :: u64
  by (simp add: unat_minus_one)

lemma unat_minus_1_u64: "unat (- 1 :: u64) = 2 ^ 64 - 1"
  by (simp add: unsigned_minus_1_eq_mask mask_eq_exp_minus_1)

lemma in_range_Suc: "in_range a (Suc n) x \<longleftrightarrow> x = a \<or> in_range (a + 1) n x \<and> x \<noteq> a"
proof (cases "x = a")
  case False
  then have "unat (x - (a + 1)) = unat (x - a) - 1" and "unat (x - a) \<noteq> 0"
    using sub_one_unat [of "x - a"] by (simp_all add: algebra_simps unat_eq_0)
  with False show ?thesis by (auto simp: in_range_def)
qed (simp add: in_range_def)

lemma in_range_nth: "i < n \<Longrightarrow> i < 2 ^ 64 \<Longrightarrow> in_range a n (a + of_nat i)"
  by (simp add: in_range_def unat_of_nat_lt)

lemma store_le_other: "\<not> in_range a n x \<Longrightarrow> store_le n a w m x = m x"
proof (induction n arbitrary: a w m)
  case (Suc n)
  then have "x \<noteq> a"
    by (auto simp: in_range_Suc)
  with Suc show ?case by (simp add: in_range_Suc)
qed simp

lemma load_le_cong:
  "(\<And>i. i < n \<Longrightarrow> m (a + of_nat i) = m' (a + of_nat i)) \<Longrightarrow> load_le n m a = load_le n m' a"
proof (induction n arbitrary: a)
  case (Suc n)
  have "m a = m' a"
    using Suc.prems [of 0] by simp
  moreover have "load_le n m (a + 1) = (load_le n m' (a + 1) :: 'a word)"
  proof (rule Suc.IH)
    fix i assume "i < n"
    then show "m (a + 1 + of_nat i) = m' (a + 1 + of_nat i)"
      using Suc.prems [of "Suc i"] by (simp add: algebra_simps)
  qed
  ultimately show ?case by simp
qed simp

lemma load_store_disjoint:
  "disjoint_ranges a n b k \<Longrightarrow> load_le n (store_le k b w m) a = load_le n m a"
  by (rule load_le_cong) (simp add: disjoint_ranges_def store_le_other)

lemma load_store_same_bits:
  "n < 2 ^ 64 \<Longrightarrow> LENGTH('a) \<ge> 8 \<Longrightarrow> load_le n (store_le n a w m) a = take_bit (8 * n) (w :: 'a::len word)"
proof (induction n arbitrary: a w m)
  case (Suc n)
  have "\<not> in_range (a + 1) n a"
    using Suc.prems by (simp add: in_range_def unat_minus_1_u64)
  then have first: "store_le n (a + 1) (drop_bit 8 w) (m(a := ucast w)) a = ucast w"
    by (simp add: store_le_other)
  have rest: "load_le n (store_le n (a + 1) (drop_bit 8 w) (m(a := ucast w))) (a + 1)
      = take_bit (8 * n) (drop_bit 8 w)"
    using Suc by simp
  have "ucast (ucast w :: u8) OR push_bit 8 (take_bit (8 * n) (drop_bit 8 w))
      = take_bit (8 + 8 * n) w"
    by (rule bit_word_eqI) (auto simp: bit_simps)
  then show ?case
    by (simp add: first rest)
qed simp

lemma load64_store64_same [simp]: "load64 (store64 a w m) a = w"
  by (simp add: load64_def store64_def load_store_same_bits take_bit_word_eq_self)

lemma load64_store64_disjoint:
  "disjoint_ranges a 8 b 8 \<Longrightarrow> load64 (store64 b w m) a = load64 m a"
  by (simp add: load64_def store64_def load_store_disjoint)

lemma in_range_below: "unat x < unat b \<Longrightarrow> unat b + k \<le> 2 ^ 64 \<Longrightarrow> \<not> in_range b k x"
  using unat_sub_if_size [of x b] by (simp add: in_range_def word_size)

lemma disjoint_below:
  assumes "unat a + n \<le> unat b" "unat b + k \<le> 2 ^ 64"
  shows "disjoint_ranges a n b k"
  unfolding disjoint_ranges_def
proof (intro allI impI)
  fix i assume "i < n"
  then have "unat (a + of_nat i) < unat b"
    using assms unsigned_less [of b, where 'a = nat] by (subst unat_add_const_lt) simp_all
  then show "\<not> in_range b k (a + of_nat i)"
    using in_range_below assms(2) by blast
qed

lemma load32_store32_same [simp]: "load32 (store32 a w m) a = w"
  by (simp add: load32_def store32_def load_store_same_bits take_bit_word_eq_self)

lemma load32_store32_disjoint:
  "disjoint_ranges a 4 b 4 \<Longrightarrow> load32 (store32 b w m) a = load32 m a"
  by (simp add: load32_def store32_def load_store_disjoint)

text \<open>Two objects at different offsets from the same pointer.\<close>

lemma unat_offset_diff:
  assumes "a < 2 ^ 64" "b < 2 ^ 64"
  shows "unat ((p + of_nat a) - (p + of_nat b) :: u64) = (if b \<le> a then a - b else 2 ^ 64 - b + a)"
proof -
  have "(p + of_nat a) - (p + of_nat b) = (of_nat a - of_nat b :: u64)"
    by simp
  then show ?thesis
    using assms unat_sub_if_size [of "of_nat a :: u64" "of_nat b"]
    by (auto simp: unat_of_nat_lt word_size)
qed

lemma disjoint_offsets:
  assumes "a + n \<le> b \<or> b + k \<le> a" "a + n \<le> 2 ^ 63" "b + k \<le> 2 ^ 63"
  shows "disjoint_ranges (p + of_nat a) n (p + of_nat b) k"
  unfolding disjoint_ranges_def in_range_def
proof (intro allI impI)
  fix i assume "i < n"
  have eq: "unat (p + of_nat a + of_nat i - (p + of_nat b)) = (if b \<le> a + i then a + i - b else 2 ^ 64 - b + (a + i))"
    using unat_offset_diff [of "a + i" b p] \<open>i < n\<close> assms by (simp only: of_nat_add add.assoc) simp
  show "\<not> unat (p + of_nat a + of_nat i - (p + of_nat b)) < k"
    unfolding eq using \<open>i < n\<close> assms by auto
qed

lemma in_range_offset:
  assumes "in_range (p + of_nat b) k x" "b + k \<le> n" "n \<le> 2 ^ 63"
  shows "in_range p n x"
proof -
  have "x - p = (x - (p + of_nat b)) + of_nat b"
    by simp
  moreover have "unat (x - (p + of_nat b)) < k"
    using assms(1) by (simp add: in_range_def)
  ultimately have "unat (x - p) = unat (x - (p + of_nat b)) + b"
    using assms(2,3) unat_add_const_lt [of "x - (p + of_nat b)" b] by simp
  then show ?thesis
    using \<open>unat (x - (p + of_nat b)) < k\<close> assms(2) by (simp add: in_range_def)
qed

text \<open>Loads of an object whose bytes did not change.\<close>

lemma load_outside:
  assumes "\<And>x. \<not> in_range b k x \<Longrightarrow> m' x = m x" "disjoint_ranges a n b k"
  shows "load_le n m' a = load_le n m a"
  by (rule load_le_cong) (use assms in \<open>auto simp: disjoint_ranges_def\<close>)

text \<open>Different 8-byte aligned objects do not overlap.\<close>

lemma aligned8_disjoint:
  assumes "unat a mod 8 = 0" and "unat b mod 8 = 0" and "a \<noteq> b"
  shows "disjoint_ranges a 8 b 8"
  unfolding disjoint_ranges_def in_range_def
proof (intro allI impI notI)
  fix i :: nat
  assume i: "i < 8" and lt: "unat (a + of_nat i - b) < 8"
  define d where "d = unat (a - b)"
  have dvd: "8 dvd d"
    using assms(1,2) unat_sub_if_size [of a b]
    by (auto simp: d_def word_size mod_eq_0_iff_dvd
        intro: dvd_diff_nat dvd_diff_nat [OF dvd_add])
  have "d \<noteq> 0"
    using assms(3) by (simp add: d_def unat_eq_0)
  have "d < 2 ^ 64"
    using unsigned_less [of "a - b"] by (simp add: d_def)
  moreover have "(8 :: nat) dvd 2 ^ 64" by simp
  ultimately have "d + 8 \<le> 2 ^ 64"
    using dvd by (metis add.commute dvd_imp_le dvd_diff_nat le_diff_conv2 less_imp_le_nat zero_less_diff)
  then have "unat ((a - b) + of_nat i) = d + i"
    using i by (subst unat_add_const_lt) (simp_all add: d_def)
  moreover have "(a - b) + of_nat i = a + of_nat i - b"
    by simp
  ultimately have "d + i < 8"
    using lt by simp
  then show False
    using dvd \<open>d \<noteq> 0\<close> by (auto dest: dvd_imp_le)
qed

section \<open>memcpy and memset\<close>

text \<open>
  \<open>while (n--) *d++ = *s++\<close>: the count is the recursion's argument.
\<close>

fun memcpy :: "u64 \<Rightarrow> u64 \<Rightarrow> nat \<Rightarrow> memory \<Rightarrow> memory" where
  "memcpy d s 0 m = m"
| "memcpy d s (Suc n) m = memcpy (d + 1) (s + 1) n (m(d := m s))"

fun memset :: "u64 \<Rightarrow> u8 \<Rightarrow> nat \<Rightarrow> memory \<Rightarrow> memory" where
  "memset d v 0 m = m"
| "memset d v (Suc n) m = memset (d + 1) v n (m(d := v))"

lemma memset_other: "\<not> in_range d n x \<Longrightarrow> memset d v n m x = m x"
proof (induction n arbitrary: d m)
  case (Suc n)
  then have "x \<noteq> d"
    by (auto simp: in_range_Suc)
  with Suc show ?case by (simp add: in_range_Suc)
qed simp

lemma memset_in: "in_range d n x \<Longrightarrow> memset d v n m x = v"
proof (induction n arbitrary: d m)
  case (Suc n)
  show ?case
  proof (cases "in_range (d + 1) n x")
    case True
    then show ?thesis using Suc.IH by simp
  next
    case False
    then have "x = d"
      using Suc.prems by (simp add: in_range_Suc)
    then show ?thesis
      using False by (simp add: memset_other)
  qed
qed (simp add: in_range_def)

lemma memset_byte: "memset d v n m x = (if in_range d n x then v else m x)"
  by (simp add: memset_in memset_other)

lemma memcpy_other: "\<not> in_range d n x \<Longrightarrow> memcpy d s n m x = m x"
proof (induction n arbitrary: d s m)
  case (Suc n)
  then have "x \<noteq> d"
    by (auto simp: in_range_Suc)
  with Suc show ?case by (simp add: in_range_Suc)
qed simp

text \<open>A copy between ranges that do not overlap copies every byte.\<close>

lemma memcpy_nth:
  assumes "n < 2 ^ 64" and "i < n"
    and "\<And>j k. j < n \<Longrightarrow> k < n \<Longrightarrow> s + of_nat j \<noteq> d + of_nat k"
  shows "memcpy d s n m (d + of_nat i) = m (s + of_nat i)"
  using assms
proof (induction n arbitrary: d s m i)
  case (Suc n)
  have sep: "(s + 1) + of_nat j \<noteq> (d + 1) + of_nat k" if "j < n" "k < n" for j k
    using Suc.prems(3) [of "Suc j" "Suc k"] that by (simp add: algebra_simps)
  show ?case
  proof (cases i)
    case 0
    have "\<not> in_range (d + 1) n d"
      using Suc.prems(1) by (simp add: in_range_def unat_minus_1_u64)
    then show ?thesis
      by (simp add: 0 memcpy_other)
  next
    case (Suc i')
    have "memcpy (d + 1) (s + 1) n (m(d := m s)) (d + 1 + of_nat i') = (m(d := m s)) (s + 1 + of_nat i')"
      using Suc.prems Suc sep by (intro Suc.IH) auto
    moreover have "s + 1 + of_nat i' \<noteq> d"
      using Suc.prems(2) Suc.prems(3) [of "Suc i'" 0] Suc by (simp add: algebra_simps)
    ultimately show ?thesis
      by (simp add: Suc algebra_simps)
  qed
qed simp

end
