(* ===== verification/Vga.thy ===== *)
theory Vga
  imports Prelude
begin

text \<open>
  The VGA text console of \<^verbatim>\<open>c/kernel/vga.h\<close>.  The four static variables are the fields of
  \<open>vga\<close>; the text buffer at \<open>VGA_MEMORY\<close> (0xB8000) is device memory of its own, indexed by
  16-bit cell.  Below the operations stands an abstract terminal (25 lines of 80 cells that
  scroll up); the last section shows that \<open>vga_putchar\<close> refines it, keeps the cursor on the
  screen and never writes a cell outside the screen.
\<close>

section \<open>The driver\<close>

abbreviation (input) VGA_WIDTH :: u64 where "VGA_WIDTH \<equiv> 80"
abbreviation (input) VGA_HEIGHT :: u64 where "VGA_HEIGHT \<equiv> 25"
abbreviation (input) VGA_MEMORY :: u64 where "VGA_MEMORY \<equiv> 0xB8000"

datatype vga_color_name =
    VGA_COLOR_BLACK | VGA_COLOR_BLUE | VGA_COLOR_GREEN | VGA_COLOR_CYAN
  | VGA_COLOR_RED | VGA_COLOR_MAGENTA | VGA_COLOR_BROWN | VGA_COLOR_LIGHT_GREY
  | VGA_COLOR_DARK_GREY | VGA_COLOR_LIGHT_BLUE | VGA_COLOR_LIGHT_GREEN | VGA_COLOR_LIGHT_CYAN
  | VGA_COLOR_LIGHT_RED | VGA_COLOR_LIGHT_MAGENTA | VGA_COLOR_LIGHT_BROWN | VGA_COLOR_WHITE

fun vga_color_code :: "vga_color_name \<Rightarrow> u32" where
  "vga_color_code VGA_COLOR_BLACK = 0"
| "vga_color_code VGA_COLOR_BLUE = 1"
| "vga_color_code VGA_COLOR_GREEN = 2"
| "vga_color_code VGA_COLOR_CYAN = 3"
| "vga_color_code VGA_COLOR_RED = 4"
| "vga_color_code VGA_COLOR_MAGENTA = 5"
| "vga_color_code VGA_COLOR_BROWN = 6"
| "vga_color_code VGA_COLOR_LIGHT_GREY = 7"
| "vga_color_code VGA_COLOR_DARK_GREY = 8"
| "vga_color_code VGA_COLOR_LIGHT_BLUE = 9"
| "vga_color_code VGA_COLOR_LIGHT_GREEN = 10"
| "vga_color_code VGA_COLOR_LIGHT_CYAN = 11"
| "vga_color_code VGA_COLOR_LIGHT_RED = 12"
| "vga_color_code VGA_COLOR_LIGHT_MAGENTA = 13"
| "vga_color_code VGA_COLOR_LIGHT_BROWN = 14"
| "vga_color_code VGA_COLOR_WHITE = 15"

definition vga_entry_color :: "vga_color_name \<Rightarrow> vga_color_name \<Rightarrow> u8" where
  "vga_entry_color fg bg = ucast (vga_color_code fg OR push_bit 4 (vga_color_code bg))"

definition vga_entry :: "u8 \<Rightarrow> u8 \<Rightarrow> u16" where
  "vga_entry uc color = ucast uc OR push_bit 8 (ucast color)"

text \<open>The bytes of a C string: its characters as 8-bit values.\<close>

definition byte_of :: "char \<Rightarrow> u8" where
  "byte_of c = word_of_nat (of_char c)"

abbreviation (input) newline_char :: char where "newline_char \<equiv> CHR 0x0A"
abbreviation (input) return_char :: char where "return_char \<equiv> CHR 0x0D"

record vga =
  vga_row :: u64
  vga_column :: u64
  vga_color :: u8
  vga_buffer :: "u64 \<Rightarrow> u16"

definition poke :: "u64 \<Rightarrow> u16 \<Rightarrow> vga \<Rightarrow> vga" where
  "poke i e v = v\<lparr>vga_buffer := (vga_buffer v)(i := e)\<rparr>"

definition vga_init :: "vga \<Rightarrow> vga" where
  "vga_init v =
     (let v = v\<lparr>vga_row := 0, vga_column := 0,
                vga_color := vga_entry_color VGA_COLOR_LIGHT_GREY VGA_COLOR_BLACK\<rparr>
      in for_up 0 VGA_HEIGHT (\<lambda>y. for_up 0 VGA_WIDTH (\<lambda>x v.
           let index = y * VGA_WIDTH + x
           in poke index (vga_entry (byte_of CHR '' '') (vga_color v)) v)) v)"

definition vga_setcolor :: "u8 \<Rightarrow> vga \<Rightarrow> vga" where
  "vga_setcolor color v = v\<lparr>vga_color := color\<rparr>"

definition vga_scroll :: "vga \<Rightarrow> vga" where
  "vga_scroll v =
     (let v = for_up 0 (VGA_HEIGHT - 1) (\<lambda>y. for_up 0 VGA_WIDTH (\<lambda>x v.
                poke (y * VGA_WIDTH + x) (vga_buffer v ((y + 1) * VGA_WIDTH + x)) v)) v;
          v = for_up 0 VGA_WIDTH (\<lambda>x v.
                poke ((VGA_HEIGHT - 1) * VGA_WIDTH + x)
                  (vga_entry (byte_of CHR '' '') (vga_color v)) v) v
      in v\<lparr>vga_row := VGA_HEIGHT - 1\<rparr>)"

definition vga_putentryat :: "char \<Rightarrow> u8 \<Rightarrow> u64 \<Rightarrow> u64 \<Rightarrow> vga \<Rightarrow> vga" where
  "vga_putentryat c color x y v =
     (let index = y * VGA_WIDTH + x in poke index (vga_entry (byte_of c) color) v)"

definition vga_putchar :: "char \<Rightarrow> vga \<Rightarrow> vga" where
  "vga_putchar c v =
     (if c = newline_char then
        let v = v\<lparr>vga_column := 0\<rparr>;
            v = v\<lparr>vga_row := vga_row v + 1\<rparr>
        in if vga_row v = VGA_HEIGHT then vga_scroll v else v
      else if c = return_char then v\<lparr>vga_column := 0\<rparr>
      else
        let v = vga_putentryat c (vga_color v) (vga_column v) (vga_row v) v;
            v = v\<lparr>vga_column := vga_column v + 1\<rparr>
        in if vga_column v = VGA_WIDTH then
             let v = v\<lparr>vga_column := 0\<rparr>;
                 v = v\<lparr>vga_row := vga_row v + 1\<rparr>
             in if vga_row v = VGA_HEIGHT then vga_scroll v else v
           else v)"

text \<open>
  \<open>vga_write\<close> prints \<open>size\<close> bytes; \<open>vga_writestring\<close> computes the length of the
  NUL-terminated string first.  A C string is the list of the bytes before its NUL.
\<close>

fun vga_write :: "string \<Rightarrow> nat \<Rightarrow> vga \<Rightarrow> vga" where
  "vga_write data 0 v = v"
| "vga_write [] (Suc n) v = v"
| "vga_write (c # data) (Suc n) v = vga_write data n (vga_putchar c v)"

definition vga_writestring :: "string \<Rightarrow> vga \<Rightarrow> vga" where
  "vga_writestring data v = vga_write data (length data) v"

lemma vga_writestring_fold: "vga_writestring data v = fold vga_putchar data v"
proof -
  have "vga_write data (length data) v = fold vga_putchar data v"
    by (induction data arbitrary: v) auto
  then show ?thesis by (simp add: vga_writestring_def)
qed

section \<open>The buffer after scrolling and after \<open>vga_init\<close>\<close>

definition blank :: "vga \<Rightarrow> u16" where
  "blank v = vga_entry (byte_of CHR '' '') (vga_color v)"

lemma poke_sel [simp]:
  "vga_row (poke i e v) = vga_row v" "vga_column (poke i e v) = vga_column v"
  "vga_color (poke i e v) = vga_color v" "vga_buffer (poke i e v) = (vga_buffer v)(i := e)"
  by (simp_all add: poke_def)

text \<open>
  A loop that pokes the cells of an index range one after the other, each with a value that
  depends on the buffer at that moment.
\<close>

lemma poke_loop_frame:
  "vga_row (for_up i n (\<lambda>j v. poke (h j) (g j v) v) v) = vga_row v"
  "vga_column (for_up i n (\<lambda>j v. poke (h j) (g j v) v) v) = vga_column v"
  "vga_color (for_up i n (\<lambda>j v. poke (h j) (g j v) v) v) = vga_color v"
  by (rule for_up_preserves [where P = "\<lambda>t. vga_row t = vga_row v"], simp_all)
    (rule for_up_preserves [where P = "\<lambda>t. vga_column t = vga_column v"], simp_all,
     rule for_up_preserves [where P = "\<lambda>t. vga_color t = vga_color v"], simp_all)

lemma fill_loop:
  assumes "i \<le> n"
  shows "vga_buffer (for_up i n (\<lambda>j v. poke j e v) v) k =
    (if i \<le> k \<and> k < n then e else vga_buffer v k)"
  by (rule for_up_inv [where P = "\<lambda>j t. vga_buffer t k =
        (if i \<le> k \<and> k < j then e else vga_buffer v k)", OF _ assms])
    (auto simp: less_inc_iff)

lemma copy_up_loop:
  assumes "unat n + 80 < 2 ^ 64"
  shows "vga_buffer (for_up 0 n (\<lambda>j v. poke j (vga_buffer v (j + 80)) v) v) k =
    (if k < n then vga_buffer v (k + 80) else vga_buffer v k)"
proof -
  have "\<forall>k. vga_buffer (for_up 0 n (\<lambda>j v. poke j (vga_buffer v (j + 80)) v) v) k =
    (if k < n then vga_buffer v (k + 80) else vga_buffer v k)"
  proof (rule for_up_inv [where P = "\<lambda>j t. \<forall>k. vga_buffer t k =
        (if k < j then vga_buffer v (k + 80) else vga_buffer v k)"])
    fix j and t :: vga
    assume "0 \<le> j" and j: "j < n"
      and IH: "\<forall>k. vga_buffer t k = (if k < j then vga_buffer v (k + 80) else vga_buffer v k)"
    have "unat (j + 80) = unat j + 80"
      using unat_add_lt [of j 80] unat_mono [OF j] assms by simp
    then have "\<not> j + 80 < j"
      by (simp add: word_less_nat_alt)
    then show "\<forall>k. vga_buffer (poke j (vga_buffer t (j + 80)) t) k =
        (if k < j + 1 then vga_buffer v (k + 80) else vga_buffer v k)"
      using IH by (auto simp: less_inc_iff [OF j])
  qed simp_all
  then show ?thesis by blast
qed

lemma row_below: "(y + 1) * 80 + x = y * 80 + x + 80" for x y :: u64
  by (simp add: distrib_right)

lemma vga_scroll_buffer:
  "vga_buffer (vga_scroll v) k =
    (if k < 1920 then vga_buffer v (k + 80) else if k < 2000 then blank v else vga_buffer v k)"
  and vga_scroll_sel:
  "vga_row (vga_scroll v) = 24"
  "vga_column (vga_scroll v) = vga_column v"
  "vga_color (vga_scroll v) = vga_color v"
proof -
  define w where "w = for_up 0 (24 :: u64) (\<lambda>y. for_up 0 80 (\<lambda>x v.
    poke (y * 80 + x) (vga_buffer v ((y + 1) * 80 + x)) v)) v"
  have w: "w = for_up 0 1920 (\<lambda>j v. poke j (vga_buffer v (j + 80)) v) v"
    unfolding w_def row_below
    using for_up_nested [of "24 :: u64" 80 "\<lambda>j v. poke j (vga_buffer v (j + 80)) v" v] by simp
  have col: "vga_color w = vga_color v" and "vga_column w = vga_column v"
    by (simp_all add: w poke_loop_frame(2,3) [where h = "\<lambda>j. j"])
  define z where "z = for_up 0 (80 :: u64) (\<lambda>x u. poke (1920 + x) (vga_entry (byte_of CHR '' '') (vga_color u)) u) w"
  have scroll: "vga_scroll v = z\<lparr>vga_row := 24\<rparr>"
    by (simp add: vga_scroll_def w_def z_def Let_def)
  have zsel: "vga_color z = vga_color w" "vga_column z = vga_column w"
    unfolding z_def by (simp_all add: poke_loop_frame(2,3))
  have z_eq: "z = for_up 1920 2000 (\<lambda>j u. poke j (vga_entry (byte_of CHR '' '') (vga_color u)) u) w"
    using for_up_shift [of "1920 :: u64" 80] by (simp add: z_def)
  have "vga_buffer z k = (if 1920 \<le> k \<and> k < 2000 then blank v else vga_buffer w k)"
    unfolding z_eq
    by (rule for_up_inv [where P = "\<lambda>j t. vga_color t = vga_color v \<and> vga_buffer t k =
          (if 1920 \<le> k \<and> k < j then blank v else vga_buffer w k)", THEN conjunct2])
      (auto simp: col blank_def less_inc_iff)
  then show "vga_buffer (vga_scroll v) k =
      (if k < 1920 then vga_buffer v (k + 80) else if k < 2000 then blank v else vga_buffer v k)"
    using copy_up_loop [of 1920 v k] by (auto simp: scroll w not_less)
  show "vga_row (vga_scroll v) = 24"
    "vga_column (vga_scroll v) = vga_column v" "vga_color (vga_scroll v) = vga_color v"
    using zsel col \<open>vga_column w = vga_column v\<close> by (simp_all add: scroll)
qed

section \<open>The abstract terminal and the refinement\<close>

record terminal =
  t_row :: nat
  t_col :: nat
  t_lines :: "u16 list list"

definition t_newline :: "u16 \<Rightarrow> terminal \<Rightarrow> terminal" where
  "t_newline b t =
     (if Suc (t_row t) = 25
      then t\<lparr>t_row := 24, t_col := 0, t_lines := tl (t_lines t) @ [replicate 80 b]\<rparr>
      else t\<lparr>t_row := Suc (t_row t), t_col := 0\<rparr>)"

definition t_putchar :: "u8 \<Rightarrow> char \<Rightarrow> terminal \<Rightarrow> terminal" where
  "t_putchar color c t =
     (let b = vga_entry (byte_of CHR '' '') color in
      if c = newline_char then t_newline b t
      else if c = return_char then t\<lparr>t_col := 0\<rparr>
      else
        let line = (t_lines t ! t_row t)[t_col t := vga_entry (byte_of c) color];
            t = t\<lparr>t_lines := (t_lines t)[t_row t := line]\<rparr>
        in if Suc (t_col t) = 80 then t_newline b t else t\<lparr>t_col := Suc (t_col t)\<rparr>)"

definition cell_index :: "nat \<Rightarrow> nat \<Rightarrow> u64" where
  "cell_index r c = of_nat (r * 80 + c)"

definition lines_of :: "vga \<Rightarrow> u16 list list" where
  "lines_of v = map (\<lambda>r. map (\<lambda>c. vga_buffer v (cell_index r c)) [0..<80]) [0..<25]"

definition terminal_of :: "vga \<Rightarrow> terminal" where
  "terminal_of v = \<lparr>t_row = unat (vga_row v), t_col = unat (vga_column v), t_lines = lines_of v\<rparr>"

definition on_screen :: "vga \<Rightarrow> bool" where
  "on_screen v \<longleftrightarrow> vga_row v < VGA_HEIGHT \<and> vga_column v < VGA_WIDTH"

lemma unat_cell_index: "r < 25 \<Longrightarrow> c < 80 \<Longrightarrow> unat (cell_index r c) = r * 80 + c"
  unfolding cell_index_def by (rule unat_of_nat_lt) simp

lemma cell_index_inj:
  "\<lbrakk>r < 25; c < 80; r' < 25; c' < 80\<rbrakk> \<Longrightarrow> cell_index r c = cell_index r' c' \<longleftrightarrow> r = r' \<and> c = c'"
proof -
  assume b: "r < 25" "c < 80" "r' < 25" "c' < 80"
  have "(r * 80 + c) mod 80 = c" "(r' * 80 + c') mod 80 = c'"
    "(r * 80 + c) div 80 = r" "(r' * 80 + c') div 80 = r'"
    using b by simp_all
  then have "r * 80 + c = r' * 80 + c' \<longleftrightarrow> r = r' \<and> c = c'"
    by metis
  then show ?thesis
    using b by (simp add: word_unat_eq_iff unat_cell_index)
qed

lemma lines_of_nth: "r < 25 \<Longrightarrow> lines_of v ! r = map (\<lambda>c. vga_buffer v (cell_index r c)) [0..<80]"
  by (simp add: lines_of_def)

lemma length_lines_of [simp]: "length (lines_of v) = 25"
  by (simp add: lines_of_def)

lemma lines_of_cong: "vga_buffer v = vga_buffer w \<Longrightarrow> lines_of v = lines_of w"
  by (simp add: lines_of_def)

lemma lines_of_poke:
  assumes "r < 25" "c < 80"
  shows "lines_of (poke (cell_index r c) e v) = (lines_of v)[r := (lines_of v ! r)[c := e]]"
proof (rule nth_equalityI)
  fix i assume "i < length (lines_of (poke (cell_index r c) e v))"
  then have i: "i < 25" by simp
  show "lines_of (poke (cell_index r c) e v) ! i = (lines_of v)[r := (lines_of v ! r)[c := e]] ! i"
    by (rule nth_equalityI)
      (use assms i in \<open>auto simp: lines_of_nth nth_list_update cell_index_inj\<close>)
qed simp

lemma cell_index_down: "cell_index r c + 80 = cell_index (Suc r) c"
  by (simp add: cell_index_def algebra_simps)

lemma lines_of_scroll: "lines_of (vga_scroll v) = tl (lines_of v) @ [replicate 80 (blank v)]"
proof (rule nth_equalityI)
  fix r assume "r < length (lines_of (vga_scroll v))"
  then have r: "r < 25" by simp
  show "lines_of (vga_scroll v) ! r = (tl (lines_of v) @ [replicate 80 (blank v)]) ! r"
  proof (cases "r < 24")
    case True
    then have "cell_index r c < 1920" if "c < 80" for c
      using that by (simp add: word_less_nat_alt unat_cell_index)
    then show ?thesis
      using True by (auto simp: lines_of_nth nth_append nth_tl vga_scroll_buffer cell_index_down)
  next
    case False
    with r have "r = 24" by simp
    moreover have "\<not> cell_index 24 c < 1920" "cell_index 24 c < 2000" if "c < 80" for c
      using that by (simp_all add: word_less_nat_alt unat_cell_index)
    ultimately show ?thesis
      by (auto simp: lines_of_nth nth_append vga_scroll_buffer intro!: nth_equalityI)
  qed
qed simp

lemma row_next_eq: "r < 25 \<Longrightarrow> r + 1 = 25 \<longleftrightarrow> Suc (unat r) = 25" for r :: u64
  by (simp add: word_unat_eq_iff unat_inc)

lemma column_next_eq: "c < 80 \<Longrightarrow> c + 1 = 80 \<longleftrightarrow> Suc (unat c) = 80" for c :: u64
  by (simp add: word_unat_eq_iff unat_inc)

text \<open>The common tail of \<open>vga_putchar\<close>: column 0 of the next row, scrolling at the bottom.\<close>

definition vga_next_line :: "vga \<Rightarrow> vga" where
  "vga_next_line v =
     (let v = v\<lparr>vga_column := 0, vga_row := vga_row v + 1\<rparr>
      in if vga_row v = VGA_HEIGHT then vga_scroll v else v)"

lemma next_line_refines:
  assumes "vga_row v < VGA_HEIGHT"
  shows "terminal_of (vga_next_line v) = t_newline (blank v) (terminal_of v)"
    and "on_screen (vga_next_line v)"
proof -
  define u where "u = v\<lparr>vga_column := 0, vga_row := vga_row v + 1\<rparr>"
  have u: "lines_of u = lines_of v" "blank u = blank v"
    by (simp_all add: u_def lines_of_def blank_def)
  have nxt: "vga_row v + 1 = 25 \<longleftrightarrow> Suc (unat (vga_row v)) = 25"
    by (rule row_next_eq [OF assms])
  have le: "vga_row v + 1 \<le> 25"
    by (rule inc_le [OF assms])
  show "terminal_of (vga_next_line v) = t_newline (blank v) (terminal_of v)"
    using nxt u unat_inc [OF assms]
    by (auto simp: vga_next_line_def terminal_of_def t_newline_def lines_of_scroll vga_scroll_sel
        Let_def simp flip: u_def)
      (simp_all add: u_def)
  show "on_screen (vga_next_line v)"
    using le by (simp add: vga_next_line_def on_screen_def Let_def vga_scroll_sel less_le)
qed

lemma vga_putchar_cases:
  "vga_putchar c v =
    (if c = newline_char then vga_next_line v
     else if c = return_char then v\<lparr>vga_column := 0\<rparr>
     else let w = vga_putentryat c (vga_color v) (vga_column v) (vga_row v) v in
       if vga_column v + 1 = VGA_WIDTH then vga_next_line w
       else w\<lparr>vga_column := vga_column v + 1\<rparr>)"
  by (simp add: vga_putchar_def vga_next_line_def vga_putentryat_def Let_def)

lemma putentryat_poke:
  assumes "on_screen v"
  shows "vga_putentryat c color (vga_column v) (vga_row v) v =
    poke (cell_index (unat (vga_row v)) (unat (vga_column v))) (vga_entry (byte_of c) color) v"
  by (simp add: vga_putentryat_def cell_index_def)

lemma on_screen_unat: "on_screen v \<Longrightarrow> unat (vga_row v) < 25 \<and> unat (vga_column v) < 80"
  by (simp add: on_screen_def word_less_nat_alt)

lemma putchar_refines:
  assumes "on_screen v"
  shows "terminal_of (vga_putchar c v) = t_putchar (vga_color v) c (terminal_of v)"
    and "on_screen (vga_putchar c v)"
proof -
  define w where "w = vga_putentryat c (vga_color v) (vga_column v) (vga_row v) v"
  note r = on_screen_unat [OF assms]
  have row: "vga_row v < 25" and col: "vga_column v < 80"
    using assms by (simp_all add: on_screen_def)
  have w: "lines_of w = (lines_of v)[unat (vga_row v) :=
      (lines_of v ! unat (vga_row v))[unat (vga_column v) := vga_entry (byte_of c) (vga_color v)]]"
    using r by (simp add: w_def putentryat_poke [OF assms] lines_of_poke)
  have wsel: "vga_row w = vga_row v" "vga_column w = vga_column v" "vga_color w = vga_color v"
    "blank w = blank v"
    by (simp_all add: w_def vga_putentryat_def Let_def blank_def)
  have nl: "terminal_of (vga_next_line w) = t_newline (blank v) (terminal_of w)"
    "on_screen (vga_next_line w)"
    using next_line_refines [of w] row by (simp_all add: wsel)
  note end_of_row = column_next_eq [OF col]
  have term_w: "terminal_of w = (let t = terminal_of v in t\<lparr>t_lines := (t_lines t)[t_row t :=
      (t_lines t ! t_row t)[t_col t := vga_entry (byte_of c) (vga_color v)]]\<rparr>)"
    by (simp add: terminal_of_def wsel w Let_def)
  have term_step: "terminal_of (w\<lparr>vga_column := vga_column v + 1\<rparr>)
      = (terminal_of w)\<lparr>t_col := Suc (t_col (terminal_of v))\<rparr>"
    by (simp add: terminal_of_def wsel unat_inc [OF col] lines_of_def)
  have t_col: "t_col (terminal_of v) = unat (vga_column v)"
    by (simp add: terminal_of_def)
  have cr: "terminal_of (v\<lparr>vga_column := 0\<rparr>) = (terminal_of v)\<lparr>t_col := 0\<rparr>"
    by (simp add: terminal_of_def lines_of_def)
  have nl_v: "terminal_of (vga_next_line v) = t_newline (blank v) (terminal_of v)"
    by (rule next_line_refines(1) [OF row])
  consider "c = newline_char" | "c = return_char" | "c \<noteq> newline_char" "c \<noteq> return_char"
    by blast
  then show "terminal_of (vga_putchar c v) = t_putchar (vga_color v) c (terminal_of v)"
  proof cases
    case 1
    then show ?thesis by (simp add: vga_putchar_cases t_putchar_def nl_v blank_def Let_def)
  next
    case 2
    then show ?thesis by (simp add: vga_putchar_cases t_putchar_def cr)
  next
    case 3
    then have "vga_putchar c v = (if vga_column v + 1 = 80 then vga_next_line w
        else w\<lparr>vga_column := vga_column v + 1\<rparr>)"
      by (simp add: vga_putchar_cases w_def)
    then have "terminal_of (vga_putchar c v) = (if Suc (unat (vga_column v)) = 80
        then t_newline (blank v) (terminal_of w)
        else (terminal_of w)\<lparr>t_col := Suc (t_col (terminal_of v))\<rparr>)"
      unfolding end_of_row by (simp only: nl term_step split: if_split) simp
    with 3 show ?thesis
      by (simp add: t_putchar_def term_w Let_def blank_def t_col)
  qed
  show "on_screen (vga_putchar c v)"
    using next_line_refines(2) [OF row] nl(2) inc_le [OF col] row
    by (simp add: vga_putchar_cases Let_def less_le on_screen_def wsel flip: w_def)
qed

lemma vga_init_sel:
  "vga_row (vga_init v) = 0" "vga_column (vga_init v) = 0" "vga_color (vga_init v) = 7"
  "vga_buffer (vga_init v) k = (if k < 2000 then 0x0720 else vga_buffer v k)"
proof -
  define u where "u = v\<lparr>vga_row := 0, vga_column := 0,
    vga_color := vga_entry_color VGA_COLOR_LIGHT_GREY VGA_COLOR_BLACK\<rparr>"
  have color: "vga_color u = 7"
    by (simp add: u_def vga_entry_color_def)
  define e where "e = (\<lambda>v :: vga. vga_entry (byte_of CHR '' '') (vga_color v))"
  have init: "vga_init v = for_up 0 2000 (\<lambda>j w. poke j (e w) w) u"
    using for_up_nested [of "25 :: u64" 80 "\<lambda>j w. poke j (e w) w" u]
    by (simp add: vga_init_def u_def e_def Let_def)
  show "vga_row (vga_init v) = 0" "vga_column (vga_init v) = 0" "vga_color (vga_init v) = 7"
    by (simp_all add: init poke_loop_frame [where h = "\<lambda>j. j"] color) (simp_all add: u_def)
  have cell: "vga_entry (byte_of CHR '' '') 7 = 0x0720"
    by (simp add: vga_entry_def byte_of_def)
  have "vga_color t = 7 \<and> vga_buffer t k = (if k < 2000 then 0x0720 else vga_buffer v k)"
    if "t = for_up 0 2000 (\<lambda>j w. poke j (e w) w) u" for t :: vga
    unfolding that
    by (rule for_up_inv [where P = "\<lambda>j t. vga_color t = 7
          \<and> vga_buffer t k = (if k < j then 0x0720 else vga_buffer v k)"])
      (auto simp: color less_inc_iff e_def cell, simp add: u_def)
  then show "vga_buffer (vga_init v) k = (if k < 2000 then 0x0720 else vga_buffer v k)"
    using init by blast
qed

lemma next_line_outside: "vga_row v < 25 \<Longrightarrow> 2000 \<le> k \<Longrightarrow> vga_buffer (vga_next_line v) k = vga_buffer v k"
  by (auto simp: vga_next_line_def Let_def vga_scroll_buffer word_le_nat_alt word_less_nat_alt)

lemma putchar_outside:
  assumes "on_screen v" "2000 \<le> k"
  shows "vga_buffer (vga_putchar c v) k = vga_buffer v k"
proof -
  define w where "w = vga_putentryat c (vga_color v) (vga_column v) (vga_row v) v"
  have row: "vga_row v < 25" and "vga_row w = vga_row v"
    using assms(1) by (simp_all add: on_screen_def w_def vga_putentryat_def Let_def)
  have "unat (cell_index (unat (vga_row v)) (unat (vga_column v))) < 2000"
    using on_screen_unat [OF assms(1)] by (simp add: unat_cell_index)
  then have "k \<noteq> cell_index (unat (vga_row v)) (unat (vga_column v))"
    using assms(2) by (auto simp: word_le_nat_alt)
  then have "vga_buffer w k = vga_buffer v k"
    by (simp add: w_def putentryat_poke [OF assms(1)])
  then show ?thesis
    using row \<open>vga_row w = vga_row v\<close> assms(2)
    by (simp add: vga_putchar_cases next_line_outside Let_def flip: w_def)
qed

lemma next_line_color: "vga_color (vga_next_line v) = vga_color v"
  by (simp add: vga_next_line_def Let_def vga_scroll_sel)

lemma putchar_color: "vga_color (vga_putchar c v) = vga_color v"
  by (simp add: vga_putchar_cases next_line_color vga_putentryat_def Let_def)

text \<open>C6: Writing a string to the VGA console is writing it to a 25 by 80 terminal that scrolls:
  from any state with the cursor on the screen, the rows and the cursor afterwards are those of the
  abstract terminal, the cursor is on the screen again, and no memory outside the 2000 cells is
  written.\<close>

theorem vga_writestring_refines:
  assumes "on_screen v"
  shows "terminal_of (vga_writestring s v) = fold (t_putchar (vga_color v)) s (terminal_of v)
    \<and> on_screen (vga_writestring s v)
    \<and> (\<forall>k. k < 2000 \<or> vga_buffer (vga_writestring s v) k = vga_buffer v k)"
proof -
  have "terminal_of (fold vga_putchar s v) = fold (t_putchar (vga_color v)) s (terminal_of v)
    \<and> on_screen (fold vga_putchar s v)
    \<and> (\<forall>k\<ge>2000. vga_buffer (fold vga_putchar s v) k = vga_buffer v k)"
    using assms
  proof (induction s arbitrary: v)
    case (Cons c s)
    then show ?case
      using Cons.IH [OF putchar_refines(2) [OF Cons.prems]]
      by (simp add: putchar_refines(1) putchar_outside putchar_color)
  qed simp
  then show ?thesis
    by (metis linorder_not_less vga_writestring_fold)
qed

theorem vga_writestring_refines_witness:
  "on_screen (vga_init \<lparr>vga_row = 9, vga_column = 99, vga_color = 0, vga_buffer = \<lambda>i. 0\<rparr>)
   \<and> on_screen (vga_writestring ''Hi''
        (vga_init \<lparr>vga_row = 9, vga_column = 99, vga_color = 0, vga_buffer = \<lambda>i. 0\<rparr>))"
proof -
  let ?v = "vga_init \<lparr>vga_row = 9, vga_column = 99, vga_color = 0, vga_buffer = \<lambda>i. 0\<rparr>"
  have "on_screen ?v"
    by (simp add: on_screen_def vga_init_sel)
  then show ?thesis
    using vga_writestring_refines [of ?v "''Hi''"] by simp
qed

text \<open>After \<open>vga_init\<close> the terminal is an empty screen in light grey on black with the cursor
  at its top left corner, whatever was in the buffer and the variables before.\<close>

theorem vga_init_terminal:
  "terminal_of (vga_init v) = \<lparr>t_row = 0, t_col = 0, t_lines = replicate 25 (replicate 80 0x0720)\<rparr>
   \<and> vga_color (vga_init v) = vga_entry_color VGA_COLOR_LIGHT_GREY VGA_COLOR_BLACK"
proof -
  have "cell_index r c < 2000" if "r < 25" "c < 80" for r c
    using that by (simp add: word_less_nat_alt unat_cell_index)
  then have "lines_of (vga_init v) = replicate 25 (replicate 80 0x0720)"
    by (auto simp: lines_of_nth vga_init_sel intro!: nth_equalityI)
  then show ?thesis
    by (simp add: terminal_of_def vga_init_sel vga_entry_color_def)
qed

end
