(* ===== verification/Console.thy ===== *)
theory Console
  imports Vga
begin

text \<open>
  The console of \<^verbatim>\<open>c/kernel/minimal_step9.c\<close>: port I/O, the serial line COM1, and \<open>puts\<close>,
  \<open>print_dec\<close>, \<open>print_hex\<close> and their 64-bit variants, which write to the serial line and,
  through \<open>puts\<close>, to the VGA screen of theory \<^verbatim>\<open>Vga\<close>.

  The devices behind the ports are the environment: \<open>port_value n p\<close> is what a read of port
  \<open>p\<close> returns when \<open>n\<close> port accesses have happened, for any function.  Of the UART the
  model uses only its documented flow control: bit 5 of the line status register (THRE) is
  clear for some number of reads after a byte was written (\<open>uart_delay\<close>, arbitrary) and set
  after that.  So the polling loop of \<open>putc\<close> is modelled as it is written and its
  termination is a theorem about that device.
\<close>

section \<open>Ports\<close>

datatype port_io = Out u16 u8 | In u16 u8

record console =
  ports :: "port_io list"
  port_value :: "nat \<Rightarrow> u16 \<Rightarrow> u8"
  uart_delay :: "nat \<Rightarrow> nat"
  uart_left :: nat
  screen :: vga

abbreviation (input) COM1 :: u16 where "COM1 \<equiv> 0x3F8"

definition outb :: "u16 \<Rightarrow> u8 \<Rightarrow> console \<Rightarrow> console" where
  "outb port val c =
     (let c = c\<lparr>ports := ports c @ [Out port val]\<rparr>
      in if port = COM1 then c\<lparr>uart_left := uart_delay c (length (ports c))\<rparr> else c)"

definition inb :: "u16 \<Rightarrow> console \<Rightarrow> u8 \<times> console" where
  "inb port c =
     (let v = port_value c (length (ports c)) port;
          v = (if port = COM1 + 5
               then if uart_left c = 0 then v OR 0x20 else v AND NOT 0x20 else v);
          c = c\<lparr>ports := ports c @ [In port v],
                uart_left := (if port = COM1 + 5 then uart_left c - 1 else uart_left c)\<rparr>
      in (v, c))"

section \<open>The serial line\<close>

definition serial_init :: "console \<Rightarrow> console" where
  "serial_init c =
     (let c = outb (COM1 + 1) 0x00 c;
          c = outb (COM1 + 3) 0x80 c;
          c = outb (COM1 + 0) 0x03 c;
          c = outb (COM1 + 1) 0x00 c;
          c = outb (COM1 + 3) 0x03 c;
          c = outb (COM1 + 2) 0xC7 c;
          c = outb (COM1 + 4) 0x0B c
      in c)"

text \<open>\<open>while ((inb(COM1 + 5) & 0x20) == 0);\<close>\<close>

lemma thre_clear: "fst (inb (COM1 + 5) c) AND 0x20 = 0 \<longleftrightarrow> uart_left c \<noteq> 0"
proof -
  have "(v OR 0x20) AND 0x20 \<noteq> 0" for v :: u8
    by (simp add: bit_eq_iff bit_simps) (rule exI [of _ 5], simp)
  moreover have "(v AND NOT 0x20) AND 0x20 = 0" for v :: u8
    by (simp add: bit_eq_iff bit_simps)
  ultimately show ?thesis
    by (simp add: inb_def Let_def)
qed

function putc_wait :: "console \<Rightarrow> console" where
  "putc_wait c =
     (let (v, c') = inb (COM1 + 5) c in if v AND 0x20 = 0 then putc_wait c' else c')"
  by pat_completeness auto
termination
proof (relation "measure uart_left")
  fix c p v c'
  assume "p = inb (COM1 + 5) c" "(v, c') = p" "v AND 0x20 = 0"
  then have "fst (inb (COM1 + 5) c) AND 0x20 = 0" and "c' = snd (inb (COM1 + 5) c)"
    by (metis fst_conv, metis snd_conv)
  then have "uart_left c \<noteq> 0" and "c' = snd (inb (COM1 + 5) c)"
    using thre_clear [of c] by blast+
  moreover have "uart_left (snd (inb (COM1 + 5) c)) = uart_left c - 1"
    by (simp add: inb_def Let_def)
  ultimately show "(c', c) \<in> measure uart_left"
    by simp
qed simp

declare putc_wait.simps [simp del]

definition putc :: "char \<Rightarrow> console \<Rightarrow> console" where
  "putc ch c = outb COM1 (byte_of ch) (putc_wait c)"

fun puts :: "string \<Rightarrow> console \<Rightarrow> console" where
  "puts [] c = c"
| "puts (ch # s) c =
     (let c = (if ch = newline_char then putc return_char c else c);
          c = putc ch c;
          c = c\<lparr>screen := vga_putchar ch (screen c)\<rparr>
      in puts s c)"

section \<open>Numbers\<close>

text \<open>
  The decimal printers fill a buffer from its end: \<open>i\<close> free slots are left and \<open>acc\<close> is
  what is already written.
\<close>

definition digit_char :: "nat \<Rightarrow> char" where
  "digit_char d = char_of (48 + d)"

fun dec_loop :: "nat \<Rightarrow> 'a::len word \<Rightarrow> string \<Rightarrow> string" where
  "dec_loop 0 num acc = acc"
| "dec_loop (Suc i) num acc =
     (if 0 < num then dec_loop i (num div 10) (digit_char (unat (num mod 10)) # acc) else acc)"

definition print_dec :: "u32 \<Rightarrow> console \<Rightarrow> console" where
  "print_dec num c = (if num = 0 then putc CHR ''0'' c else puts (dec_loop 11 num []) c)"

definition print_dec_64 :: "u64 \<Rightarrow> console \<Rightarrow> console" where
  "print_dec_64 num c = (if num = 0 then putc CHR ''0'' c else puts (dec_loop 23 num []) c)"

definition nibble_char :: "nat \<Rightarrow> char" where
  "nibble_char nibble = (if nibble < 10 then char_of (48 + nibble) else char_of (65 + nibble - 10))"

definition hex_buf :: "nat \<Rightarrow> 'a::len word \<Rightarrow> string" where
  "hex_buf digits num =
     ''0x'' @ map (\<lambda>i. nibble_char (unat (drop_bit (4 * (digits - 1) - i * 4) num AND 0xF))) [0..<digits]"

definition print_hex :: "u32 \<Rightarrow> console \<Rightarrow> console" where
  "print_hex num c = puts (hex_buf 8 num) c"

definition print_hex_64 :: "u64 \<Rightarrow> console \<Rightarrow> console" where
  "print_hex_64 num c = puts (hex_buf 16 num) c"

text \<open>
  The VGA-only printers of \<^verbatim>\<open>vga.h\<close>.  \<open>vga_write_dec\<close> has no bound on the buffer index in
  its loop; \<open>vga_dec_loop\<close> is that loop, and \<open>vga_dec_length\<close> below shows that it fits the
  twenty digits before the NUL.
\<close>

definition vga_write_hex :: "u64 \<Rightarrow> vga \<Rightarrow> vga" where
  "vga_write_hex value v =
     vga_writestring (''0x'' @ map (\<lambda>i. ''0123456789ABCDEF'' !
       unat (drop_bit (i * 4) value AND 0xF)) (rev [0..<16])) v"

function vga_dec_loop :: "u64 \<Rightarrow> string \<Rightarrow> string" where
  "vga_dec_loop value acc =
     (if 0 < value then vga_dec_loop (value div 10) (digit_char (unat (value mod 10)) # acc) else acc)"
  by pat_completeness auto
termination
proof (relation "measure (\<lambda>(value, acc). unat value)")
  fix n :: u64 and acc :: string
  assume "0 < n"
  then have "unat n \<noteq> 0"
    by (simp add: unat_eq_0 word_neq_0_conv)
  then show "((n div 10, digit_char (unat (n mod 10)) # acc), n, acc)
      \<in> measure (\<lambda>(n, acc). unat n)"
    by (simp add: word_nat)
qed simp

declare vga_dec_loop.simps [simp del]

definition vga_write_dec :: "u64 \<Rightarrow> vga \<Rightarrow> vga" where
  "vga_write_dec value v =
     (if value = 0 then vga_putchar CHR ''0'' v else vga_writestring (vga_dec_loop value []) v)"

section \<open>Sequences of output\<close>

text \<open>
  A run of consecutive \<open>puts\<close>, \<open>print_dec\<close>, \<open>print_dec_64\<close>, \<open>print_hex\<close> and
  \<open>print_hex_64\<close> calls, in the order of the source.  \<open>Ln s\<close> is \<open>puts\<close> of a string that
  ends in a newline.
\<close>

datatype msg = S string | Ln string | D u32 | Q u64 | H u32 | X u64

fun emit :: "msg \<Rightarrow> console \<Rightarrow> console" where
  "emit (S s) c = puts s c"
| "emit (Ln s) c = puts (s @ [newline_char]) c"
| "emit (D n) c = print_dec n c"
| "emit (Q n) c = print_dec_64 n c"
| "emit (H n) c = print_hex n c"
| "emit (X n) c = print_hex_64 n c"

definition say :: "msg list \<Rightarrow> console \<Rightarrow> console" where
  "say ms c = fold emit ms c"

lemma say_say [simp]: "say b (say a c) = say (a @ b) c"
  by (simp add: say_def)

section \<open>What reaches the wire and the screen\<close>

text \<open>
  The part of a 16550 UART that the code relies on: while bit 7 (DLAB) of the line control
  register is set, offset 0 and 1 are the divisor latch, otherwise a write to offset 0 sends
  the byte.
\<close>

record uart =
  dlab :: bool
  line_control :: u8
  divisor_low :: u8
  divisor_high :: u8
  wire :: "u8 list"

fun uart_io :: "port_io \<Rightarrow> uart \<Rightarrow> uart" where
  "uart_io (In p v) u = u"
| "uart_io (Out p v) u =
     (if p = COM1 + 3 then u\<lparr>dlab := bit v 7, line_control := v\<rparr>
      else if p = COM1 then
        (if dlab u then u\<lparr>divisor_low := v\<rparr> else u\<lparr>wire := wire u @ [v]\<rparr>)
      else if p = COM1 + 1 then (if dlab u then u\<lparr>divisor_high := v\<rparr> else u)
      else u)"

definition uart_of :: "console \<Rightarrow> uart" where
  "uart_of c = fold uart_io (ports c)
     \<lparr>dlab = False, line_control = 0, divisor_low = 0, divisor_high = 0, wire = []\<rparr>"

definition crlf :: "string \<Rightarrow> u8 list" where
  "crlf s = concat (map (\<lambda>ch. if ch = newline_char then [0x0D, 0x0A] else [byte_of ch]) s)"

lemma uart_of_outb: "uart_of (outb p v c) = uart_io (Out p v) (uart_of c)"
  by (simp add: uart_of_def outb_def Let_def del: uart_io.simps)

lemma uart_of_inb: "uart_of (snd (inb p c)) = uart_of c"
  by (simp add: uart_of_def inb_def Let_def)

lemma putc_wait_frame [frame]:
  "uart_of (putc_wait c) = uart_of c \<and> screen (putc_wait c) = screen c"
proof (induction c rule: putc_wait.induct)
  case (1 c)
  have "screen (snd (inb (COM1 + 5) c)) = screen c"
    by (simp add: inb_def Let_def)
  with "1.IH" [OF refl prod.collapse] uart_of_inb [of "COM1 + 5" c] show ?case
    by (subst (1 2) putc_wait.simps) (simp add: case_prod_unfold Let_def)
qed

lemma screen_outb [frame]: "screen (outb p v c) = screen c"
  by (simp add: outb_def Let_def)

lemma screen_putc [frame]: "screen (putc ch c) = screen c"
  by (simp add: putc_def frame)

lemma dlab_putc [frame]: "dlab (uart_of (putc ch c)) = dlab (uart_of c)"
  by (simp add: putc_def uart_of_outb frame)

lemma wire_putc:
  "\<not> dlab (uart_of c) \<Longrightarrow> wire (uart_of (putc ch c)) = wire (uart_of c) @ [byte_of ch]"
  by (simp add: putc_def uart_of_outb frame)

lemma uart_of_screen [simp]: "uart_of (c\<lparr>screen := v\<rparr>) = uart_of c"
  by (simp add: uart_of_def)

lemma byte_of_newline: "byte_of newline_char = 0x0A" "byte_of return_char = 0x0D"
  by (simp_all add: byte_of_def)

lemma puts_screen: "screen (puts s c) = vga_writestring s (screen c)"
  by (induction s c rule: puts.induct) (simp_all add: vga_writestring_fold Let_def frame)

lemma puts_dlab [frame]: "dlab (uart_of (puts s c)) = dlab (uart_of c)"
  by (induction s c rule: puts.induct) (simp_all add: Let_def frame)

lemma puts_wire:
  "\<not> dlab (uart_of c) \<Longrightarrow> wire (uart_of (puts s c)) = wire (uart_of c) @ crlf s"
  by (induction s c rule: puts.induct)
    (simp_all add: crlf_def Let_def frame wire_putc byte_of_newline)

lemma puts_append: "puts (s @ t) c = puts t (puts s c)"
  by (induction s c rule: puts.induct) (simp_all add: Let_def)

text \<open>\<open>serial_init\<close> programs 38400 baud (divisor 3), 8 data bits, no parity, one stop bit,
  and sends nothing; after it \<open>puts\<close> sends exactly the string with every newline preceded by a
  carriage return, and shows the string on the screen.\<close>

theorem puts_after_serial_init:
  "let u0 = uart_of c; u = uart_of (serial_init c); c' = puts s (serial_init c) in
     wire u = wire u0 \<and> \<not> dlab u \<and> line_control u = 0x03
     \<and> divisor_low u = 3 \<and> divisor_high u = 0
     \<and> wire (uart_of c') = wire u0 @ crlf s \<and> screen c' = vga_writestring s (screen c)"
proof -
  have u: "wire (uart_of (serial_init c)) = wire (uart_of c)" "\<not> dlab (uart_of (serial_init c))"
    "line_control (uart_of (serial_init c)) = 0x03" "divisor_low (uart_of (serial_init c)) = 3"
    "divisor_high (uart_of (serial_init c)) = 0"
    by (simp_all add: serial_init_def Let_def uart_of_outb)
  moreover have "screen (serial_init c) = screen c"
    by (simp add: serial_init_def Let_def frame)
  ultimately show ?thesis
    by (simp add: Let_def puts_wire puts_screen)
qed

section \<open>What the number printers print\<close>

definition digit_value :: "char \<Rightarrow> nat" where
  "digit_value d = of_char d - 48"

definition is_digit :: "char \<Rightarrow> bool" where
  "is_digit d \<longleftrightarrow> 48 \<le> (of_char d :: nat) \<and> (of_char d :: nat) \<le> 57"

definition dec_value :: "string \<Rightarrow> nat" where
  "dec_value s = foldl (\<lambda>a d. 10 * a + digit_value d) 0 s"

text \<open>A decimal numeral of \<open>n\<close>: digits only, no leading zero, and the value \<open>n\<close>.\<close>

definition numeral_of :: "nat \<Rightarrow> string \<Rightarrow> bool" where
  "numeral_of n s \<longleftrightarrow> s \<noteq> [] \<and> list_all is_digit s \<and> (hd s = CHR ''0'' \<longrightarrow> s = ''0'') \<and> dec_value s = n"

lemma dec_value_snoc: "dec_value (s @ [d]) = 10 * dec_value s + digit_value d"
  by (simp add: dec_value_def)

lemma of_char_digit_char: "d < 10 \<Longrightarrow> (of_char (digit_char d) :: nat) = 48 + d"
  by (simp add: digit_char_def)

lemma digit_char_props:
  "d < 10 \<Longrightarrow> digit_value (digit_char d) = d"
  "d < 10 \<Longrightarrow> is_digit (digit_char d)"
  by (simp_all add: digit_value_def is_digit_def of_char_digit_char)

lemma digit_char_zero: "d < 10 \<Longrightarrow> digit_char d = CHR ''0'' \<longleftrightarrow> d = 0"
proof -
  assume "d < 10"
  have "digit_char d = CHR ''0'' \<longleftrightarrow> (of_char (digit_char d) :: nat) = of_char CHR ''0''"
    by (simp only: of_char_eq_iff)
  with \<open>d < 10\<close> show ?thesis
    by (simp add: of_char_digit_char)
qed

lemma numeral_of_snoc:
  assumes "numeral_of n s" "0 < n" "d < 10"
  shows "numeral_of (10 * n + d) (s @ [digit_char d])"
  using assms digit_char_props
  by (auto simp: numeral_of_def dec_value_snoc dec_value_def digit_value_def)

lemma numeral_of_digit: "0 < d \<Longrightarrow> d < 10 \<Longrightarrow> numeral_of d [digit_char d]"
  by (auto simp: numeral_of_def dec_value_def digit_char_props digit_char_zero)

lemma unat_div_mod_10:
  fixes n :: "'a::len word"
  assumes "10 < (2::nat) ^ LENGTH('a)"
  shows "unat (n div 10) = unat n div 10" "unat (n mod 10) = unat n mod 10"
proof -
  have "unat (10 :: 'a word) = 10"
    using unat_of_nat_lt [OF assms] by simp
  then show "unat (n div 10) = unat n div 10" "unat (n mod 10) = unat n mod 10"
    by (simp_all add: unat_div unat_mod)
qed

lemma word_zero_less: "0 < n \<longleftrightarrow> 0 < unat n" for n :: "'a::len word"
  by (simp add: word_less_nat_alt)

text \<open>With enough slots the loop stops because the number is used up, never because the
  buffer is full.\<close>

lemma dec_loop_numeral:
  fixes n :: "'a::len word"
  assumes w: "10 < (2::nat) ^ LENGTH('a)" and "0 < n" and "unat n < 10 ^ j" and "j \<le> i"
  shows "\<exists>s. dec_loop i n acc = s @ acc \<and> numeral_of (unat n) s \<and> length s \<le> j"
  using assms(2-4)
proof (induction i arbitrary: n acc j)
  case 0
  then show ?case by (simp add: word_zero_less)
next
  case (Suc i)
  then obtain j' where j: "j = Suc j'" "j' \<le> i"
    by (cases j) (auto simp: word_zero_less)
  let ?d = "unat (n mod 10)" and ?q = "n div 10"
  have dq: "?d = unat n mod 10" "unat ?q = unat n div 10"
    using unat_div_mod_10 [OF w] by simp_all
  have d: "?d < 10"
    by (simp add: dq)
  have n: "unat n = 10 * unat ?q + ?d"
    by (simp add: dq)
  show ?case
  proof (cases "0 < ?q")
    case True
    have "unat ?q < 10 ^ j'"
      using Suc.prems(2) by (simp add: dq j)
    from Suc.IH [OF True this j(2)] obtain s where s: "dec_loop i ?q (digit_char ?d # acc) = s @ digit_char ?d # acc"
      "numeral_of (unat ?q) s" "length s \<le> j'"
      by blast
    moreover have "numeral_of (unat n) (s @ [digit_char ?d])"
      using numeral_of_snoc [OF s(2) _ d] True by (simp add: word_zero_less flip: n)
    ultimately show ?thesis
      using Suc.prems(1) j by (intro exI [of _ "s @ [digit_char ?d]"]) simp
  next
    case False
    then have "?q = 0" and q0: "unat ?q = 0"
      by (simp_all add: word_zero_less unat_eq_0)
    have stop: "dec_loop k 0 s = s" for k and s :: string
      by (cases k) simp_all
    have "numeral_of (unat n) [digit_char ?d]"
      using numeral_of_digit [OF _ d] n q0 Suc.prems(1) by (simp add: word_zero_less)
    then show ?thesis
      using Suc.prems(1) j by (intro exI [of _ "[digit_char ?d]"]) (simp add: \<open>?q = 0\<close> stop)
  qed
qed

lemma crlf_digits: "list_all is_digit s \<Longrightarrow> crlf s = map byte_of s"
proof (induction s)
  case (Cons d s)
  then have "d \<noteq> newline_char"
    by (auto simp: is_digit_def)
  with Cons show ?case by (simp add: crlf_def)
qed (simp add: crlf_def)

lemma wire_puts_digits:
  assumes "\<not> dlab (uart_of c)" "numeral_of n s"
  shows "wire (uart_of (puts s c)) = wire (uart_of c) @ map byte_of s"
  using assms by (simp add: puts_wire crlf_digits numeral_of_def)

lemma numeral_zero: "numeral_of 0 ''0''"
  by (simp add: numeral_of_def is_digit_def dec_value_def digit_value_def)

lemma print_dec_wire:
  assumes "\<not> dlab (uart_of c)"
  shows "\<exists>s. wire (uart_of (print_dec n c)) = wire (uart_of c) @ map byte_of s
    \<and> numeral_of (unat n) s \<and> length s \<le> 10"
proof (cases "n = 0")
  case True
  then show ?thesis
    using numeral_zero assms by (intro exI [of _ "''0''"]) (simp add: print_dec_def wire_putc)
next
  case False
  moreover have "unat n < 10 ^ 10"
    using unsigned_less [of n, where 'a = nat] by simp
  ultimately obtain s where "dec_loop 11 n [] = s" "numeral_of (unat n) s" "length s \<le> 10"
    using dec_loop_numeral [of n 10 11 "[]"] by (auto simp: word_neq_0_conv)
  then show ?thesis
    using False assms wire_puts_digits by (intro exI [of _ s]) (auto simp: print_dec_def)
qed

lemma print_dec_64_wire:
  assumes "\<not> dlab (uart_of c)"
  shows "\<exists>s. wire (uart_of (print_dec_64 n c)) = wire (uart_of c) @ map byte_of s
    \<and> numeral_of (unat n) s \<and> length s \<le> 20"
proof (cases "n = 0")
  case True
  then show ?thesis
    using numeral_zero assms by (intro exI [of _ "''0''"]) (simp add: print_dec_64_def wire_putc)
next
  case False
  moreover have "unat n < 10 ^ 20"
    using unsigned_less [of n, where 'a = nat] by simp
  ultimately obtain s where "dec_loop 23 n [] = s" "numeral_of (unat n) s" "length s \<le> 20"
    using dec_loop_numeral [of n 20 23 "[]"] by (auto simp: word_neq_0_conv)
  then show ?thesis
    using False assms wire_puts_digits by (intro exI [of _ s]) (auto simp: print_dec_64_def)
qed

definition hex_digit_value :: "char \<Rightarrow> nat" where
  "hex_digit_value d = (let n = of_char d in if n < 58 then n - 48 else n - 55)"

definition hex_value :: "string \<Rightarrow> nat" where
  "hex_value s = foldl (\<lambda>a d. 16 * a + hex_digit_value d) 0 s"

lemma hex_digit_nibble: "d < 16 \<Longrightarrow> hex_digit_value (nibble_char d) = d"
  by (simp add: hex_digit_value_def nibble_char_def Let_def)

lemma unat_nibble: "unat (x AND 0xF) = unat x mod 16" for x :: "'a::len word"
proof -
  have "x AND 0xF = take_bit 4 x"
    by (simp add: take_bit_eq_mask mask_eq_exp_minus_1)
  then have "unat (x AND 0xF) = take_bit 4 (unat x)"
    by (simp only: unsigned_take_bit_eq)
  then show ?thesis
    by (simp add: take_bit_eq_mod)
qed

lemma hex_prefix_value:
  fixes n :: "'a::len word"
  assumes "unat n < 16 ^ digits" "k \<le> digits"
  shows "hex_value (map (\<lambda>i. nibble_char (unat (drop_bit (4 * (digits - 1) - i * 4) n AND 0xF))) [0..<k])
    = unat n div 16 ^ (digits - k)"
  using assms(2)
proof (induction k)
  case 0
  with assms(1) show ?case by (simp add: hex_value_def)
next
  case (Suc k)
  define x where "x = unat n div 16 ^ (digits - Suc k)"
  have shift: "4 * (digits - 1) - k * 4 = 4 * (digits - Suc k)"
    using Suc.prems by simp
  have "unat (drop_bit (4 * (digits - 1) - k * 4) n) = x"
    unfolding shift by (simp add: unat_drop_bit x_def power_mult)
  then have last: "unat (drop_bit (4 * (digits - 1) - k * 4) n AND 0xF) = x mod 16"
    by (simp add: unat_nibble)
  have "digits - k = Suc (digits - Suc k)"
    using Suc.prems by simp
  then have "unat n div 16 ^ (digits - k) = x div 16"
    by (simp add: x_def mult.commute flip: div_mult2_eq)
  then have IH: "hex_value (map (\<lambda>i. nibble_char (unat (drop_bit (4 * (digits - 1) - i * 4) n AND 0xF))) [0..<k]) = x div 16"
    using Suc by simp
  show ?case
    using IH by (simp add: hex_value_def last [unfolded One_nat_def] hex_digit_nibble) (simp add: x_def)
qed

lemma hex_buf_value:
  fixes n :: "'a::len word"
  assumes "unat n < 16 ^ digits"
  obtains s where "hex_buf digits n = ''0x'' @ s" "length s = digits" "hex_value s = unat n"
  using hex_prefix_value [OF assms le_refl] by (simp add: hex_buf_def)

lemma nibble_char_printable: "d < 16 \<Longrightarrow> nibble_char d \<noteq> newline_char"
proof -
  assume "d < 16"
  then have "(of_char (nibble_char d) :: nat) \<noteq> of_char newline_char"
    by (simp add: nibble_char_def)
  then show ?thesis by metis
qed

lemma crlf_hex_buf: "crlf (hex_buf digits n) = map byte_of (hex_buf digits n)"
proof -
  have "crlf s = map byte_of s" if "newline_char \<notin> set s" for s
    using that by (induction s) (auto simp: crlf_def)
  moreover have "newline_char \<notin> set (hex_buf digits n)"
  proof -
    have "newline_char \<noteq> nibble_char (m mod 16)" for m
      using nibble_char_printable [of "m mod 16"] by auto
    then show ?thesis
      by (auto simp: hex_buf_def unat_nibble)
  qed
  ultimately show ?thesis by blast
qed

text \<open>The printers of \<^verbatim>\<open>vga.h\<close> agree with those of the kernel.\<close>

lemma nibble_char_table: "d < 16 \<Longrightarrow> ''0123456789ABCDEF'' ! d = nibble_char d"
proof -
  have "list_all (\<lambda>d. ''0123456789ABCDEF'' ! d = nibble_char d) [0..<16]"
    by code_simp
  then show "d < 16 \<Longrightarrow> ?thesis"
    by (simp add: list_all_iff)
qed

lemma vga_write_hex_eq: "vga_write_hex n v = vga_writestring (hex_buf 16 n) v"
proof -
  have "map (\<lambda>i. ''0123456789ABCDEF'' ! unat (drop_bit (i * 4) n AND 0xF)) (rev [0..<16])
    = map (\<lambda>i. nibble_char (unat (drop_bit (60 - i * 4) n AND 0xF))) [0..<16]"
    by (rule nth_equalityI)
      (simp_all add: nibble_char_table unat_nibble rev_nth diff_mult_distrib del: map_map)
  then show ?thesis
    by (simp add: vga_write_hex_def hex_buf_def)
qed

lemma vga_dec_loop_eq: "unat n < 10 ^ i \<Longrightarrow> vga_dec_loop n acc = dec_loop i n acc"
proof (induction i arbitrary: n acc)
  case 0
  then show ?case
    by (subst vga_dec_loop.simps) (simp add: word_zero_less)
next
  case (Suc i)
  have "unat (n div 10) < 10 ^ i"
    using Suc.prems by (simp add: unat_div)
  with Suc.IH show ?case
    by (subst vga_dec_loop.simps) simp
qed

text \<open>C7: Each number printer sends, and nothing else, a numeral of its argument: decimal digits
  without leading zeros for \<open>print_dec\<close> (at most 10 of them) and \<open>print_dec_64\<close> (at most 20, so
  the buffers of 12 and 24 bytes are never too small), and \<open>0x\<close> with exactly 8 or 16 hex digits
  for \<open>print_hex\<close> and \<open>print_hex_64\<close>, whose value is the argument.\<close>

theorem number_printers:
  assumes "\<not> dlab (uart_of c)"
  shows "(\<exists>s. wire (uart_of (print_dec n c)) = wire (uart_of c) @ map byte_of s
      \<and> numeral_of (unat n) s \<and> length s \<le> 10)
    \<and> (\<exists>s. wire (uart_of (print_dec_64 m c)) = wire (uart_of c) @ map byte_of s
      \<and> numeral_of (unat m) s \<and> length s \<le> 20)
    \<and> (\<exists>s. wire (uart_of (print_hex n c)) = wire (uart_of c) @ map byte_of (''0x'' @ s)
      \<and> length s = 8 \<and> hex_value s = unat n)
    \<and> (\<exists>s. wire (uart_of (print_hex_64 m c)) = wire (uart_of c) @ map byte_of (''0x'' @ s)
      \<and> length s = 16 \<and> hex_value s = unat m)"
proof (intro conjI)
  have "unat n < 16 ^ 8" "unat m < 16 ^ 16"
    using unsigned_less [of n, where 'a = nat] unsigned_less [of m, where 'a = nat] by simp_all
  then obtain s t where "hex_buf 8 n = ''0x'' @ s" "length s = 8" "hex_value s = unat n"
    and "hex_buf 16 m = ''0x'' @ t" "length t = 16" "hex_value t = unat m"
    by (metis hex_buf_value)
  then show "\<exists>s. wire (uart_of (print_hex n c)) = wire (uart_of c) @ map byte_of (''0x'' @ s)
      \<and> length s = 8 \<and> hex_value s = unat n"
    and "\<exists>s. wire (uart_of (print_hex_64 m c)) = wire (uart_of c) @ map byte_of (''0x'' @ s)
      \<and> length s = 16 \<and> hex_value s = unat m"
    using assms by (metis print_hex_def print_hex_64_def puts_wire crlf_hex_buf)+
qed (use assms print_dec_wire print_dec_64_wire in blast)+

definition quiet_console :: console where
  "quiet_console = serial_init \<lparr>ports = [], port_value = \<lambda>n p. 0, uart_delay = \<lambda>n. 2,
     uart_left = 0, screen = \<lparr>vga_row = 0, vga_column = 0, vga_color = 7, vga_buffer = \<lambda>i. 0\<rparr>\<rparr>"

lemma quiet_console_ready: "\<not> dlab (uart_of quiet_console)"
  by (simp add: quiet_console_def serial_init_def Let_def uart_of_outb)

theorem number_printers_witness:
  "\<not> dlab (uart_of quiet_console)
   \<and> (\<exists>s. wire (uart_of (print_dec 4096 quiet_console)) = wire (uart_of quiet_console) @ map byte_of s
        \<and> numeral_of (unat (4096 :: u32)) s \<and> length s \<le> 10)"
  using quiet_console_ready number_printers [of quiet_console 4096 0] by blast

text \<open>The number 0 reaches the serial line but not the screen: \<open>print_dec\<close> and
  \<open>print_dec_64\<close> send it with \<open>putc\<close> alone, while every other number goes through \<open>puts\<close>,
  which also writes to the VGA screen.\<close>

theorem zero_not_on_screen:
  "screen (print_dec 0 c) = screen c \<and> screen (print_dec_64 0 c) = screen c
   \<and> screen (print_dec 10 c) = vga_writestring ''10'' (screen c)
   \<and> screen (puts ''0'' c) = vga_putchar CHR ''0'' (screen c)"
proof -
  have "dec_loop 11 (10 :: u32) [] = ''10''"
    by code_simp
  then show ?thesis
    by (simp add: print_dec_def print_dec_64_def frame puts_screen vga_writestring_fold)
qed

text \<open>The VGA-only number printers of \<^verbatim>\<open>vga.h\<close> show the same text as the kernel's:
  \<open>vga_write_hex\<close> the sixteen digits of \<open>print_hex_64\<close>, \<open>vga_write_dec\<close> the decimal numeral of
  \<open>print_dec_64\<close>, and its loop, which has no bound on the buffer index, never writes more than the
  20 characters that the buffer holds.\<close>

theorem vga_printers_agree:
  "screen (print_hex_64 n c) = vga_write_hex n (screen c)
   \<and> vga_dec_loop n [] = dec_loop 23 n []
   \<and> length (vga_dec_loop n []) \<le> 20"
proof -
  have n: "unat n < 10 ^ 20"
    using unsigned_less [of n, where 'a = nat] by simp
  have "length (dec_loop 23 n []) \<le> 20"
  proof (cases "n = 0")
    case False
    then show ?thesis
      using dec_loop_numeral [of n 20 23 "[]"] n by (auto simp: word_neq_0_conv)
  qed (simp add: numeral_eq_Suc)
  moreover have "vga_dec_loop n [] = dec_loop 23 n []"
    using n by (intro vga_dec_loop_eq) simp
  ultimately show ?thesis
    by (simp add: print_hex_64_def puts_screen vga_write_hex_eq)
qed

end
