(* ===== verification/Machine.thy ===== *)
theory Machine
  imports Memory Console
begin

text \<open>
  The state every part of the kernel shares: the console and the memory.  The static
  variables of each component extend this record in the order of the C file, so a function
  of an early component works on the state of all later ones (\<open>'a machine_scheme\<close>).
  The kernel runs with the first gigabyte mapped one to one, so except for the page tables of
  theory \<^verbatim>\<open>Vmm\<close> a pointer is the address of the byte it points to.

  A \<open>fault\<close> is what the code can do instead of returning: a loop that never ends, a division
  by zero, an access the processor refuses, an access outside an array, and the deliberate
  \<open>hlt\<close> loops.
\<close>

datatype fault = Hang | DivideError | PageFault | OutOfBounds | Halted

record machine =
  con :: console
  mem :: memory

definition kprint :: "msg list \<Rightarrow> 'a machine_scheme \<Rightarrow> 'a machine_scheme" where
  "kprint ms k = k\<lparr>con := say ms (con k)\<rparr>"

lemma con_kprint [simp]: "con (kprint ms k) = say ms (con k)"
  by (simp add: kprint_def)

lemma kprint_frame [simp]: "mem (kprint ms k) = mem k"
  by (simp add: kprint_def)

lemma kprint_more [simp]: "machine.more (kprint ms k) = machine.more k"
  by (simp add: kprint_def)

text \<open>Arguments of \<open>print_dec\<close> and \<open>print_hex\<close> of another integer type are converted.\<close>

abbreviation (input) D_of :: "'b::len word \<Rightarrow> msg" where "D_of n \<equiv> D (ucast n)"
abbreviation (input) H_of :: "'b::len word \<Rightarrow> msg" where "H_of n \<equiv> H (ucast n)"

text \<open>The symbols that the linker script and the assembler place: their addresses are parameters
  of the model.\<close>

record layout =
  kernel_start :: u64
  kernel_end :: u64
  trampoline_start :: u64
  trampoline_end :: u64
  ap_entry_sym :: u64
  ap_stacks_sym :: u64
  idt_sym :: u64
  exception_stub_sym :: "nat \<Rightarrow> u64"
  timer_irq_stub_sym :: u64
  pure_iretq_handler_sym :: u64

text \<open>A memory holding the bytes \<open>bs\<close> at \<open>base\<close>, for concrete examples.\<close>

definition bytes_at :: "u64 \<Rightarrow> u8 list \<Rightarrow> memory" where
  "bytes_at base bs a = (if unat (a - base) < length bs then bs ! unat (a - base) else 0)"

end
