(* ===== verification/Multiboot.thy ===== *)
theory Multiboot
  imports Machine
begin

text \<open>
  The Multiboot2 memory map of \<^verbatim>\<open>c/kernel/minimal_step9.c\<close> (\<open>parse_multiboot_mmap\<close> and the
  structures it reads).  The tags are read from memory at the offsets of the packed
  structures.  The tag loop has no bound in the source: \<open>find_mmap_tag\<close> is \<open>None\<close> when it never
  ends, and \<open>find_mmap_tag_None\<close> says exactly when that is.
\<close>

section \<open>The structures\<close>

abbreviation (input) MULTIBOOT_TAG_TYPE_END :: u32 where "MULTIBOOT_TAG_TYPE_END \<equiv> 0"
abbreviation (input) MULTIBOOT_TAG_TYPE_MMAP :: u32 where "MULTIBOOT_TAG_TYPE_MMAP \<equiv> 6"
abbreviation (input) MULTIBOOT_MEMORY_AVAILABLE :: u32 where "MULTIBOOT_MEMORY_AVAILABLE \<equiv> 1"
abbreviation (input) MULTIBOOT_MEMORY_RESERVED :: u32 where "MULTIBOOT_MEMORY_RESERVED \<equiv> 2"
abbreviation (input) MULTIBOOT_MEMORY_ACPI_RECLAIMABLE :: u32 where "MULTIBOOT_MEMORY_ACPI_RECLAIMABLE \<equiv> 3"
abbreviation (input) MULTIBOOT_MEMORY_NVS :: u32 where "MULTIBOOT_MEMORY_NVS \<equiv> 4"
abbreviation (input) MULTIBOOT_MEMORY_BADRAM :: u32 where "MULTIBOOT_MEMORY_BADRAM \<equiv> 5"

definition tag_type :: "memory \<Rightarrow> u64 \<Rightarrow> u32" where
  "tag_type m tag = load32 m tag"

definition tag_size :: "memory \<Rightarrow> u64 \<Rightarrow> u32" where
  "tag_size m tag = load32 m (tag + 4)"

definition mmap_entry_size :: "memory \<Rightarrow> u64 \<Rightarrow> u32" where
  "mmap_entry_size m tag = load32 m (tag + 8)"

record multiboot_mmap_entry =
  entry_addr :: u64
  entry_len :: u64
  entry_type :: u32

definition read_mmap_entry :: "memory \<Rightarrow> u64 \<Rightarrow> multiboot_mmap_entry" where
  "read_mmap_entry m e =
     \<lparr>entry_addr = load64 m e, entry_len = load64 m (e + 8), entry_type = load32 m (e + 16)\<rparr>"

text \<open>\<open>tag = (uint8_t*)tag + ((tag->size + 7) & ~7)\<close>, computed in 32 bits.\<close>

definition next_tag :: "memory \<Rightarrow> u64 \<Rightarrow> u64" where
  "next_tag m tag = tag + ucast ((tag_size m tag + 7) AND NOT 7)"

text \<open>\<open>(mmap_tag->size - sizeof(struct multiboot_tag_mmap)) / mmap_tag->entry_size\<close>: the
  subtraction is in 64 bits, the quotient is cut to 32.\<close>

definition num_mmap_entries :: "memory \<Rightarrow> u64 \<Rightarrow> u32" where
  "num_mmap_entries m tag =
     ucast ((ucast (tag_size m tag) - 16 :: u64) div ucast (mmap_entry_size m tag))"

definition mmap_entry_at :: "memory \<Rightarrow> u64 \<Rightarrow> u32 \<Rightarrow> u64" where
  "mmap_entry_at m tag i = tag + 16 + ucast (i * mmap_entry_size m tag)"

section \<open>\<open>parse_multiboot_mmap\<close>\<close>

record mmap_info = machine +
  total_memory :: u64
  usable_memory :: u64

partial_function (option) find_mmap_tag :: "memory \<Rightarrow> u64 \<Rightarrow> u64 option option" where
  "find_mmap_tag m tag =
     (if tag_type m tag \<noteq> MULTIBOOT_TAG_TYPE_END then
        if tag_type m tag = MULTIBOOT_TAG_TYPE_MMAP then Some (Some tag)
        else find_mmap_tag m (next_tag m tag)
      else Some None)"

definition mmap_entry_step :: "multiboot_mmap_entry \<Rightarrow> 'a mmap_info_scheme \<Rightarrow> 'a mmap_info_scheme" where
  "mmap_entry_step entry k =
     (let k = kprint [S ''[MMAP]   '', X (entry_addr entry), S '' - '',
                X (entry_addr entry + entry_len entry - 1), S '' ('',
                Q (entry_len entry div 1024 div 1024), S '' MB) - ''] k in
      if entry_type entry = MULTIBOOT_MEMORY_AVAILABLE then
        let k = kprint [Ln ''Available''] k;
            k = k\<lparr>usable_memory := usable_memory k + entry_len entry\<rparr> in
        if entry_addr entry < 0x100000000 then
          let end_addr = entry_addr entry + entry_len entry in
          if total_memory k < end_addr then k\<lparr>total_memory := end_addr\<rparr> else k
        else k
      else if entry_type entry = MULTIBOOT_MEMORY_RESERVED then kprint [Ln ''Reserved''] k
      else if entry_type entry = MULTIBOOT_MEMORY_ACPI_RECLAIMABLE then kprint [Ln ''ACPI Reclaimable''] k
      else if entry_type entry = MULTIBOOT_MEMORY_NVS then kprint [Ln ''ACPI NVS''] k
      else if entry_type entry = MULTIBOOT_MEMORY_BADRAM then kprint [Ln ''Bad RAM''] k
      else kprint [S ''Unknown ('', D (entry_type entry), Ln '')''] k)"

definition parse_multiboot_mmap :: "u64 \<Rightarrow> 'a mmap_info_scheme \<Rightarrow> fault + 'a mmap_info_scheme" where
  "parse_multiboot_mmap multiboot_info_addr k =
     (let k = kprint [S [newline_char], Ln ''[MMAP] Parsing Multiboot2 memory map...''] k in
      case find_mmap_tag (mem k) (multiboot_info_addr + 8) of
        None \<Rightarrow> Inl Hang
      | Some None \<Rightarrow> Inr (kprint [Ln ''[ERROR] Memory map not found in Multiboot2 info!''] k)
      | Some (Some tag) \<Rightarrow>
          let k = kprint [Ln ''[MMAP] Memory map found!'', S ''[MMAP] Entry size: '',
                    D (mmap_entry_size (mem k) tag), Ln '' bytes''] k in
          if mmap_entry_size (mem k) tag = 0 then Inl DivideError
          else
            let num_entries = num_mmap_entries (mem k) tag;
                k = for_up 0 num_entries (\<lambda>i k.
                      mmap_entry_step (read_mmap_entry (mem k) (mmap_entry_at (mem k) tag i)) k) k;
                k = kprint [S ''[MMAP] Total memory: '', Q (total_memory k div 1024 div 1024), Ln '' MB''] k;
                k = kprint [S ''[MMAP] Usable memory: '', Q (usable_memory k div 1024 div 1024), Ln '' MB''] k
            in Inr k)"

section \<open>The tag loop\<close>

definition tag_ends :: "memory \<Rightarrow> u64 \<Rightarrow> bool" where
  "tag_ends m tag \<longleftrightarrow> tag_type m tag = MULTIBOOT_TAG_TYPE_END \<or> tag_type m tag = MULTIBOOT_TAG_TYPE_MMAP"

lemma find_mmap_tag_stop:
  "tag_ends m tag \<Longrightarrow>
    find_mmap_tag m tag = Some (if tag_type m tag = MULTIBOOT_TAG_TYPE_MMAP then Some tag else None)"
  by (subst find_mmap_tag.simps) (auto simp: tag_ends_def)

lemma find_mmap_tag_next: "\<not> tag_ends m tag \<Longrightarrow> find_mmap_tag m tag = find_mmap_tag m (next_tag m tag)"
  by (subst find_mmap_tag.simps) (simp add: tag_ends_def)

lemma find_mmap_tag_reach:
  "tag_ends m ((next_tag m ^^ n) tag) \<Longrightarrow>
    \<exists>j\<le>n. tag_ends m ((next_tag m ^^ j) tag) \<and> (\<forall>i<j. \<not> tag_ends m ((next_tag m ^^ i) tag))
      \<and> find_mmap_tag m tag = find_mmap_tag m ((next_tag m ^^ j) tag)"
proof (induction n arbitrary: tag)
  case (Suc n)
  show ?case
  proof (cases "tag_ends m tag")
    case True
    then show ?thesis by (intro exI [of _ 0]) simp
  next
    case False
    have "tag_ends m ((next_tag m ^^ n) (next_tag m tag))"
      using Suc.prems by (simp add: funpow_swap1)
    from Suc.IH [OF this] obtain j where j: "j \<le> n" "tag_ends m ((next_tag m ^^ j) (next_tag m tag))"
      "\<forall>i<j. \<not> tag_ends m ((next_tag m ^^ i) (next_tag m tag))"
      "find_mmap_tag m (next_tag m tag) = find_mmap_tag m ((next_tag m ^^ j) (next_tag m tag))"
      by blast
    have "\<forall>i<Suc j. \<not> tag_ends m ((next_tag m ^^ i) tag)"
      using j(3) False by (auto simp: less_Suc_eq_0_disj funpow_swap1)
    with j show ?thesis
      by (intro exI [of _ "Suc j"]) (simp add: funpow_swap1 find_mmap_tag_next [OF False])
  qed
qed (intro exI [of _ 0], simp)

lemma find_mmap_tag_returns:
  assumes "find_mmap_tag m tag = Some r"
  shows "\<exists>n. tag_ends m ((next_tag m ^^ n) tag)"
proof (rule find_mmap_tag.raw_induct [where P = "\<lambda>m tag r. \<exists>n. tag_ends m ((next_tag m ^^ n) tag)", OF _ assms])
  fix f m tag r
  assume IH: "\<And>m tag r. f m tag = Some r \<Longrightarrow> \<exists>n. tag_ends m ((next_tag m ^^ n) tag)"
    and eq: "(if tag_type m tag \<noteq> 0 then if tag_type m tag = 6 then Some (Some tag)
      else f m (next_tag m tag) else Some None) = Some r"
  show "\<exists>n. tag_ends m ((next_tag m ^^ n) tag)"
  proof (cases "tag_ends m tag")
    case True
    then show ?thesis by (intro exI [of _ 0]) simp
  next
    case False
    with eq have "f m (next_tag m tag) = Some r"
      by (simp add: tag_ends_def)
    from IH [OF this] obtain n where "tag_ends m ((next_tag m ^^ n) (next_tag m tag))" ..
    then show ?thesis
      by (intro exI [of _ "Suc n"]) (simp add: funpow_swap1)
  qed
qed

lemma find_mmap_tag_None:
  "find_mmap_tag m tag = None \<longleftrightarrow> (\<forall>n. \<not> tag_ends m ((next_tag m ^^ n) tag))"
proof
  assume none: "find_mmap_tag m tag = None"
  show "\<forall>n. \<not> tag_ends m ((next_tag m ^^ n) tag)"
  proof (intro allI notI)
    fix n assume "tag_ends m ((next_tag m ^^ n) tag)"
    from find_mmap_tag_reach [OF this] show False
      using none find_mmap_tag_stop by fastforce
  qed
next
  assume "\<forall>n. \<not> tag_ends m ((next_tag m ^^ n) tag)"
  then show "find_mmap_tag m tag = None"
    using find_mmap_tag_returns by (metis not_None_eq)
qed

text \<open>The tags walked before the loop stops: \<open>stops_at m tag n\<close> says that the \<open>n\<close>-th tag is the
  first END or memory map tag.\<close>

definition stops_at :: "memory \<Rightarrow> u64 \<Rightarrow> nat \<Rightarrow> bool" where
  "stops_at m tag n \<longleftrightarrow> tag_ends m ((next_tag m ^^ n) tag)
     \<and> list_all (\<lambda>i. \<not> tag_ends m ((next_tag m ^^ i) tag)) [0..<n]"

lemma stops_at_iff:
  "stops_at m tag n \<longleftrightarrow> tag_ends m ((next_tag m ^^ n) tag) \<and> (\<forall>i<n. \<not> tag_ends m ((next_tag m ^^ i) tag))"
  by (auto simp: stops_at_def list_all_iff)

lemma stops_at_unique:
  assumes "stops_at m tag n" "stops_at m tag j"
  shows "n = j"
proof (cases n j rule: linorder_cases)
  case less
  then show ?thesis using assms by (simp add: stops_at_iff)
next
  case greater
  then show ?thesis using assms by (simp add: stops_at_iff)
qed

lemma find_mmap_tag_stops:
  assumes "stops_at m tag n"
  shows "find_mmap_tag m tag = Some (if tag_type m ((next_tag m ^^ n) tag) = MULTIBOOT_TAG_TYPE_MMAP
    then Some ((next_tag m ^^ n) tag) else None)"
proof -
  have "tag_ends m ((next_tag m ^^ n) tag)"
    using assms by (simp add: stops_at_def)
  from find_mmap_tag_reach [OF this] obtain j where j: "tag_ends m ((next_tag m ^^ j) tag)"
    "\<forall>i<j. \<not> tag_ends m ((next_tag m ^^ i) tag)"
    "find_mmap_tag m tag = find_mmap_tag m ((next_tag m ^^ j) tag)"
    by blast
  then have "stops_at m tag j"
    by (simp add: stops_at_iff)
  then show ?thesis
    using stops_at_unique [OF assms] j by (simp add: find_mmap_tag_stop)
qed

lemma find_mmap_tag_Some_stops:
  assumes "find_mmap_tag m tag = Some r"
  shows "\<exists>n. stops_at m tag n"
proof -
  obtain n where "tag_ends m ((next_tag m ^^ n) tag)"
    using find_mmap_tag_returns [OF assms] ..
  from find_mmap_tag_reach [OF this] show ?thesis
    by (auto simp: stops_at_iff)
qed

text \<open>C13: The loop over the Multiboot2 tags has no bound: it never returns exactly when following the
  tag sizes never reaches an END or a memory map tag; it returns a tag exactly when the first such
  tag is a memory map, and "not found" exactly when the first such tag is the END tag.  A tag of
  size 0 before these makes it loop for ever.\<close>

theorem tag_loop_result:
  "(find_mmap_tag m tag = None) = (\<forall>n. \<not> tag_ends m ((next_tag m ^^ n) tag))
   \<and> (find_mmap_tag m tag = Some (Some t))
      = (\<exists>n. stops_at m tag n \<and> t = (next_tag m ^^ n) tag \<and> tag_type m t = MULTIBOOT_TAG_TYPE_MMAP)
   \<and> (find_mmap_tag m tag = Some None)
      = (\<exists>n. stops_at m tag n \<and> tag_type m ((next_tag m ^^ n) tag) = MULTIBOOT_TAG_TYPE_END)
   \<and> (if tag_size m tag = 0 \<and> \<not> tag_ends m tag then find_mmap_tag m tag = None else True)"
proof (intro conjI)
  have ends: "stops_at m tag n \<Longrightarrow> tag_ends m ((next_tag m ^^ n) tag)" for n
    by (simp add: stops_at_def)
  have stops: "(find_mmap_tag m tag = Some r) =
      (\<exists>n. stops_at m tag n \<and> r = (if tag_type m ((next_tag m ^^ n) tag) = MULTIBOOT_TAG_TYPE_MMAP
        then Some ((next_tag m ^^ n) tag) else None))" for r
  proof
    assume r: "find_mmap_tag m tag = Some r"
    then obtain n where "stops_at m tag n"
      using find_mmap_tag_Some_stops by blast
    with r find_mmap_tag_stops [OF this] show "\<exists>n. stops_at m tag n \<and> r = (if tag_type m ((next_tag m ^^ n) tag)
        = MULTIBOOT_TAG_TYPE_MMAP then Some ((next_tag m ^^ n) tag) else None)"
      by (intro exI [of _ n]) simp
  qed (use find_mmap_tag_stops in blast)
  show "(find_mmap_tag m tag = Some (Some t))
      = (\<exists>n. stops_at m tag n \<and> t = (next_tag m ^^ n) tag \<and> tag_type m t = MULTIBOOT_TAG_TYPE_MMAP)"
    unfolding stops by auto
  show "(find_mmap_tag m tag = Some None)
      = (\<exists>n. stops_at m tag n \<and> tag_type m ((next_tag m ^^ n) tag) = MULTIBOOT_TAG_TYPE_END)"
  proof -
    have "(stops_at m tag n \<and> None = (if tag_type m ((next_tag m ^^ n) tag) = MULTIBOOT_TAG_TYPE_MMAP
        then Some ((next_tag m ^^ n) tag) else None))
      = (stops_at m tag n \<and> tag_type m ((next_tag m ^^ n) tag) = MULTIBOOT_TAG_TYPE_END)" for n
      using ends [of n] unfolding tag_ends_def by (cases "stops_at m tag n") auto
    then show ?thesis
      unfolding stops by (rule arg_cong [OF ext])
  qed
  have "find_mmap_tag m tag = None" if "tag_size m tag = 0" "\<not> tag_ends m tag"
  proof -
    have next_same: "next_tag m tag = tag"
      using that(1) by (simp add: next_tag_def)
    have "(next_tag m ^^ n) tag = tag" for n
      by (induction n) (simp_all add: next_same)
    then show ?thesis
      using that(2) by (simp add: find_mmap_tag_None)
  qed
  then show "if tag_size m tag = 0 \<and> \<not> tag_ends m tag then find_mmap_tag m tag = None else True"
    by simp
qed (rule find_mmap_tag_None)

section \<open>What the memory map contributes\<close>

definition mmap_entries :: "memory \<Rightarrow> u64 \<Rightarrow> multiboot_mmap_entry list" where
  "mmap_entries m tag =
     map (\<lambda>i. read_mmap_entry m (mmap_entry_at m tag (of_nat i))) [0..<unat (num_mmap_entries m tag)]"

definition available :: "multiboot_mmap_entry list \<Rightarrow> multiboot_mmap_entry list" where
  "available es = filter (\<lambda>e. entry_type e = MULTIBOOT_MEMORY_AVAILABLE) es"

definition low_ends :: "multiboot_mmap_entry list \<Rightarrow> u64 list" where
  "low_ends es = map (\<lambda>e. entry_addr e + entry_len e)
     (filter (\<lambda>e. entry_addr e < 0x100000000) (available es))"

lemma kprint_mmap [simp]:
  "total_memory (kprint ms k) = total_memory k" "usable_memory (kprint ms k) = usable_memory k"
  by (simp_all add: kprint_def)

lemma mmap_entry_step_sel:
  "mem (mmap_entry_step e k) = mem k"
  "usable_memory (mmap_entry_step e k) =
    (if entry_type e = MULTIBOOT_MEMORY_AVAILABLE then usable_memory k + entry_len e else usable_memory k)"
  "total_memory (mmap_entry_step e k) =
    (if entry_type e = MULTIBOOT_MEMORY_AVAILABLE \<and> entry_addr e < 0x100000000
     then max (total_memory k) (entry_addr e + entry_len e) else total_memory k)"
  "mmap_info.more (mmap_entry_step e k) = mmap_info.more k"
  by (auto simp: mmap_entry_step_def Let_def max_def kprint_def not_le not_less)

lemma entry_loop_fold:
  assumes "mem k = m"
  shows "for_up 0 n (\<lambda>i k. mmap_entry_step (read_mmap_entry (mem k) (mmap_entry_at (mem k) tag i)) k) k
    = fold mmap_entry_step (map (\<lambda>i. read_mmap_entry m (mmap_entry_at m tag (of_nat i))) [0..<unat n]) k"
proof -
  have "fold (\<lambda>i k. mmap_entry_step (read_mmap_entry (mem k) (mmap_entry_at (mem k) tag (of_nat i))) k) is k
    = fold mmap_entry_step (map (\<lambda>i. read_mmap_entry m (mmap_entry_at m tag (of_nat i))) is) k" for "is"
    using assms by (induction "is" arbitrary: k) (simp_all add: mmap_entry_step_sel)
  then show ?thesis by (simp add: for_up_fold)
qed

lemma entry_fold_sel:
  "mem (fold mmap_entry_step es k) = mem k"
  "usable_memory (fold mmap_entry_step es k) = usable_memory k + sum_list (map entry_len (available es))"
  "total_memory (fold mmap_entry_step es k) = fold max (low_ends es) (total_memory k)"
  "mmap_info.more (fold mmap_entry_step es k) = mmap_info.more k"
  by (induction es arbitrary: k)
    (simp_all add: mmap_entry_step_sel available_def low_ends_def max.commute)

lemma parse_mmap_effect:
  assumes "find_mmap_tag (mem k) (info + 8) = Some (Some tag)"
    and "mmap_entry_size (mem k) tag \<noteq> 0"
  shows "\<exists>k'. parse_multiboot_mmap info k = Inr k'
    \<and> mem k' = mem k \<and> mmap_info.more k' = mmap_info.more k
    \<and> usable_memory k' = usable_memory k + sum_list (map entry_len (available (mmap_entries (mem k) tag)))
    \<and> total_memory k' = fold max (low_ends (mmap_entries (mem k) tag)) (total_memory k)"
proof -
  have more: "mmap_info.more (kprint ms k) = mmap_info.more k" for ms and k :: "'a mmap_info_scheme"
    by (simp add: kprint_def)
  show ?thesis
    using assms
    by (simp add: parse_multiboot_mmap_def Let_def entry_loop_fold [OF refl] entry_fold_sel more
        mmap_entries_def [symmetric])
qed

text \<open>When the memory map tag is found and its entry size is not 0, parsing returns a state in
  which the usable memory has grown by the lengths of all AVAILABLE entries and the total memory is
  the highest end of an AVAILABLE entry that starts below 4 GB (or the old value if that is higher);
  memory and all later components are unchanged.\<close>

theorem parse_mmap_totals:
  assumes "find_mmap_tag (mem k) (info + 8) = Some (Some tag)"
    and "mmap_entry_size (mem k) tag \<noteq> 0"
  shows "\<exists>k'. parse_multiboot_mmap info k = Inr k'
    \<and> mem k' = mem k \<and> mmap_info.more k' = mmap_info.more k
    \<and> usable_memory k' = usable_memory k + sum_list (map entry_len (available (mmap_entries (mem k) tag)))
    \<and> total_memory k' = fold max (low_ends (mmap_entries (mem k) tag)) (total_memory k)"
  using parse_mmap_effect [OF assms] .

definition small_map :: memory where
  "small_map = bytes_at 0x9000
     ([64, 0, 0, 0, 0, 0, 0, 0] @ [1, 0, 0, 0, 9, 0, 0, 0, 65, 0, 0, 0, 0, 0, 0, 0]
      @ [6, 0, 0, 0, 40, 0, 0, 0, 24, 0, 0, 0, 0, 0, 0, 0]
      @ [0, 0, 16, 0, 0, 0, 0, 0, 0, 0, 0, 1, 0, 0, 0, 0, 1, 0, 0, 0, 0, 0, 0, 0])"

definition small_boot :: mmap_info where
  "small_boot = \<lparr>con = quiet_console, mem = small_map, total_memory = 0, usable_memory = 0\<rparr>"

lemma small_map_tags:
  "tag_type small_map 0x9008 = 1" "next_tag small_map 0x9008 = 0x9018"
  "tag_type small_map 0x9018 = 6" "mmap_entry_size small_map 0x9018 = 24"
  "mmap_entries small_map 0x9018 = [\<lparr>entry_addr = 0x100000, entry_len = 0x1000000, entry_type = 1\<rparr>]"
  by (code_simp, code_simp, code_simp, code_simp, code_simp)

theorem parse_mmap_totals_witness:
  "\<exists>k'. parse_multiboot_mmap 0x9000 small_boot = Inr k'
    \<and> usable_memory k' = 0x1000000 \<and> total_memory k' = 0x1100000"
proof -
  have "find_mmap_tag (mem small_boot) (0x9000 + 8) = Some (Some 0x9018)"
    by (simp add: small_boot_def find_mmap_tag.simps small_map_tags)
  moreover have "mmap_entry_size (mem small_boot) 0x9018 \<noteq> 0"
    by (simp add: small_boot_def small_map_tags)
  ultimately show ?thesis
    using parse_mmap_totals [where k = small_boot and info = "0x9000" and tag = "0x9018"]
    by (auto simp: small_boot_def small_map_tags available_def low_ends_def)
qed

end
