(* ===== verification/Pmm.thy ===== *)
theory Pmm
  imports Multiboot
begin

text \<open>
  The physical memory manager of \<^verbatim>\<open>c/kernel/minimal_step9.c\<close>: a bitmap with one bit per 4 KB
  page, kept in memory at \<open>pmm_bitmap\<close>, and the counters \<open>total_pages\<close> and \<open>used_pages\<close>.
  The specification is the set of used pages (\<open>used_set\<close>); the invariant \<open>pmm_ok\<close> says that
  \<open>used_pages\<close> is its size.  The locale \<open>page_allocator\<close> is the contract that the users of
  \<open>pmm_alloc_page\<close> rely on.
\<close>

abbreviation (input) PAGE_SIZE :: u64 where "PAGE_SIZE \<equiv> 4096"

definition PAGE_ALIGN :: "u64 \<Rightarrow> u64" where
  "PAGE_ALIGN addr = (addr + PAGE_SIZE - 1) AND NOT (PAGE_SIZE - 1)"

record pmm = mmap_info +
  pmm_bitmap :: u64
  total_pages :: u64
  used_pages :: u64
  bitmap_size :: u64

section \<open>Operations\<close>

definition pmm_mark_page :: "u64 \<Rightarrow> 'a pmm_scheme \<Rightarrow> 'a pmm_scheme" where
  "pmm_mark_page page_idx k =
     (let byte_idx = page_idx div 8; bit_idx = unat (page_idx mod 8); a = pmm_bitmap k + byte_idx
      in k\<lparr>mem := (mem k)(a := mem k a OR push_bit bit_idx 1)\<rparr>)"

definition pmm_clear_page :: "u64 \<Rightarrow> 'a pmm_scheme \<Rightarrow> 'a pmm_scheme" where
  "pmm_clear_page page_idx k =
     (let byte_idx = page_idx div 8; bit_idx = unat (page_idx mod 8); a = pmm_bitmap k + byte_idx
      in k\<lparr>mem := (mem k)(a := mem k a AND NOT (push_bit bit_idx 1))\<rparr>)"

definition pmm_is_page_used :: "u64 \<Rightarrow> 'a pmm_scheme \<Rightarrow> bool" where
  "pmm_is_page_used page_idx k =
     (let byte_idx = page_idx div 8; bit_idx = unat (page_idx mod 8)
      in mem k (pmm_bitmap k + byte_idx) AND push_bit bit_idx 1 \<noteq> 0)"

definition pmm_init :: "layout \<Rightarrow> u64 \<Rightarrow> 'a pmm_scheme \<Rightarrow> 'a pmm_scheme" where
  "pmm_init ld multiboot_info_addr k =
     (let k = kprint [S [newline_char], Ln ''[PMM] Initializing Physical Memory Manager...''] k;
          k = (if 64 * 1024 * 1024 < total_memory k then k\<lparr>total_memory := 64 * 1024 * 1024\<rparr> else k);
          k = k\<lparr>total_pages := total_memory k div PAGE_SIZE\<rparr>;
          k = k\<lparr>bitmap_size := (total_pages k + 7) div 8\<rparr>;
          mb_end = multiboot_info_addr + ucast (load32 (mem k) multiboot_info_addr);
          kernel_end_addr = kernel_end ld;
          safe_addr = (if kernel_end_addr < mb_end then mb_end else kernel_end_addr);
          bitmap_addr = PAGE_ALIGN safe_addr;
          k = k\<lparr>pmm_bitmap := bitmap_addr\<rparr>;
          k = kprint [S ''[PMM] Bitmap location: '', X bitmap_addr, Ln '''',
                S ''[PMM] Bitmap size: '', Q (bitmap_size k div 1024), S '' KB ('',
                Q (total_pages k), Ln '' pages)''] k;
          k = k\<lparr>mem := memset (pmm_bitmap k) 0xFF (unat (bitmap_size k)) (mem k)\<rparr>;
          k = k\<lparr>used_pages := total_pages k\<rparr>
      in kprint [Ln ''[PMM] Physical Memory Manager initialized!''] k)"

definition free_page_step :: "u64 \<Rightarrow> 'a pmm_scheme \<Rightarrow> 'a pmm_scheme" where
  "free_page_step page k =
     (if page < total_pages k \<and> pmm_is_page_used page k then
        let k = pmm_clear_page page k in k\<lparr>used_pages := used_pages k - 1\<rparr>
      else k)"

definition free_byte_step :: "u64 \<Rightarrow> 'a pmm_scheme \<Rightarrow> 'a pmm_scheme" where
  "free_byte_step byte k =
     (let old = mem k (pmm_bitmap k + byte);
          k = k\<lparr>mem := (mem k)(pmm_bitmap k + byte := 0)\<rparr>
      in fold (\<lambda>i k. if old AND push_bit i 1 \<noteq> 0 then k\<lparr>used_pages := used_pages k - 1\<rparr> else k) [0..<8] k)"

definition pmm_mark_region_free :: "u64 \<Rightarrow> u64 \<Rightarrow> 'a pmm_scheme \<Rightarrow> 'a pmm_scheme" where
  "pmm_mark_region_free base len k =
     (let start_page = base div PAGE_SIZE;
          end_page = (base + len) div PAGE_SIZE;
          start_byte = start_page div 8;
          end_byte = end_page div 8;
          k1 = (if start_page mod 8 \<noteq> 0
                then for_up start_page (min ((start_byte + 1) * 8) end_page) free_page_step k else k);
          start_byte = (if start_page mod 8 \<noteq> 0 then start_byte + 1 else start_byte);
          k2 = for_up start_byte (min end_byte (bitmap_size k1)) free_byte_step k1
      in if end_page mod 8 \<noteq> 0 then for_up (end_byte * 8) end_page free_page_step k2 else k2)"

definition use_page_step :: "u64 \<Rightarrow> 'a pmm_scheme \<Rightarrow> 'a pmm_scheme" where
  "use_page_step page k =
     (if page < total_pages k \<and> \<not> pmm_is_page_used page k then
        let k = pmm_mark_page page k in k\<lparr>used_pages := used_pages k + 1\<rparr>
      else k)"

definition pmm_mark_region_used :: "u64 \<Rightarrow> u64 \<Rightarrow> 'a pmm_scheme \<Rightarrow> 'a pmm_scheme" where
  "pmm_mark_region_used base len k =
     (let start_page = base div PAGE_SIZE;
          end_page = (base + len + PAGE_SIZE - 1) div PAGE_SIZE
      in for_up start_page end_page use_page_step k)"

definition free_entry_step :: "multiboot_mmap_entry \<Rightarrow> 'a pmm_scheme \<Rightarrow> 'a pmm_scheme" where
  "free_entry_step entry k =
     (if entry_type entry = MULTIBOOT_MEMORY_AVAILABLE then
        let region_start = entry_addr entry; region_len = entry_len entry in
        if total_memory k \<le> region_start then k
        else
          let region_len = (if total_memory k < region_start + region_len
                            then total_memory k - region_start else region_len)
          in pmm_mark_region_free region_start region_len k
      else k)"

text \<open>\<open>left\<close> is \<open>100 - tag_count\<close>.\<close>

fun free_tags :: "nat \<Rightarrow> u64 \<Rightarrow> 'a pmm_scheme \<Rightarrow> fault + 'a pmm_scheme" where
  "free_tags 0 tag k = Inr k"
| "free_tags (Suc left) tag k =
     (if tag_type (mem k) tag \<noteq> MULTIBOOT_TAG_TYPE_END then
        if tag_type (mem k) tag = MULTIBOOT_TAG_TYPE_MMAP then
          if mmap_entry_size (mem k) tag = 0 then Inl DivideError
          else Inr (for_up 0 (num_mmap_entries (mem k) tag) (\<lambda>i k.
                 free_entry_step (read_mmap_entry (mem k) (mmap_entry_at (mem k) tag i)) k) k)
        else free_tags left (next_tag (mem k) tag) k
      else Inr k)"

definition pmm_mark_free_regions :: "layout \<Rightarrow> u64 \<Rightarrow> 'a pmm_scheme \<Rightarrow> fault + 'a pmm_scheme" where
  "pmm_mark_free_regions ld multiboot_info_addr k =
     (let k = kprint [Ln ''[PMM] Marking free regions...''] k in
      case free_tags 100 (multiboot_info_addr + 8) k of
        Inl f \<Rightarrow> Inl f
      | Inr k \<Rightarrow>
          let kernel_start_addr = kernel_start ld;
              bitmap_end = pmm_bitmap k + bitmap_size k;
              kernel_size = bitmap_end - kernel_start_addr;
              k = kprint [S ''[PMM] Marking kernel + bitmap as used: '', X kernel_start_addr, S '' - '',
                    X bitmap_end, Ln ''''] k;
              k = pmm_mark_region_used kernel_start_addr kernel_size k;
              k = kprint [S ''[PMM] Free pages: '', Q (total_pages k - used_pages k), S '' / '',
                    Q (total_pages k), S '' ('', Q ((total_pages k - used_pages k) * 4), Ln '' KB free)''] k
          in Inr k)"

definition pmm_alloc_page :: "'a pmm_scheme \<Rightarrow> u64 \<times> 'a pmm_scheme" where
  "pmm_alloc_page k =
     (case find_up 0 (total_pages k) (\<lambda>i. \<not> pmm_is_page_used i k) of
        Some i \<Rightarrow> (let k = pmm_mark_page i k in (i * PAGE_SIZE, k\<lparr>used_pages := used_pages k + 1\<rparr>))
      | None \<Rightarrow> (0, k))"

definition pmm_free_page :: "u64 \<Rightarrow> 'a pmm_scheme \<Rightarrow> 'a pmm_scheme" where
  "pmm_free_page phys_addr k =
     (let page_idx = phys_addr div PAGE_SIZE in
      if page_idx < total_pages k \<and> pmm_is_page_used page_idx k then
        let k = pmm_clear_page page_idx k in k\<lparr>used_pages := used_pages k - 1\<rparr>
      else k)"

section \<open>The set of used pages\<close>

definition used_set :: "'a pmm_scheme \<Rightarrow> u64 set" where
  "used_set k = {p. p < total_pages k \<and> pmm_is_page_used p k}"

definition pmm_ok :: "'a pmm_scheme \<Rightarrow> bool" where
  "pmm_ok k \<longleftrightarrow> total_pages k < 2 ^ 52 \<and> bitmap_size k = (total_pages k + 7) div 8
     \<and> unat (used_pages k) = card (used_set k)"

lemma page_index_split: "p div 8 = q div 8 \<Longrightarrow> p mod 8 = q mod 8 \<Longrightarrow> p = q" for p q :: u64
  by (metis word_mod_div_equality)

lemma page_index_iff: "p div 8 = q div 8 \<Longrightarrow> unat (p mod 8) = unat (q mod 8) \<longleftrightarrow> p = q" for p q :: u64
  using page_index_split word_unat_eq_iff by blast

lemma is_used_bit: "pmm_is_page_used p k \<longleftrightarrow> bit (mem k (pmm_bitmap k + p div 8)) (unat (p mod 8))"
  by (simp add: pmm_is_page_used_def Let_def and_pow2_bit [OF word_mod_8_lt] del: not_not)

lemma is_used_mark [simp]: "pmm_is_page_used q (pmm_mark_page p k) \<longleftrightarrow> pmm_is_page_used q k \<or> q = p"
proof (cases "q div 8 = p div 8")
  case True
  then have "unat (q mod 8) = unat (p mod 8) \<longleftrightarrow> q = p"
    by (rule page_index_iff)
  with True show ?thesis
    by (simp add: is_used_bit pmm_mark_page_def Let_def bit_set_pow2 word_mod_8_lt)
next
  case False
  then show ?thesis
    by (auto simp: is_used_bit pmm_mark_page_def Let_def)
qed

lemma is_used_clear [simp]: "pmm_is_page_used q (pmm_clear_page p k) \<longleftrightarrow> pmm_is_page_used q k \<and> q \<noteq> p"
proof (cases "q div 8 = p div 8")
  case True
  then have "unat (q mod 8) = unat (p mod 8) \<longleftrightarrow> q = p"
    by (rule page_index_iff)
  with True show ?thesis
    by (simp add: is_used_bit pmm_clear_page_def Let_def bit_clear_pow2 word_mod_8_lt)
next
  case False
  then show ?thesis
    by (auto simp: is_used_bit pmm_clear_page_def Let_def)
qed

lemma mark_clear_sel [simp]:
  "total_pages (pmm_mark_page p k) = total_pages k" "total_pages (pmm_clear_page p k) = total_pages k"
  "used_pages (pmm_mark_page p k) = used_pages k" "used_pages (pmm_clear_page p k) = used_pages k"
  "bitmap_size (pmm_mark_page p k) = bitmap_size k" "bitmap_size (pmm_clear_page p k) = bitmap_size k"
  "pmm_bitmap (pmm_mark_page p k) = pmm_bitmap k" "pmm_bitmap (pmm_clear_page p k) = pmm_bitmap k"
  "total_memory (pmm_mark_page p k) = total_memory k" "total_memory (pmm_clear_page p k) = total_memory k"
  "pmm.more (pmm_mark_page p k) = pmm.more k" "pmm.more (pmm_clear_page p k) = pmm.more k"
  by (simp_all add: pmm_mark_page_def pmm_clear_page_def Let_def)

lemma is_used_update [simp]:
  "pmm_is_page_used p (k\<lparr>used_pages := n\<rparr>) = pmm_is_page_used p k"
  "pmm_is_page_used p (k\<lparr>total_memory := n\<rparr>) = pmm_is_page_used p k"
  "pmm_is_page_used p (kprint ms k) = pmm_is_page_used p k"
  by (simp_all add: pmm_is_page_used_def kprint_def)

text \<open>What every operation on the bitmap leaves alone.\<close>

definition pmm_same :: "'a pmm_scheme \<Rightarrow> 'a pmm_scheme \<Rightarrow> bool" where
  "pmm_same k t \<longleftrightarrow> con t = con k \<and> total_memory t = total_memory k \<and> usable_memory t = usable_memory k
     \<and> total_pages t = total_pages k \<and> bitmap_size t = bitmap_size k
     \<and> pmm_bitmap t = pmm_bitmap k \<and> pmm.more t = pmm.more k
     \<and> (\<forall>x. \<not> in_range (pmm_bitmap k) (unat (bitmap_size k)) x \<longrightarrow> mem t x = mem k x)"

lemma pmm_same_refl [simp]: "pmm_same k k"
  by (simp add: pmm_same_def)

lemma pmm_same_trans: "pmm_same k t \<Longrightarrow> pmm_same t u \<Longrightarrow> pmm_same k u"
  by (auto simp: pmm_same_def)

lemma byte_in_bitmap:
  assumes "pmm_ok k" "p < total_pages k"
  shows "in_range (pmm_bitmap k) (unat (bitmap_size k)) (pmm_bitmap k + p div 8)"
proof -
  have t: "unat (total_pages k) < 2 ^ 52"
    using assms(1) unat_mono [of "total_pages k" "2 ^ 52"] by (simp add: pmm_ok_def)
  have "unat (total_pages k + 7) = unat (total_pages k) + 7"
    using t by (subst unat_add_lt) simp_all
  then have "unat (bitmap_size k) = (unat (total_pages k) + 7) div 8"
    using assms(1) by (simp add: pmm_ok_def word_nat)
  moreover have "unat p < unat (total_pages k)"
    using assms(2) by (rule unat_mono)
  ultimately show ?thesis
    by (simp add: in_range_def word_nat)
qed

section \<open>Freeing and marking pages\<close>

lemma pmm_same_clear:
  "pmm_ok k \<Longrightarrow> p < total_pages k \<Longrightarrow> pmm_same k (pmm_clear_page p k\<lparr>used_pages := n\<rparr>)"
  using byte_in_bitmap [of k p] by (auto simp: pmm_same_def pmm_clear_page_def Let_def)

lemma pmm_same_mark:
  "pmm_ok k \<Longrightarrow> p < total_pages k \<Longrightarrow> pmm_same k (pmm_mark_page p k\<lparr>used_pages := n\<rparr>)"
  using byte_in_bitmap [of k p] by (auto simp: pmm_same_def pmm_mark_page_def Let_def)

lemma used_set_clear:
  "used_set (pmm_clear_page p k\<lparr>used_pages := n\<rparr>) = used_set k - {p}"
  by (auto simp: used_set_def)

lemma used_set_mark:
  "p < total_pages k \<Longrightarrow> used_set (pmm_mark_page p k\<lparr>used_pages := n\<rparr>) = insert p (used_set k)"
  by (auto simp: used_set_def)

lemma clear_used_ok:
  assumes "pmm_ok k" "p \<in> used_set k"
  shows "pmm_ok (pmm_clear_page p k\<lparr>used_pages := used_pages k - 1\<rparr>)"
proof -
  have "used_pages k \<noteq> 0"
    using assms by (auto simp: pmm_ok_def card_eq_0_iff)
  then have "unat (used_pages k - 1) = card (used_set k - {p})"
    using assms by (simp add: pmm_ok_def sub_one_unat)
  then show ?thesis
    using assms(1) by (simp add: pmm_ok_def used_set_clear)
qed

lemma card_used_set_less:
  assumes "p < total_pages k" "p \<notin> used_set k"
  shows "card (used_set k) < unat (total_pages k)"
proof -
  have "card (used_set k) < card {q. q < total_pages k}"
    using assms by (intro psubset_card_mono) (auto simp: used_set_def)
  also have "\<dots> = card (unat ` {q. q < total_pages k})"
    by (rule card_image [symmetric], rule inj_onI) (simp add: word_unat_eq_iff)
  also have "\<dots> \<le> card {..<unat (total_pages k)}"
    by (intro card_mono) (auto simp: word_less_nat_alt)
  finally show ?thesis by simp
qed

lemma mark_unused_ok:
  assumes "pmm_ok k" "p < total_pages k" "p \<notin> used_set k"
  shows "pmm_ok (pmm_mark_page p k\<lparr>used_pages := used_pages k + 1\<rparr>)"
proof -
  have "used_pages k < total_pages k"
    using card_used_set_less [OF assms(2,3)] assms(1) by (simp add: pmm_ok_def word_less_nat_alt)
  then have "unat (used_pages k + 1) = card (insert p (used_set k))"
    using assms by (simp add: pmm_ok_def unat_inc)
  then show ?thesis
    using assms by (simp add: pmm_ok_def used_set_mark)
qed

lemma free_page_step:
  assumes "pmm_ok k"
  shows "pmm_ok (free_page_step p k)" "used_set (free_page_step p k) = used_set k - {p}"
    "pmm_same k (free_page_step p k)"
  using assms clear_used_ok [of k p] used_set_clear [of _ p k] pmm_same_clear [of k p]
  by (auto simp: free_page_step_def Let_def used_set_def)

lemma use_page_step:
  assumes "pmm_ok k"
  shows "pmm_ok (use_page_step p k)"
    "used_set (use_page_step p k) = used_set k \<union> {q. q = p \<and> p < total_pages k}"
    "pmm_same k (use_page_step p k)"
  using assms mark_unused_ok [of k p] used_set_mark [of p k] pmm_same_mark [of k p]
  by (auto simp: use_page_step_def Let_def used_set_def)

text \<open>Eight pages at once: the number of set bits of the old byte is the number of pages freed.\<close>

lemma decrement_fold:
  "fold (\<lambda>i k. if P i then k\<lparr>used_pages := used_pages k - 1\<rparr> else k) xs k
    = k\<lparr>used_pages := used_pages k - of_nat (length (filter P xs))\<rparr>"
  for k :: "'a pmm_scheme"
  by (induction xs arbitrary: k) (simp_all add: algebra_simps)

lemma unat_page_parts:
  "unat (p div 8) = unat p div 8" "unat (p mod 8) = unat p mod 8" for p :: u64
  by (simp_all add: word_nat)

lemma page_of_byte_bit:
  fixes b :: u64
  assumes "unat b * 8 + 8 \<le> unat t" "i < 8"
  obtains p where "p < t" "p div 8 = b" "unat (p mod 8) = i"
proof -
  define p :: u64 where "p = of_nat (unat b * 8 + i)"
  have "unat p = unat b * 8 + i"
    unfolding p_def using assms unsigned_less [of t, where 'a = nat] by (intro unat_of_nat_lt) simp
  then show ?thesis
    using assms by (intro that [of p]) (simp_all add: word_less_nat_alt word_unat_eq_iff [of "p div 8"] unat_page_parts)
qed

lemma card_byte_pages:
  assumes "unat b * 8 + 8 \<le> unat (total_pages k)"
  shows "card (used_set k \<inter> {p. p div 8 = b})
    = length (filter (\<lambda>i. bit (mem k (pmm_bitmap k + b)) i) [0..<8])"
proof -
  let ?A = "used_set k \<inter> {p. p div 8 = b}" and ?old = "mem k (pmm_bitmap k + b)"
  have "inj_on (\<lambda>p. unat (p mod 8)) ?A"
  proof (rule inj_onI)
    fix p q assume "p \<in> ?A" "q \<in> ?A" "unat (p mod 8) = unat (q mod 8)"
    then show "p = q"
      using page_index_iff [of p q] by simp
  qed
  moreover have "(\<lambda>p. unat (p mod 8)) ` ?A = {i. i < 8 \<and> bit ?old i}"
  proof (intro equalityI subsetI)
    fix i assume i: "i \<in> {i. i < 8 \<and> bit ?old i}"
    obtain p where "p < total_pages k" "p div 8 = b" "unat (p mod 8) = i"
      using page_of_byte_bit [OF assms] i by blast
    with i show "i \<in> (\<lambda>p. unat (p mod 8)) ` ?A"
      by (intro image_eqI [of _ _ p]) (auto simp: used_set_def is_used_bit)
  qed (auto simp: used_set_def is_used_bit word_mod_8_lt)
  ultimately have "card ?A = card {i. i < 8 \<and> bit ?old i}"
    using card_image by fastforce
  moreover have "{i. i < 8 \<and> bit ?old i} = set (filter (\<lambda>i. bit ?old i) [0..<8])"
    by auto
  ultimately show ?thesis
    by (simp only: distinct_card distinct_filter distinct_upt)
qed

lemma free_byte_step_eq:
  "free_byte_step b k = k\<lparr>mem := (mem k)(pmm_bitmap k + b := 0),
     used_pages := used_pages k - of_nat (length (filter (\<lambda>i. bit (mem k (pmm_bitmap k + b)) i) [0..<8]))\<rparr>"
proof -
  have "filter (\<lambda>i. mem k (pmm_bitmap k + b) AND push_bit i 1 \<noteq> 0) [0..<8]
    = filter (\<lambda>i. bit (mem k (pmm_bitmap k + b)) i) [0..<8]"
    by (rule filter_cong [OF refl]) (simp only: and_one_bit set_upt atLeastLessThan_iff)
  then show ?thesis
    by (simp only: free_byte_step_def Let_def decrement_fold) simp
qed

lemma free_byte_step:
  assumes ok: "pmm_ok k" and b: "unat b * 8 + 8 \<le> unat (total_pages k)"
  shows "pmm_ok (free_byte_step b k)" "used_set (free_byte_step b k) = used_set k - {p. p div 8 = b}"
    "pmm_same k (free_byte_step b k)"
proof -
  let ?A = "used_set k \<inter> {p. p div 8 = b}"
  have other: "pmm_bitmap k + p div 8 = pmm_bitmap k + b \<longleftrightarrow> p div 8 = b" for p
    by simp
  show used: "used_set (free_byte_step b k) = used_set k - {p. p div 8 = b}"
    by (auto simp: used_set_def free_byte_step_eq is_used_bit)
  have le: "card ?A \<le> card (used_set k)"
    by (intro card_mono) auto
  have u: "unat (used_pages k) = card (used_set k)"
    using ok by (simp add: pmm_ok_def)
  have n: "unat (of_nat (card ?A) :: u64) = card ?A"
    using le u unsigned_less [of "used_pages k", where 'a = nat] by (intro unat_of_nat_lt) simp
  have "unat (used_pages k - of_nat (card ?A)) = card (used_set k) - card ?A"
    using le u n by (subst unat_sub) (simp_all only: word_le_nat_alt)
  also have "\<dots> = card (used_set k - {p. p div 8 = b})"
    by (simp add: card_Diff_subset_Int)
  finally show "pmm_ok (free_byte_step b k)"
    using ok used by (simp add: pmm_ok_def free_byte_step_eq card_byte_pages [OF b])
  obtain p where "p < total_pages k" "p div 8 = b"
    using page_of_byte_bit [OF b, of 0] by auto
  then show "pmm_same k (free_byte_step b k)"
    using byte_in_bitmap [OF ok, of p] by (auto simp: pmm_same_def free_byte_step_eq)
qed

section \<open>Regions\<close>

text \<open>A step that removes (adds) the pages of its index keeps the invariant along a loop.\<close>

lemma page_loop:
  fixes body :: "u64 \<Rightarrow> 'a pmm_scheme \<Rightarrow> 'a pmm_scheme"
  assumes step: "\<And>j t. i \<le> j \<Longrightarrow> j < hi \<Longrightarrow> pmm_ok t \<Longrightarrow> pmm_same k t \<Longrightarrow>
      pmm_ok (body j t) \<and> used_set (body j t) = F j (used_set t) \<and> pmm_same t (body j t)"
    and ok: "pmm_ok k" and le: "i \<le> hi"
    and start: "G i = used_set k"
    and G: "\<And>j. i \<le> j \<Longrightarrow> j < hi \<Longrightarrow> F j (G j) = G (j + 1)"
  shows "pmm_ok (for_up i hi body k) \<and> used_set (for_up i hi body k) = G hi
    \<and> pmm_same k (for_up i hi body k)"
  by (rule for_up_inv [where P = "\<lambda>j t. pmm_ok t \<and> used_set t = G j \<and> pmm_same k t"])
    (use assms in \<open>auto intro: pmm_same_trans\<close>)

lemma free_page_loop:
  assumes "pmm_ok k" "i \<le> hi"
  shows "pmm_ok (for_up i hi free_page_step k)
    \<and> used_set (for_up i hi free_page_step k) = used_set k - {p. i \<le> p \<and> p < hi}
    \<and> pmm_same k (for_up i hi free_page_step k)"
  by (rule page_loop [where F = "\<lambda>j U. U - {j}" and G = "\<lambda>j. used_set k - {p. i \<le> p \<and> p < j}"])
    (use assms in \<open>auto simp: less_inc_iff free_page_step\<close>)

lemma use_page_loop:
  assumes "pmm_ok k" "i \<le> hi"
  shows "pmm_ok (for_up i hi use_page_step k)
    \<and> used_set (for_up i hi use_page_step k) = used_set k \<union> {p. i \<le> p \<and> p < hi \<and> p < total_pages k}
    \<and> pmm_same k (for_up i hi use_page_step k)"
proof (rule page_loop [where F = "\<lambda>j U. U \<union> {q. q = j \<and> j < total_pages k}"
      and G = "\<lambda>j. used_set k \<union> {p. i \<le> p \<and> p < j \<and> p < total_pages k}"])
  fix j t assume "pmm_ok t" "pmm_same k t"
  moreover from this(2) have "total_pages t = total_pages k"
    by (simp add: pmm_same_def)
  ultimately show "pmm_ok (use_page_step j t)
      \<and> used_set (use_page_step j t) = used_set t \<union> {q. q = j \<and> j < total_pages k}
      \<and> pmm_same t (use_page_step j t)"
    using use_page_step [of t j] by simp
qed (use assms in \<open>auto simp: less_inc_iff\<close>)

lemma free_byte_loop:
  assumes ok: "pmm_ok k" and le: "i \<le> hi" and hi: "unat hi * 8 \<le> unat (total_pages k)"
  shows "pmm_ok (for_up i hi free_byte_step k)
    \<and> used_set (for_up i hi free_byte_step k) = used_set k - {p. i \<le> p div 8 \<and> p div 8 < hi}
    \<and> pmm_same k (for_up i hi free_byte_step k)"
proof (rule page_loop [where F = "\<lambda>b U. U - {p. p div 8 = b}"
      and G = "\<lambda>b. used_set k - {p. i \<le> p div 8 \<and> p div 8 < b}"])
  fix b t assume "b < hi" "pmm_ok t" "pmm_same k t"
  moreover have "unat b * 8 + 8 \<le> unat (total_pages t)"
    using hi unat_mono [OF \<open>b < hi\<close>] \<open>pmm_same k t\<close> by (simp add: pmm_same_def)
  ultimately show "pmm_ok (free_byte_step b t)
      \<and> used_set (free_byte_step b t) = used_set t - {p. p div 8 = b} \<and> pmm_same t (free_byte_step b t)"
    using free_byte_step [of t b] by blast
qed (use ok le in \<open>auto simp: less_inc_iff\<close>)

text \<open>The pages of \<open>pmm_mark_region_free\<close>: from \<open>start\<close> below \<open>end\<close>, and, because the last loop
  starts at the first page of the byte of \<open>end\<close>, all pages of that byte below \<open>end\<close>.\<close>

definition freed_pages :: "u64 \<Rightarrow> u64 \<Rightarrow> u64 set" where
  "freed_pages start_page end_page = {p. start_page \<le> p \<and> p < end_page}
     \<union> {p. end_page mod 8 \<noteq> 0 \<and> end_page div 8 * 8 \<le> p \<and> p < end_page}"

lemma region_pages:
  fixes n s e :: nat
  assumes "s \<le> e"
  shows "(s mod 8 \<noteq> 0 \<and> s \<le> n \<and> n < min ((s div 8 + 1) * 8) e)
    \<or> ((if s mod 8 \<noteq> 0 then s div 8 + 1 else s div 8) \<le> n div 8 \<and> n div 8 < e div 8)
    \<or> (e mod 8 \<noteq> 0 \<and> e div 8 * 8 \<le> n \<and> n < e)
    \<longleftrightarrow> (s \<le> n \<and> n < e) \<or> (e mod 8 \<noteq> 0 \<and> e div 8 * 8 \<le> n \<and> n < e)"
proof -
  define sq sr eq er nq nr where "sq = s div 8" "sr = s mod 8" "eq = e div 8" "er = e mod 8"
    "nq = n div 8" "nr = n mod 8"
  note defs = this
  have b: "sr < 8" "er < 8" "nr < 8" by (simp_all add: defs)
  have s: "s = 8 * sq + sr" and e: "e = 8 * eq + er" and n: "n = 8 * nq + nr"
    by (simp_all add: defs)
  have d: "s div 8 = sq" "s mod 8 = sr" "e div 8 = eq" "e mod 8 = er" "n div 8 = nq"
    by (simp_all add: defs)
  show ?thesis
    unfolding d using assms b unfolding s e n
    by (cases "sr = 0"; cases "er = 0"; simp add: min_less_iff_conj; linarith?)
qed

lemma region_free_sets:
  fixes s e t :: u64
  assumes "s \<le> e" "e \<le> t" "t < 2 ^ 52"
  shows "{p. s mod 8 \<noteq> 0 \<and> s \<le> p \<and> p < min ((s div 8 + 1) * 8) e}
    \<union> {p. (if s mod 8 \<noteq> 0 then s div 8 + 1 else s div 8) \<le> p div 8 \<and> p div 8 < e div 8}
    \<union> {p. e mod 8 \<noteq> 0 \<and> e div 8 * 8 \<le> p \<and> p < e} = freed_pages s e"
proof -
  have u: "unat s \<le> unat e" "unat e < 2 ^ 52"
    using assms unat_mono [of t "2 ^ 52"] by (simp_all add: word_le_nat_alt)
  have s1: "unat (s div 8 + 1) = unat s div 8 + 1"
    using u by (subst unat_add_lt) (simp_all add: word_nat)
  have s8: "unat ((s div 8 + 1) * 8) = (unat s div 8 + 1) * 8"
    using u by (subst unat_mult_lt) (simp_all add: s1)
  have e8: "unat (e div 8 * 8) = unat e div 8 * 8"
    using u by (subst unat_mult_lt) (simp_all add: word_nat)
  have z: "x mod 8 \<noteq> 0 \<longleftrightarrow> unat x mod 8 \<noteq> 0" for x :: u64
    by (simp add: word_unat_eq_iff word_nat)
  have m: "unat (min a b) = min (unat a) (unat b)" for a b :: u64
    by (simp add: min_def word_le_nat_alt)
  show ?thesis
    unfolding freed_pages_def set_eq_iff Un_iff mem_Collect_eq z word_less_nat_alt word_le_nat_alt m s8 e8
      if_distrib [of unat] s1 unat_page_parts
    using region_pages [OF u(1)] by blast
qed

lemma unat_lt_2p52: "x < 2 ^ 52 \<Longrightarrow> unat x < 2 ^ 52" for x :: u64
  using unat_mono [of x "2 ^ 52"] by simp

lemma word_min_le: "e \<le> t \<Longrightarrow> min e t = e" for e t :: "'a::linorder"
  by (simp add: min_def)

lemma bitmap_bytes:
  assumes "pmm_ok k" "e \<le> total_pages k"
  shows "e div 8 \<le> bitmap_size k" "unat (e div 8) * 8 \<le> unat (total_pages k)"
proof -
  have t: "unat (total_pages k) < 2 ^ 52"
    using assms(1) unat_mono [of "total_pages k" "2 ^ 52"] by (simp add: pmm_ok_def)
  have "unat (total_pages k + 7) = unat (total_pages k) + 7"
    using t by (subst unat_add_lt) simp_all
  then show "e div 8 \<le> bitmap_size k"
    using assms div_le_mono [of "unat e" "unat (total_pages k) + 7" 8]
    by (simp add: pmm_ok_def word_le_nat_alt word_nat)
  show "unat (e div 8) * 8 \<le> unat (total_pages k)"
    using assms(2) by (simp add: word_le_nat_alt word_nat)
qed

lemma Diff_Un_eq: "U - (V \<union> W \<union> Z) = U - V - W - Z"
  by blast

lemma Diff_Un_sub: "U - (V \<union> W) = U - V - W"
  by blast

lemma mark_region_free_ordered:
  fixes k :: "'a pmm_scheme"
  assumes ok: "pmm_ok k" and s: "s = base div PAGE_SIZE" and e: "e = (base + len) div PAGE_SIZE"
    and le: "s \<le> e" and cap: "e \<le> total_pages k"
  shows "pmm_ok (pmm_mark_region_free base len k)
    \<and> used_set (pmm_mark_region_free base len k) = used_set k - freed_pages s e
    \<and> pmm_same k (pmm_mark_region_free base len k)"
proof -
  define sb where "sb = (if s mod 8 \<noteq> 0 then s div 8 + 1 else s div 8)"
  define k1 where "k1 = (if s mod 8 \<noteq> 0
    then for_up s (min ((s div 8 + 1) * 8) e) free_page_step k else k)"
  define k2 where "k2 = for_up sb (min (e div 8) (bitmap_size k1)) free_byte_step k1"
  have t: "total_pages k < 2 ^ 52"
    using ok by (simp add: pmm_ok_def)
  have s8: "s \<le> (s div 8 + 1) * 8"
  proof -
    have u: "unat s < 2 ^ 52"
      using le cap t by (intro unat_lt_2p52) simp
    have "unat (s div 8 + 1) = unat s div 8 + 1"
      using u by (subst unat_add_lt) (simp_all add: word_nat)
    then have "unat ((s div 8 + 1) * 8) = (unat s div 8 + 1) * 8"
      using u by (subst unat_mult_lt) simp_all
    then show ?thesis by (simp add: word_le_nat_alt)
  qed
  have 1: "pmm_ok k1" "used_set k1 = used_set k - {p. s mod 8 \<noteq> 0 \<and> s \<le> p \<and> p < min ((s div 8 + 1) * 8) e}"
    "pmm_same k k1"
    using free_page_loop [OF ok, of s "min ((s div 8 + 1) * 8) e"] ok s8 le by (auto simp: k1_def)
  have same1: "total_pages k1 = total_pages k" "bitmap_size k1 = bitmap_size k"
    using 1(3) by (simp_all add: pmm_same_def)
  have b: "min (e div 8) (bitmap_size k1) = e div 8"
    using bitmap_bytes(1) [OF ok cap] same1 by (simp add: word_min_le)
  have 2: "pmm_ok k2 \<and> used_set k2 = used_set k1 - {p. sb \<le> p div 8 \<and> p div 8 < e div 8} \<and> pmm_same k1 k2"
  proof (cases "sb \<le> e div 8")
    case True
    then show ?thesis
      unfolding k2_def b using 1(1) bitmap_bytes(2) [OF ok cap] same1
      by (intro free_byte_loop) simp_all
  next
    case False
    then show ?thesis
      using 1(1) by (auto simp: k2_def b)
  qed
  have e8: "e div 8 * 8 \<le> e"
    by (rule word_div_mult_le)
  have k': "pmm_mark_region_free base len k
      = (if e mod 8 \<noteq> 0 then for_up (e div 8 * 8) e free_page_step k2 else k2)"
    unfolding pmm_mark_region_free_def Let_def s [symmetric] e [symmetric] k2_def k1_def sb_def by simp
  have 3: "pmm_ok (pmm_mark_region_free base len k)
     \<and> used_set (pmm_mark_region_free base len k)
        = used_set k2 - {p. e mod 8 \<noteq> 0 \<and> e div 8 * 8 \<le> p \<and> p < e}
     \<and> pmm_same k2 (pmm_mark_region_free base len k)"
    unfolding k' using 2 free_page_loop [of k2 "e div 8 * 8" e] e8 by auto
  have "used_set (pmm_mark_region_free base len k) = used_set k - freed_pages s e"
    unfolding region_free_sets [OF le cap t, symmetric] sb_def [symmetric]
    using 1(2) 2 3 by (simp only: Diff_Un_eq)
  then show ?thesis
    using 1(3) 2 3 pmm_same_trans by blast
qed

text \<open>A region whose end wraps around frees only the pages that the last loop reaches.\<close>

lemma mark_region_free_sets:
  fixes k :: "'a pmm_scheme"
  assumes ok: "pmm_ok k" and s: "s = base div PAGE_SIZE" and e: "e = (base + len) div PAGE_SIZE"
    and cap: "e \<le> total_pages k"
  shows "pmm_ok (pmm_mark_region_free base len k)
    \<and> used_set (pmm_mark_region_free base len k) = used_set k - freed_pages s e
    \<and> pmm_same k (pmm_mark_region_free base len k)"
proof (cases "s \<le> e")
  case True
  then show ?thesis
    using mark_region_free_ordered [OF ok s e _ cap] by simp
next
  case False
  then have es: "e < s" by simp
  have "\<not> s < min ((s div 8 + 1) * 8) e"
    using es by (auto simp: min_less_iff_conj simp del: distrib_right_numeral)
  moreover have "\<not> s div 8 < min (e div 8) b" "\<not> s div 8 + 1 < min (e div 8) b" for b
  proof -
    have le: "e div 8 \<le> s div 8"
      using es div_le_mono [of "unat e" "unat s" 8] by (simp add: word_le_nat_alt word_less_nat_alt word_nat)
    have "unat s < 2 ^ 52"
      using unsigned_less [of base, where 'a = nat] by (simp add: s word_nat)
    then have "unat (s div 8 + 1) = unat s div 8 + 1"
      by (subst unat_add_lt) (simp_all add: word_nat)
    then have "s div 8 \<le> s div 8 + 1"
      by (simp add: word_le_nat_alt word_nat)
    with le show "\<not> s div 8 < min (e div 8) b" "\<not> s div 8 + 1 < min (e div 8) b"
      by auto
  qed
  ultimately have "pmm_mark_region_free base len k
      = (if e mod 8 \<noteq> 0 then for_up (e div 8 * 8) e free_page_step k else k)"
    unfolding pmm_mark_region_free_def Let_def s [symmetric] e [symmetric]
    by (simp only: for_up_stop if_cancel split: if_splits) simp
  moreover have "freed_pages s e = {p. e mod 8 \<noteq> 0 \<and> e div 8 * 8 \<le> p \<and> p < e}"
    using es by (auto simp: freed_pages_def)
  ultimately show ?thesis
    using free_page_loop [OF ok word_div_mult_le [of e 8]] ok by auto
qed

lemma mark_region_used_sets:
  fixes k :: "'a pmm_scheme"
  assumes ok: "pmm_ok k"
  shows "pmm_ok (pmm_mark_region_used base len k)
    \<and> used_set (pmm_mark_region_used base len k) = used_set k
       \<union> {p. base div PAGE_SIZE \<le> p \<and> p < (base + len + PAGE_SIZE - 1) div PAGE_SIZE \<and> p < total_pages k}
    \<and> pmm_same k (pmm_mark_region_used base len k)"
proof (cases "base div PAGE_SIZE \<le> (base + len + PAGE_SIZE - 1) div PAGE_SIZE")
  case True
  show ?thesis
    unfolding pmm_mark_region_used_def Let_def by (rule use_page_loop [OF ok True])
next
  case False
  then have stop: "\<not> base div PAGE_SIZE < (base + len + PAGE_SIZE - 1) div PAGE_SIZE"
    by simp
  then have "{p. base div PAGE_SIZE \<le> p \<and> p < (base + len + PAGE_SIZE - 1) div PAGE_SIZE \<and> p < total_pages k} = {}"
    using order.strict_trans1 by blast
  then show ?thesis
    unfolding pmm_mark_region_used_def Let_def for_up_stop [OF stop] using ok by (simp only: Un_empty_right) simp
qed

text \<open>\<open>pmm_mark_region_free\<close> keeps the bitmap invariant for every base and length whose end is
  within the managed pages, writes only the bitmap, and frees exactly the pages from the page of
  \<open>base\<close> up to the last whole page, plus, when the region starts inside the byte in which it ends,
  the pages of that byte below the region's start.\<close>

theorem mark_region_free_exact:
  assumes "pmm_ok k" and "s = base div PAGE_SIZE" and "e = (base + len) div PAGE_SIZE"
    and "s \<le> e" and "e \<le> total_pages k"
  shows "pmm_ok (pmm_mark_region_free base len k) \<and> pmm_same k (pmm_mark_region_free base len k)
    \<and> used_set (pmm_mark_region_free base len k) = used_set k - {p. s \<le> p \<and> p < e}
        - (if e mod 8 \<noteq> 0 \<and> e div 8 * 8 < s then {p. e div 8 * 8 \<le> p \<and> p < s} else {})"
proof -
  have "freed_pages s e = {p. s \<le> p \<and> p < e}
      \<union> (if e mod 8 \<noteq> 0 \<and> e div 8 * 8 < s then {p. e div 8 * 8 \<le> p \<and> p < s} else {})"
    using assms(4) by (auto simp: freed_pages_def)
  then show ?thesis
    using mark_region_free_sets [OF assms(1-3,5)] by (simp only: Diff_Un_sub)
qed

section \<open>\<open>pmm_init\<close>\<close>

lemma card_below: "card {p. p < t} = unat t" for t :: u64
proof -
  have "unat ` {p. p < t} = {..<unat t}"
  proof (intro equalityI subsetI)
    fix n assume n: "n \<in> {..<unat t}"
    then have "unat (of_nat n :: u64) = n"
      using unsigned_less [of t, where 'a = nat] by (intro unat_of_nat_lt) simp
    then show "n \<in> unat ` {p. p < t}"
      using n by (intro image_eqI [of _ _ "of_nat n"]) (simp_all add: word_less_nat_alt)
  qed (auto simp: word_less_nat_alt)
  moreover have "inj_on unat {p. p < t}"
    by (rule inj_onI) (simp add: word_unat_eq_iff)
  ultimately show ?thesis
    by (metis card_image card_lessThan)
qed

lemma unat_PAGE_ALIGN:
  assumes "unat a + 4096 < 2 ^ 64"
  shows "unat (PAGE_ALIGN a) = (unat a + 4095) div 4096 * 4096"
proof -
  have "(4095 :: u64) = mask 12"
    by (simp add: mask_eq_exp_minus_1)
  then have "PAGE_ALIGN a = (a + 4095) AND NOT (mask 12)"
    by (simp add: PAGE_ALIGN_def algebra_simps)
  moreover have "unat (a + 4095) = unat a + 4095"
    using assms by (subst unat_add_lt) simp_all
  ultimately show ?thesis
    by (simp only: unat_and_not_mask) simp
qed

lemma PAGE_ALIGN_props:
  assumes "unat a + 4096 < 2 ^ 64"
  shows "a \<le> PAGE_ALIGN a" "unat (PAGE_ALIGN a) < unat a + 4096" "unat (PAGE_ALIGN a) mod 4096 = 0"
  using unat_PAGE_ALIGN [OF assms] by (simp_all add: word_le_nat_alt)

lemma kprint_pmm [simp]:
  "pmm_bitmap (kprint ms k) = pmm_bitmap k" "total_pages (kprint ms k) = total_pages k"
  "used_pages (kprint ms k) = used_pages k" "bitmap_size (kprint ms k) = bitmap_size k"
  "pmm.more (kprint ms k) = pmm.more k"
  by (simp_all add: kprint_def)

lemma used_set_kprint [simp]: "used_set (kprint ms k) = used_set k"
  by (simp add: used_set_def)

lemma pmm_ok_kprint [simp]: "pmm_ok (kprint ms k) = pmm_ok k"
  by (simp add: pmm_ok_def)

definition bitmap_address :: "layout \<Rightarrow> u64 \<Rightarrow> memory \<Rightarrow> u64" where
  "bitmap_address ld info m = PAGE_ALIGN (max (kernel_end ld) (info + ucast (load32 m info)))"

lemma pmm_init_sel:
  fixes k :: "'a pmm_scheme"
  defines "t \<equiv> min (total_memory k) 0x4000000 div PAGE_SIZE"
  shows "total_memory (pmm_init ld info k) = min (total_memory k) 0x4000000"
    "total_pages (pmm_init ld info k) = t" "used_pages (pmm_init ld info k) = t"
    "bitmap_size (pmm_init ld info k) = (t + 7) div 8"
    "pmm_bitmap (pmm_init ld info k) = bitmap_address ld info (mem k)"
    "mem (pmm_init ld info k) = memset (bitmap_address ld info (mem k)) 0xFF (unat ((t + 7) div 8)) (mem k)"
    "pmm.more (pmm_init ld info k) = pmm.more k"
proof -
  have m: "max a b = (if a < b then b else a)" "min b c = (if c < b then c else b)" for a b c :: u64
    by (auto simp: max_def min_def)
  show "total_memory (pmm_init ld info k) = min (total_memory k) 0x4000000"
    "total_pages (pmm_init ld info k) = t" "used_pages (pmm_init ld info k) = t"
    "bitmap_size (pmm_init ld info k) = (t + 7) div 8"
    "pmm_bitmap (pmm_init ld info k) = bitmap_address ld info (mem k)"
    "mem (pmm_init ld info k) = memset (bitmap_address ld info (mem k)) 0xFF (unat ((t + 7) div 8)) (mem k)"
    "pmm.more (pmm_init ld info k) = pmm.more k"
    by (simp_all add: pmm_init_def Let_def t_def m bitmap_address_def)
qed

lemma all_ones_bit: "n < 8 \<Longrightarrow> bit (0xFF :: u8) n"
proof -
  have "(0xFF :: u8) = mask 8"
    by (simp add: mask_eq_exp_minus_1)
  then show "n < 8 \<Longrightarrow> ?thesis"
    by (simp only: bit_mask_iff) simp
qed

lemma pmm_init_used:
  fixes k :: "'a pmm_scheme" and ld :: layout and info :: u64
  defines "k' \<equiv> pmm_init ld info k"
  shows "used_set k' = {p. p < total_pages k'}" "pmm_ok k'" "unat (total_pages k') \<le> 16384"
proof -
  let ?t = "total_pages k'"
  have sel: "mem k' = memset (pmm_bitmap k') 0xFF (unat (bitmap_size k')) (mem k)"
    "bitmap_size k' = (?t + 7) div 8" "used_pages k' = ?t" "?t = min (total_memory k) 0x4000000 div PAGE_SIZE"
    by (simp_all add: k'_def pmm_init_sel)
  have "unat (min (total_memory k) 0x4000000) \<le> 0x4000000"
    by (simp add: min_def word_le_nat_alt)
  then show t: "unat ?t \<le> 16384"
    by (simp add: sel(4) word_nat)
  have t7: "unat (?t + 7) = unat ?t + 7"
    using t by (subst unat_add_lt) simp_all
  show used: "used_set k' = {p. p < total_pages k'}"
  proof -
    have "pmm_is_page_used p k'" if "p < ?t" for p
    proof -
      have "unat p div 8 < (unat ?t + 7) div 8"
        using unat_mono [OF that] by simp
      then have "in_range (pmm_bitmap k') (unat (bitmap_size k')) (pmm_bitmap k' + p div 8)"
        by (simp add: in_range_def sel(2) unat_page_parts t7)
      then have "mem k' (pmm_bitmap k' + p div 8) = 0xFF"
        by (simp only: sel(1) memset_byte if_True)
      then show ?thesis
        by (simp only: is_used_bit all_ones_bit word_mod_8_lt)
    qed
    then show ?thesis by (auto simp: used_set_def)
  qed
  show "pmm_ok k'"
    unfolding pmm_ok_def used card_below sel(2,3) using t by (simp add: word_less_nat_alt)
qed

text \<open>\<open>pmm_init\<close> manages at most 16384 pages (64 MB), places the bitmap on a page boundary at or
  after the end of the kernel and the end of the Multiboot information, marks every page used, and
  changes no byte below the bitmap.\<close>

theorem pmm_init_all_used:
  assumes "unat (kernel_end ld) < 2 ^ 63" and "unat info < 2 ^ 62"
  shows "let k' = pmm_init ld info k; b = pmm_bitmap k' in
      pmm_ok k' \<and> used_set k' = {p. p < total_pages k'} \<and> unat (total_pages k') \<le> 16384
      \<and> total_pages k' = total_memory k' div PAGE_SIZE
      \<and> unat b mod 4096 = 0 \<and> kernel_end ld \<le> b \<and> unat info + unat (load32 (mem k) info) \<le> unat b
      \<and> (\<forall>x. x < b \<longrightarrow> mem k' x = mem k x)"
proof -
  define k' where "k' = pmm_init ld info k"
  let ?size = "load32 (mem k) info" and ?b = "pmm_bitmap k'"
  have size: "unat ?size < 2 ^ 32"
    using unsigned_less [of ?size, where 'a = nat] by simp
  have "unat (ucast ?size :: u64) = unat ?size"
    using size by (subst unsigned_ucast_eq) (simp add: take_bit_nat_eq_self)
  then have mb: "unat (info + ucast ?size) = unat info + unat ?size"
    using assms(2) size by (subst unat_add_lt) simp_all
  have safe: "unat (max (kernel_end ld) (info + ucast ?size)) + 4096 < 2 ^ 64"
    using assms size mb by (simp add: max_def)
  have b: "?b = PAGE_ALIGN (max (kernel_end ld) (info + ucast ?size))"
    by (simp add: k'_def pmm_init_sel bitmap_address_def)
  note align = PAGE_ALIGN_props [OF safe, folded b]
  have ge: "kernel_end ld \<le> ?b" "info + ucast ?size \<le> ?b"
    using align(1) by simp_all
  have "x \<notin> {x. in_range ?b (unat (bitmap_size k')) x}" if "x < ?b" for x
  proof -
    have "unat (bitmap_size k') \<le> 2048"
      using pmm_init_used(2,3) [of ld info k] unat_add_lt [of "total_pages k'" 7]
      by (simp add: pmm_ok_def k'_def word_nat)
    moreover have "unat ?b < 2 ^ 63 + 2 ^ 32 + 8192"
      using align(2) assms size mb by (simp add: max_def split: if_splits)
    moreover have "unat (x - ?b) = 2 ^ 64 - unat ?b + unat x"
      using that unat_sub_if_size [of x ?b] unsigned_less [of ?b, where 'a = nat]
      by (simp add: word_size word_less_nat_alt)
    ultimately show ?thesis by (simp add: in_range_def)
  qed
  moreover have "mem k' = memset ?b 0xFF (unat (bitmap_size k')) (mem k)"
    by (simp add: k'_def pmm_init_sel)
  ultimately have "mem k' x = mem k x" if "x < ?b" for x
    using that by (simp add: memset_byte)
  then show ?thesis
    unfolding Let_def k'_def [symmetric]
    using pmm_init_used [of ld info k] ge align(3) mb
    by (simp add: k'_def [symmetric] word_le_nat_alt) (simp add: k'_def pmm_init_sel)
qed

section \<open>\<open>pmm_mark_free_regions\<close>\<close>

text \<open>The pages that a memory map entry frees when the total memory is \<open>tm\<close>.\<close>

definition entry_pages :: "u64 \<Rightarrow> multiboot_mmap_entry \<Rightarrow> u64 set" where
  "entry_pages tm e =
     (if entry_type e = MULTIBOOT_MEMORY_AVAILABLE \<and> entry_addr e < tm then
        freed_pages (entry_addr e div PAGE_SIZE)
          ((entry_addr e + (if tm < entry_addr e + entry_len e then tm - entry_addr e else entry_len e))
             div PAGE_SIZE)
      else {})"

text \<open>The memory map lies outside the bitmap.\<close>

definition map_outside :: "u64 \<Rightarrow> 'a pmm_scheme \<Rightarrow> bool" where
  "map_outside tag k \<longleftrightarrow> disjoint_ranges tag 16 (pmm_bitmap k) (unat (bitmap_size k))
     \<and> (\<forall>i<unat (num_mmap_entries (mem k) tag).
          disjoint_ranges (mmap_entry_at (mem k) tag (of_nat i)) 24 (pmm_bitmap k) (unat (bitmap_size k)))"

lemma free_entry_step:
  fixes k :: "'a pmm_scheme"
  assumes ok: "pmm_ok k" and total: "total_pages k = total_memory k div PAGE_SIZE"
  shows "pmm_ok (free_entry_step e k)" "used_set (free_entry_step e k) = used_set k - entry_pages (total_memory k) e"
    "pmm_same k (free_entry_step e k)"
proof -
  have "pmm_ok (free_entry_step e k) \<and> used_set (free_entry_step e k) = used_set k - entry_pages (total_memory k) e
    \<and> pmm_same k (free_entry_step e k)"
  proof (cases "entry_type e = MULTIBOOT_MEMORY_AVAILABLE \<and> entry_addr e < total_memory k")
    case True
    define len where "len = (if total_memory k < entry_addr e + entry_len e
      then total_memory k - entry_addr e else entry_len e)"
    have "\<not> total_memory k \<le> entry_addr e"
      using True leD by blast
    then have step: "free_entry_step e k = pmm_mark_region_free (entry_addr e) len k"
      using True by (simp add: free_entry_step_def Let_def len_def)
    have "entry_addr e + len \<le> total_memory k"
      by (simp add: len_def not_less)
    then have "(entry_addr e + len) div PAGE_SIZE \<le> total_pages k"
      by (simp add: total word_le_nat_alt word_nat div_le_mono)
    from mark_region_free_sets [OF ok refl refl this] True show ?thesis
      by (simp add: step entry_pages_def len_def)
  next
    case False
    then show ?thesis
      using ok by (auto simp: free_entry_step_def entry_pages_def Let_def)
  qed
  then show "pmm_ok (free_entry_step e k)"
    "used_set (free_entry_step e k) = used_set k - entry_pages (total_memory k) e"
    "pmm_same k (free_entry_step e k)" by blast+
qed

lemma load_le_same:
  assumes "pmm_same k t" "disjoint_ranges a n (pmm_bitmap k) (unat (bitmap_size k))" "i + j \<le> n"
  shows "load_le j (mem t) (a + of_nat i) = load_le j (mem k) (a + of_nat i)"
proof (rule load_le_cong)
  fix l assume "l < j"
  then have "i + l < n" using assms(3) by simp
  then have "\<not> in_range (pmm_bitmap k) (unat (bitmap_size k)) (a + of_nat (i + l))"
    using assms(2) unfolding disjoint_ranges_def by blast
  then show "mem t (a + of_nat i + of_nat l) = mem k (a + of_nat i + of_nat l)"
    using assms(1) by (simp add: pmm_same_def add.assoc)
qed

lemma map_read_same:
  assumes "pmm_same k t" "map_outside tag k"
  shows "mmap_entry_size (mem t) tag = mmap_entry_size (mem k) tag"
    "i < num_mmap_entries (mem k) tag \<Longrightarrow>
      read_mmap_entry (mem t) (mmap_entry_at (mem t) tag i) = read_mmap_entry (mem k) (mmap_entry_at (mem k) tag i)"
proof -
  have tag: "disjoint_ranges tag 16 (pmm_bitmap k) (unat (bitmap_size k))"
    using assms(2) by (simp add: map_outside_def)
  show size: "mmap_entry_size (mem t) tag = mmap_entry_size (mem k) tag"
    using load_le_same [OF assms(1) tag, of 8 4] by (simp add: mmap_entry_size_def load32_def)
  assume "i < num_mmap_entries (mem k) tag"
  then have "unat i < unat (num_mmap_entries (mem k) tag)"
    by (rule unat_mono)
  then have e: "disjoint_ranges (mmap_entry_at (mem k) tag i) 24 (pmm_bitmap k) (unat (bitmap_size k))"
    using assms(2) by (auto simp: map_outside_def)
  show "read_mmap_entry (mem t) (mmap_entry_at (mem t) tag i) = read_mmap_entry (mem k) (mmap_entry_at (mem k) tag i)"
    using load_le_same [OF assms(1) e, of 0 8] load_le_same [OF assms(1) e, of 8 8]
      load_le_same [OF assms(1) e, of 16 4]
    by (simp add: read_mmap_entry_def load64_def load32_def mmap_entry_at_def size)
qed

lemma free_entries_loop:
  fixes k :: "'a pmm_scheme"
  assumes ok: "pmm_ok k" and total: "total_pages k = total_memory k div PAGE_SIZE"
    and out: "map_outside tag k"
  defines "n \<equiv> num_mmap_entries (mem k) tag"
    and "e \<equiv> \<lambda>i. read_mmap_entry (mem k) (mmap_entry_at (mem k) tag i)"
  defines "k' \<equiv> for_up 0 n (\<lambda>i k. free_entry_step (read_mmap_entry (mem k) (mmap_entry_at (mem k) tag i)) k) k"
  shows "pmm_ok k' \<and> used_set k' = used_set k - (\<Union>i\<in>{i. i < n}. entry_pages (total_memory k) (e i))
    \<and> pmm_same k k'"
  unfolding k'_def
proof (rule for_up_inv [where P = "\<lambda>j t. pmm_ok t
      \<and> used_set t = used_set k - (\<Union>i\<in>{i. i < j}. entry_pages (total_memory k) (e i)) \<and> pmm_same k t" and i = 0])
  fix j t
  assume j: "j < n" and t: "pmm_ok t
    \<and> used_set t = used_set k - (\<Union>i\<in>{i. i < j}. entry_pages (total_memory k) (e i)) \<and> pmm_same k t"
  then have ok_t: "pmm_ok t" and same: "pmm_same k t"
    and used: "used_set t = used_set k - (\<Union>i\<in>{i. i < j}. entry_pages (total_memory k) (e i))"
    by blast+
  have read: "read_mmap_entry (mem t) (mmap_entry_at (mem t) tag j) = e j"
    using map_read_same(2) [OF same out] j by (simp add: n_def e_def)
  have tt: "total_pages t = total_memory t div PAGE_SIZE" "total_memory t = total_memory k"
    using same total by (simp_all add: pmm_same_def)
  note step = free_entry_step [OF ok_t tt(1), of "e j"]
  have "{i. i < j + 1} = insert j {i. i < j}"
    using less_inc_iff [OF j] by auto
  then have "(\<Union>i\<in>{i. i < j + 1}. entry_pages (total_memory k) (e i))
      = (\<Union>i\<in>{i. i < j}. entry_pages (total_memory k) (e i)) \<union> entry_pages (total_memory k) (e j)"
    by (simp add: Un_commute)
  then have "used_set (free_entry_step (e j) t)
      = used_set k - (\<Union>i\<in>{i. i < j + 1}. entry_pages (total_memory k) (e i))"
    by (simp only: step(2) used tt(2) Diff_Un_sub)
  then show "pmm_ok (free_entry_step (read_mmap_entry (mem t) (mmap_entry_at (mem t) tag j)) t)
    \<and> used_set (free_entry_step (read_mmap_entry (mem t) (mmap_entry_at (mem t) tag j)) t)
       = used_set k - (\<Union>i\<in>{i. i < j + 1}. entry_pages (total_memory k) (e i))
    \<and> pmm_same k (free_entry_step (read_mmap_entry (mem t) (mmap_entry_at (mem t) tag j)) t)"
    unfolding read using step(1) pmm_same_trans [OF same step(3)] by blast
qed (use ok in simp_all)

lemma free_tags_walk:
  assumes "stops_at (mem k) tag n" "n < left"
  shows "free_tags left tag k = free_tags (left - n) ((next_tag (mem k) ^^ n) tag) k"
  using assms
proof (induction n arbitrary: tag left)
  case (Suc n)
  have first: "\<not> tag_ends (mem k) tag"
    using Suc.prems(1) by (auto simp: stops_at_iff dest: spec [of _ 0])
  have "stops_at (mem k) (next_tag (mem k) tag) n"
    using Suc.prems(1) by (auto simp: stops_at_iff funpow_swap1 dest: spec [of _ "Suc _"])
  from Suc.IH [OF this, of "left - 1"] Suc.prems(2) first show ?case
    by (cases left) (auto simp: tag_ends_def funpow_swap1)
qed simp

text \<open>The pages of the kernel image and the bitmap.\<close>

definition kernel_pages :: "layout \<Rightarrow> 'a pmm_scheme \<Rightarrow> u64 set" where
  "kernel_pages ld k = {p. kernel_start ld div PAGE_SIZE \<le> p
     \<and> p < (pmm_bitmap k + bitmap_size k + PAGE_SIZE - 1) div PAGE_SIZE \<and> p < total_pages k}"

lemma mark_free_regions_of_tags:
  fixes k :: "'a pmm_scheme"
  assumes ok: "pmm_ok k1" and tags: "free_tags 100 (info + 8) (kprint [Ln ''[PMM] Marking free regions...''] k) = Inr k1"
  shows "\<exists>k'. pmm_mark_free_regions ld info k = Inr k' \<and> pmm_ok k'
    \<and> used_set k' = used_set k1 \<union> kernel_pages ld k1
    \<and> total_pages k' = total_pages k1 \<and> pmm_bitmap k' = pmm_bitmap k1 \<and> bitmap_size k' = bitmap_size k1
    \<and> pmm.more k' = pmm.more k1
    \<and> (\<forall>x. \<not> in_range (pmm_bitmap k1) (unat (bitmap_size k1)) x \<longrightarrow> mem k' x = mem k1 x)"
proof -
  let ?k2 = "kprint [S ''[PMM] Marking kernel + bitmap as used: '', X (kernel_start ld), S '' - '',
    X (pmm_bitmap k1 + bitmap_size k1), Ln ''''] k1"
  let ?k3 = "pmm_mark_region_used (kernel_start ld) (pmm_bitmap k1 + bitmap_size k1 - kernel_start ld) ?k2"
  have "pmm_ok ?k2"
    using ok by simp
  note used = mark_region_used_sets [OF this, of "kernel_start ld" "pmm_bitmap k1 + bitmap_size k1 - kernel_start ld"]
  have "\<exists>ms. pmm_mark_free_regions ld info k = Inr (kprint ms ?k3)"
    using tags by (simp add: pmm_mark_free_regions_def Let_def) blast
  then show ?thesis
    using used by (auto simp: kernel_pages_def pmm_same_def)
qed

lemma free_tags_entries:
  fixes k :: "'a pmm_scheme"
  assumes "pmm_ok k" and "used_set k = {p. p < total_pages k}"
    and "total_pages k = total_memory k div PAGE_SIZE"
    and "stops_at (mem k) (info + 8) n" and "n < 100"
    and "tag = (next_tag (mem k) ^^ n) (info + 8)" and "tag_type (mem k) tag = MULTIBOOT_TAG_TYPE_MMAP"
    and "mmap_entry_size (mem k) tag \<noteq> 0" and "map_outside tag k"
  shows "\<exists>k1. free_tags 100 (info + 8) (kprint [Ln ''[PMM] Marking free regions...''] k) = Inr k1
    \<and> pmm_ok k1 \<and> used_set k1 = {p. p < total_pages k}
        - (\<Union>i\<in>{i. i < num_mmap_entries (mem k) tag}.
             entry_pages (total_memory k) (read_mmap_entry (mem k) (mmap_entry_at (mem k) tag i)))
    \<and> total_pages k1 = total_pages k \<and> kernel_pages ld k1 = kernel_pages ld k
    \<and> pmm_bitmap k1 = pmm_bitmap k \<and> bitmap_size k1 = bitmap_size k \<and> pmm.more k1 = pmm.more k
    \<and> (\<forall>x. \<not> in_range (pmm_bitmap k) (unat (bitmap_size k)) x \<longrightarrow> mem k1 x = mem k x)"
proof -
  let ?k0 = "kprint [Ln ''[PMM] Marking free regions...''] k"
  let ?k1 = "for_up 0 (num_mmap_entries (mem ?k0) tag)
    (\<lambda>i k. free_entry_step (read_mmap_entry (mem k) (mmap_entry_at (mem k) tag i)) k) ?k0"
  have "free_tags 100 (info + 8) ?k0 = free_tags (100 - n) tag ?k0"
    using free_tags_walk [of ?k0 "info + 8" n 100] assms(4-6) by simp
  moreover obtain left where "100 - n = Suc left"
    using assms(5) by (metis Suc_diff_Suc)
  ultimately have "free_tags 100 (info + 8) ?k0 = free_tags (Suc left) tag ?k0"
    by simp
  then have tags: "free_tags 100 (info + 8) ?k0 = Inr ?k1"
    using assms(7,8) by simp
  have out: "map_outside tag ?k0"
    using assms(9) by (simp add: map_outside_def)
  have loop: "pmm_ok ?k1 \<and> used_set ?k1 = {p. p < total_pages k}
        - (\<Union>i\<in>{i. i < num_mmap_entries (mem k) tag}.
             entry_pages (total_memory k) (read_mmap_entry (mem k) (mmap_entry_at (mem k) tag i)))
      \<and> pmm_same ?k0 ?k1"
    using free_entries_loop [of ?k0 tag] assms(1-3) out by simp
  moreover from this have "kernel_pages ld ?k1 = kernel_pages ld k" "total_pages ?k1 = total_pages k"
    "pmm_bitmap ?k1 = pmm_bitmap k" "bitmap_size ?k1 = bitmap_size k" "pmm.more ?k1 = pmm.more k"
    "\<forall>x. \<not> in_range (pmm_bitmap k) (unat (bitmap_size k)) x \<longrightarrow> mem ?k1 x = mem k x"
    by (simp_all add: kernel_pages_def pmm_same_def)
  ultimately show ?thesis
    using tags by blast
qed

text \<open>C8: Marking the free regions of a memory map that is reached within 100 tags, has entries of
  non-zero size and lies outside the bitmap, starting from the state \<open>pmm_init\<close> leaves, returns
  with the invariant, and the used pages are exactly: all pages that no AVAILABLE entry (cut at the
  end of the managed memory) frees, and the pages of the kernel and the bitmap.\<close>

theorem mark_free_regions_pages:
  assumes "pmm_ok k" and "used_set k = {p. p < total_pages k}"
    and "total_pages k = total_memory k div PAGE_SIZE"
    and "stops_at (mem k) (info + 8) n" and "n < 100"
    and "tag = (next_tag (mem k) ^^ n) (info + 8)" and "tag_type (mem k) tag = MULTIBOOT_TAG_TYPE_MMAP"
    and "mmap_entry_size (mem k) tag \<noteq> 0" and "map_outside tag k"
  shows "\<exists>k'. pmm_mark_free_regions ld info k = Inr k' \<and> pmm_ok k'
    \<and> used_set k' = {p. p < total_pages k}
        - (\<Union>i\<in>{i. i < num_mmap_entries (mem k) tag}.
             entry_pages (total_memory k) (read_mmap_entry (mem k) (mmap_entry_at (mem k) tag i)))
        \<union> kernel_pages ld k"
  using free_tags_entries [OF assms, of ld] mark_free_regions_of_tags by metis

section \<open>Allocating and freeing pages\<close>

lemma pmm_alloc_cases:
  fixes k :: "'a pmm_scheme"
  obtains (full) "pmm_alloc_page k = (0, k)" "used_set k = {p. p < total_pages k}"
  | (page) p where "p < total_pages k" "p \<notin> used_set k" "\<And>q. q < p \<Longrightarrow> q \<in> used_set k"
      "pmm_alloc_page k = (p * PAGE_SIZE, (pmm_mark_page p k)\<lparr>used_pages := used_pages k + 1\<rparr>)"
proof (cases "find_up 0 (total_pages k) (\<lambda>i. \<not> pmm_is_page_used i k)")
  case None
  then have "\<forall>p. 0 \<le> p \<and> p < total_pages k \<longrightarrow> \<not> \<not> pmm_is_page_used p k"
    by (simp only: find_up_None)
  then have "used_set k = {p. p < total_pages k}"
    by (auto simp: used_set_def)
  moreover have "pmm_alloc_page k = (0, k)"
    using None by (simp add: pmm_alloc_page_def)
  ultimately show ?thesis
    by (rule full [rotated])
next
  case (Some p)
  from find_up_Some [OF Some] have "p < total_pages k" "\<not> pmm_is_page_used p k"
    "\<And>q. q < p \<Longrightarrow> pmm_is_page_used q k"
    by auto
  then show ?thesis
    using Some by (intro page) (auto simp: pmm_alloc_page_def used_set_def Let_def)
qed

lemma page_addr:
  assumes "pmm_ok k" "p < total_pages k"
  shows "p * PAGE_SIZE div PAGE_SIZE = p" "unat (p * PAGE_SIZE) = unat p * 4096" "p * PAGE_SIZE = 0 \<longleftrightarrow> p = 0"
proof -
  have "unat p < 2 ^ 52"
    using assms order.strict_trans [of p "total_pages k"] by (intro unat_lt_2p52) (simp add: pmm_ok_def)
  then show u: "unat (p * PAGE_SIZE) = unat p * 4096"
    by (subst unat_mult_lt) simp_all
  then show "p * PAGE_SIZE div PAGE_SIZE = p"
    by (simp only: word_unat_eq_iff unat_div_word) simp
  show "p * PAGE_SIZE = 0 \<longleftrightarrow> p = 0"
    using u by (simp add: word_unat_eq_iff [of "p * PAGE_SIZE"] unat_eq_0)
qed

text \<open>The page frames, by their physical address.\<close>

definition used_frames :: "'a pmm_scheme \<Rightarrow> u64 set" where
  "used_frames k = (\<lambda>p. p * PAGE_SIZE) ` used_set k"

lemma frame_inj:
  assumes "pmm_ok k" "p < total_pages k" "q < total_pages k"
  shows "p * PAGE_SIZE = q * PAGE_SIZE \<longleftrightarrow> p = q"
  using page_addr(1) [OF assms(1,2)] page_addr(1) [OF assms(1,3)] by metis

lemma used_frames_iff: "pmm_ok k \<Longrightarrow> p < total_pages k \<Longrightarrow> p * PAGE_SIZE \<in> used_frames k \<longleftrightarrow> p \<in> used_set k"
  unfolding used_frames_def image_iff using frame_inj by (fastforce simp: used_set_def)

lemma alloc_page_spec:
  fixes k :: "'a pmm_scheme"
  assumes ok: "pmm_ok k" and alloc: "pmm_alloc_page k = (a, k')"
  shows "pmm_ok k'" "pmm_same k k'"
    "a \<noteq> 0 \<Longrightarrow> a \<notin> used_frames k" "a \<noteq> 0 \<Longrightarrow> used_frames k' = insert a (used_frames k)"
    "unat a mod 4096 = 0" "used_frames k \<subseteq> used_frames k'" "unat a div 4096 < unat (total_pages k) \<or> a = 0"
proof -
  have "pmm_ok k' \<and> pmm_same k k' \<and> (a \<noteq> 0 \<longrightarrow> a \<notin> used_frames k \<and> used_frames k' = insert a (used_frames k))
    \<and> unat a mod 4096 = 0 \<and> used_frames k \<subseteq> used_frames k' \<and> (unat a div 4096 < unat (total_pages k) \<or> a = 0)"
  proof (cases k rule: pmm_alloc_cases)
    case full
    then show ?thesis using ok alloc by simp
  next
    case (page p)
    then have a: "a = p * PAGE_SIZE" and k': "k' = (pmm_mark_page p k)\<lparr>used_pages := used_pages k + 1\<rparr>"
      using alloc by simp_all
    have "used_frames k' = insert a (used_frames k)"
      using page(1) by (simp add: used_frames_def k' used_set_mark a)
    then show ?thesis
      unfolding k' using mark_unused_ok [OF ok page(1,2)] pmm_same_mark [OF ok page(1)]
        used_frames_iff [OF ok page(1)] page(1,2) page_addr(2) [OF ok page(1)]
      by (auto simp: a word_less_nat_alt)
  qed
  then show "pmm_ok k'" "pmm_same k k'"
    "a \<noteq> 0 \<Longrightarrow> a \<notin> used_frames k" "a \<noteq> 0 \<Longrightarrow> used_frames k' = insert a (used_frames k)"
    "unat a mod 4096 = 0" "used_frames k \<subseteq> used_frames k'" "unat a div 4096 < unat (total_pages k) \<or> a = 0"
    by blast+
qed

text \<open>\<open>alloc_many\<close> calls an allocator \<open>n\<close> times, the way \<open>vmm_map_page\<close> builds its tables.\<close>

fun alloc_many :: "('s \<Rightarrow> u64 \<times> 's) \<Rightarrow> nat \<Rightarrow> 's \<Rightarrow> u64 list \<times> 's" where
  "alloc_many alloc 0 s = ([], s)"
| "alloc_many alloc (Suc n) s =
     (let (a, s') = alloc s; (as, s'') = alloc_many alloc n s' in (a # as, s''))"

text \<open>The contract of a page allocator: what the clients of \<open>pmm_alloc_page\<close> rely on.  The address
  0 means that no page was available.\<close>

locale page_allocator =
  fixes alloc :: "'s \<Rightarrow> u64 \<times> 's"
    and release :: "u64 \<Rightarrow> 's \<Rightarrow> 's"
    and frames :: "'s \<Rightarrow> u64 set"
    and inv :: "'s \<Rightarrow> bool"
  assumes alloc_inv: "inv s \<Longrightarrow> alloc s = (a, s') \<Longrightarrow> inv s'"
    and alloc_fresh: "inv s \<Longrightarrow> alloc s = (a, s') \<Longrightarrow> a \<noteq> 0 \<Longrightarrow> a \<notin> frames s"
    and alloc_frames: "inv s \<Longrightarrow> alloc s = (a, s') \<Longrightarrow> a \<noteq> 0 \<Longrightarrow> frames s' = insert a (frames s)"
    and alloc_keeps: "inv s \<Longrightarrow> alloc s = (a, s') \<Longrightarrow> frames s \<subseteq> frames s'"
    and release_inv: "inv s \<Longrightarrow> inv (release a s)"
    and release_frames: "inv s \<Longrightarrow> a \<in> frames s \<Longrightarrow> frames (release a s) = frames s - {a}"
begin

lemma alloc_many_inv: "inv s \<Longrightarrow> alloc_many alloc n s = (as, s') \<Longrightarrow> inv s'"
  by (induction n arbitrary: s as) (auto split: prod.splits intro: alloc_inv)

lemma alloc_many_keeps: "inv s \<Longrightarrow> alloc_many alloc n s = (as, s') \<Longrightarrow> frames s \<subseteq> frames s'"
proof (induction n arbitrary: s as)
  case (Suc n)
  then obtain a t bs where "alloc s = (a, t)" "alloc_many alloc n t = (bs, s')"
    by (auto split: prod.splits)
  with Suc show ?case
    using alloc_inv alloc_keeps by blast
qed simp

text \<open>The pages handed out are different from each other and from the pages in use before, and
  they stay in use.\<close>

lemma alloc_many_distinct:
  "inv s \<Longrightarrow> alloc_many alloc n s = (as, s') \<Longrightarrow>
    distinct (filter (\<lambda>a. a \<noteq> 0) as) \<and> (set as - {0}) \<inter> frames s = {} \<and> set as - {0} \<subseteq> frames s'"
proof (induction n arbitrary: s as)
  case (Suc n)
  then obtain a t bs where a: "alloc s = (a, t)" and bs: "alloc_many alloc n t = (bs, s')"
    and as_eq: "as = a # bs"
    by (auto split: prod.splits)
  have t: "inv t" and keep: "frames s \<subseteq> frames t"
    using Suc.prems(1) a alloc_inv alloc_keeps by blast+
  note IH = Suc.IH [OF t bs]
  show ?case
  proof (cases "a = 0")
    case True
    then show ?thesis using IH keep as_eq by auto
  next
    case False
    have "a \<notin> frames s" "a \<in> frames t"
      using alloc_fresh [OF Suc.prems(1) a False] alloc_frames [OF Suc.prems(1) a False] by auto
    moreover have "a \<in> frames s'"
      using alloc_many_keeps [OF t bs] \<open>a \<in> frames t\<close> by blast
    ultimately show ?thesis using IH keep as_eq False by auto
  qed
qed simp

lemma release_alloc:
  assumes "inv s" "alloc s = (a, s')" "a \<noteq> 0"
  shows "inv (release a s') \<and> frames (release a s') = frames s"
proof -
  have "inv s'" "frames s' = insert a (frames s)" "a \<notin> frames s"
    using assms alloc_inv alloc_frames alloc_fresh by blast+
  then show ?thesis
    using release_inv release_frames by auto
qed

end

lemma free_page_spec:
  fixes k :: "'a pmm_scheme"
  assumes ok: "pmm_ok k"
  shows "pmm_ok (pmm_free_page a k)" "used_set (pmm_free_page a k) = used_set k - {a div PAGE_SIZE}"
    "pmm_same k (pmm_free_page a k)"
proof -
  have "pmm_free_page a k = free_page_step (a div PAGE_SIZE) k"
    by (simp add: pmm_free_page_def free_page_step_def Let_def)
  then show "pmm_ok (pmm_free_page a k)" "used_set (pmm_free_page a k) = used_set k - {a div PAGE_SIZE}"
    "pmm_same k (pmm_free_page a k)"
    using free_page_step [OF ok] by simp_all
qed

lemma free_page_frames:
  fixes k :: "'a pmm_scheme"
  assumes ok: "pmm_ok k" and a: "a \<in> used_frames k"
  shows "used_frames (pmm_free_page a k) = used_frames k - {a}"
proof -
  obtain p where p: "p \<in> used_set k" "a = p * PAGE_SIZE"
    using a by (auto simp: used_frames_def)
  then have lt: "p < total_pages k"
    by (simp add: used_set_def)
  have "inj_on (\<lambda>p. p * PAGE_SIZE) (used_set k)"
    using frame_inj [OF ok] by (intro inj_onI) (auto simp: used_set_def)
  then have "(\<lambda>p. p * PAGE_SIZE) ` (used_set k - {p}) = used_frames k - {p * PAGE_SIZE}"
    unfolding used_frames_def using p(1) by (subst inj_on_image_set_diff [where C = "used_set k"]) auto
  then show ?thesis
    by (simp add: used_frames_def free_page_spec(2) [OF ok] p(2) page_addr(1) [OF ok lt])
qed

interpretation pa: page_allocator
    "pmm_alloc_page :: 'a pmm_scheme \<Rightarrow> u64 \<times> 'a pmm_scheme" pmm_free_page used_frames pmm_ok
  by unfold_locales
    (erule (1) alloc_page_spec(1), erule (2) alloc_page_spec(3), erule (2) alloc_page_spec(4),
      erule (1) alloc_page_spec(6), erule free_page_spec(1), erule (1) free_page_frames)

text \<open>C9: With the bitmap invariant, \<open>pmm_alloc_page\<close> returns the lowest page that is not used,
  marks exactly that page, keeps the invariant and touches nothing but the bitmap and the counter;
  when every page is used it returns 0 and changes nothing.\<close>

theorem alloc_page_lowest:
  assumes "pmm_ok k" and "pmm_alloc_page k = (a, k')"
  shows "pmm_ok k' \<and> pmm_same k k'
    \<and> (used_set k = {p. p < total_pages k} \<and> a = 0 \<and> k' = k
       \<or> (\<exists>p. p < total_pages k \<and> p \<notin> used_set k \<and> {q. q < p} \<subseteq> used_set k
            \<and> a = p * PAGE_SIZE \<and> unat a = unat p * 4096 \<and> used_set k' = insert p (used_set k)
            \<and> unat (used_pages k') = unat (used_pages k) + 1))"
proof (cases k rule: pmm_alloc_cases)
  case full
  then show ?thesis using assms by simp
next
  case (page p)
  then have k': "k' = (pmm_mark_page p k)\<lparr>used_pages := used_pages k + 1\<rparr>" and a: "a = p * PAGE_SIZE"
    using assms(2) by simp_all
  have set': "used_set k' = insert p (used_set k)"
    using page(1) by (simp add: k' used_set_mark)
  have ok': "pmm_ok k'"
    using alloc_page_spec(1) [OF assms] .
  have "card (insert p (used_set k)) = card (used_set k) + 1"
    using page(2) by simp
  then have "unat (used_pages k') = unat (used_pages k) + 1"
    using ok' assms(1) set' unfolding pmm_ok_def by simp
  then show ?thesis
    using ok' alloc_page_spec(2) [OF assms] page(1-3) set' a page_addr(2) [OF assms(1) page(1)] by blast
qed

lemma mark_clear_same:
  assumes "\<not> pmm_is_page_used p k"
  shows "(pmm_clear_page p (pmm_mark_page p k\<lparr>used_pages := n\<rparr>))\<lparr>used_pages := used_pages k\<rparr> = k"
proof -
  let ?a = "pmm_bitmap k + p div 8" and ?i = "unat (p mod 8)"
  have "\<not> bit (mem k ?a) ?i"
    using assms by (simp add: is_used_bit)
  then have "(mem k ?a OR push_bit ?i 1) AND NOT (push_bit ?i 1) = mem k ?a"
    by (intro bit_word_eqI) (auto simp: bit_set_pow2 bit_clear_pow2 word_mod_8_lt)
  then show ?thesis
    by (simp add: pmm_clear_page_def pmm_mark_page_def Let_def)
qed

text \<open>C12: Freeing the page that \<open>pmm_alloc_page\<close> has just returned gives back exactly the state
  before the allocation, and freeing a page twice is the same as freeing it once.\<close>

theorem alloc_free_roundtrip:
  assumes "pmm_ok k" and "pmm_alloc_page k = (a, k')" and "used_set k \<noteq> {p. p < total_pages k}"
  shows "pmm_free_page a k' = k \<and> pmm_free_page b (pmm_free_page b k') = pmm_free_page b k'"
proof
  show "pmm_free_page a k' = k"
  proof (cases k rule: pmm_alloc_cases)
    case full
    then show ?thesis using assms(3) by simp
  next
    case (page p)
    then have k': "k' = (pmm_mark_page p k)\<lparr>used_pages := used_pages k + 1\<rparr>" and a: "a = p * PAGE_SIZE"
      using assms(2) by simp_all
    have "\<not> pmm_is_page_used p k"
      using page(1,2) by (simp add: used_set_def)
    from mark_clear_same [OF this, of "used_pages k + 1"] show ?thesis
      using page(1) page_addr(1) [OF assms(1) page(1)]
      by (simp add: pmm_free_page_def Let_def a k')
  qed
  show "pmm_free_page b (pmm_free_page b k') = pmm_free_page b k'"
    by (simp add: pmm_free_page_def Let_def)
qed

text \<open>Any number of successive allocations hand out pages that differ from each other and from
  every page in use before, are all marked used afterwards, and keep the invariant.\<close>

theorem alloc_pages_distinct:
  assumes "pmm_ok k" and "alloc_many pmm_alloc_page n k = (as, k')"
  shows "pmm_ok k' \<and> distinct (filter (\<lambda>a. a \<noteq> 0) as) \<and> (set as - {0}) \<inter> used_frames k = {}
    \<and> set as - {0} \<union> used_frames k \<subseteq> used_frames k'"
  using pa.alloc_many_inv [OF assms] pa.alloc_many_distinct [OF assms] pa.alloc_many_keeps [OF assms]
  by simp

section \<open>Two defects\<close>

text \<open>When page 0 is free, \<open>pmm_alloc_page\<close> marks it used and returns its address 0, the value
  that means out of memory: the caller cannot tell the two apart and the page is lost.\<close>

theorem alloc_page_zero_lost:
  assumes "pmm_ok k" and "0 < total_pages k" and "0 \<notin> used_set k"
  shows "fst (pmm_alloc_page k) = 0 \<and> 0 \<in> used_set (snd (pmm_alloc_page k))
    \<and> used_set k \<noteq> {p. p < total_pages k}"
proof (cases k rule: pmm_alloc_cases)
  case full
  then show ?thesis using assms by auto
next
  case (page p)
  have "\<not> 0 < p"
    using page(3) [of 0] assms(3) by blast
  then have "p = 0"
    using word_gt_0 [of p] by blast
  then show ?thesis
    using page(4) assms by (auto simp: used_set_mark)
qed

text \<open>\<open>pmm_mark_region_free\<close> of a region that lies inside one byte of the bitmap and does not
  start at its first page also frees the pages of that byte below the region.\<close>

theorem region_free_too_much:
  assumes "pmm_ok k" and "s = base div PAGE_SIZE" and "e = (base + len) div PAGE_SIZE"
    and "s \<le> e" and "e \<le> total_pages k" and "s div 8 = e div 8" and "s mod 8 \<noteq> 0"
    and "p div 8 = s div 8" and "p < s"
  shows "p \<notin> used_set (pmm_mark_region_free base len k)"
proof -
  have u: "unat s div 8 = unat e div 8" "unat s mod 8 \<noteq> 0" "unat p div 8 = unat s div 8" "unat p < unat s"
    "unat s \<le> unat e"
    using assms(4,6-9) by (simp_all add: word_unat_eq_iff word_nat word_less_nat_alt word_le_nat_alt)
  have "unat e mod 8 \<noteq> 0"
    using u div_mult_mod_eq [of "unat e" 8] div_mult_mod_eq [of "unat s" 8] by (intro notI) linarith
  then have "e mod 8 \<noteq> 0"
    by (simp add: word_unat_eq_iff word_nat)
  moreover have "e div 8 * 8 \<le> p"
  proof -
    have "unat (e div 8 * 8) = unat e div 8 * 8"
      using unsigned_less [of e, where 'a = nat] by (subst unat_mult_lt) (simp_all add: word_nat)
    then show ?thesis
      using u by (simp add: word_le_nat_alt)
  qed
  ultimately have "p \<in> freed_pages s e"
    using assms(4,9) order.strict_trans2 [of p s e] by (simp add: freed_pages_def)
  then show ?thesis
    using mark_region_free_sets [OF assms(1-3,5)] by simp
qed

section \<open>The theorems at a concrete boot\<close>

definition small_layout :: layout where
  "small_layout = \<lparr>kernel_start = 0x100000, kernel_end = 0x100800, trampoline_start = 0x104000,
     trampoline_end = 0x104100, ap_entry_sym = 0x103000, ap_stacks_sym = 0x108000, idt_sym = 0x106000,
     exception_stub_sym = (\<lambda>n. 0x102000 + 16 * of_nat n), timer_irq_stub_sym = 0x102800,
     pure_iretq_handler_sym = 0x102900\<rparr>"

definition small_pmm_start :: pmm where
  "small_pmm_start = \<lparr>con = quiet_console, mem = small_map, total_memory = 0x108000, usable_memory = 0,
     pmm_bitmap = 0, total_pages = 0, used_pages = 0, bitmap_size = 0\<rparr>"

definition small_pmm :: pmm where
  "small_pmm = pmm_init small_layout 0x9000 small_pmm_start"

lemma small_pmm_sel:
  "total_memory small_pmm = 0x108000" "total_pages small_pmm = 264" "bitmap_size small_pmm = 33"
  "pmm_bitmap small_pmm = 0x101000" "mem small_pmm = memset 0x101000 0xFF 33 small_map"
proof -
  have "load32 small_map 0x9000 = 64"
    by code_simp
  then have "bitmap_address small_layout 0x9000 small_map = 0x101000"
    by (simp add: bitmap_address_def small_layout_def PAGE_ALIGN_def)
  then show "total_memory small_pmm = 0x108000" "total_pages small_pmm = 264" "bitmap_size small_pmm = 33"
    "pmm_bitmap small_pmm = 0x101000" "mem small_pmm = memset 0x101000 0xFF 33 small_map"
    by (simp_all add: small_pmm_def pmm_init_sel small_pmm_start_def)
qed

lemma small_pmm_ok: "pmm_ok small_pmm" "used_set small_pmm = {p. p < total_pages small_pmm}"
  unfolding small_pmm_def by (rule pmm_init_used)+

theorem pmm_init_all_used_witness:
  "pmm_ok (pmm_init small_layout 0x9000 small_pmm_start)"
  using pmm_init_all_used [of small_layout "0x9000" small_pmm_start]
  by (simp add: small_layout_def Let_def)

theorem mark_region_free_exact_witness:
  "used_set (pmm_mark_region_free 0x3000 0xA000 small_pmm) = {p. p < 264} - {p. 3 \<le> p \<and> p < 13}"
  using mark_region_free_exact [of small_pmm 3 "0x3000" 13 "0xA000"] small_pmm_ok
  by (simp add: small_pmm_sel)

theorem region_free_too_much_witness:
  "1 \<notin> used_set (pmm_mark_region_free 0x3000 0x3000 small_pmm)"
  using region_free_too_much [of small_pmm 3 "0x3000" 6 "0x3000" 1] small_pmm_ok
  by (simp add: small_pmm_sel)

definition some_free :: pmm where
  "some_free = pmm_mark_region_free 0x8000 0x8000 small_pmm"

lemma some_free_ok: "pmm_ok some_free" "used_set some_free = {p. p < 264} - freed_pages 8 16"
  using mark_region_free_sets [of small_pmm 8 "0x8000" 16 "0x8000"] small_pmm_ok
  by (simp_all add: some_free_def small_pmm_sel)

lemma some_free_total: "total_pages some_free = 264"
  using mark_region_free_sets [of small_pmm 8 "0x8000" 16 "0x8000"] small_pmm_ok
  by (simp add: some_free_def small_pmm_sel pmm_same_def)

lemma page_8_free: "8 \<notin> used_set some_free" "q < 8 \<Longrightarrow> q \<in> used_set some_free"
  using order.strict_trans [of q 8 264] by (auto simp: some_free_ok freed_pages_def not_le)

lemma some_free_not_full: "used_set some_free \<noteq> {p. p < total_pages some_free}"
proof -
  have "8 \<in> {p. p < total_pages some_free}"
    by (simp add: some_free_total)
  then show ?thesis
    using page_8_free(1) by metis
qed

theorem alloc_page_lowest_witness:
  "fst (pmm_alloc_page some_free) = 0x8000"
proof -
  obtain a k' where a: "pmm_alloc_page some_free = (a, k')"
    by fastforce
  from alloc_page_lowest [OF some_free_ok(1) a] some_free_not_full
  obtain p where p: "p \<notin> used_set some_free" "{q. q < p} \<subseteq> used_set some_free" "a = p * PAGE_SIZE"
    by blast
  have "p = 8"
  proof (rule ccontr)
    assume "p \<noteq> 8"
    then consider "p < 8" | "8 < p" by fastforce
    then show False
      using p(1,2) page_8_free by cases auto
  qed
  then show ?thesis
    using a p(3) by simp
qed

theorem alloc_free_roundtrip_witness:
  "pmm_free_page (fst (pmm_alloc_page some_free)) (snd (pmm_alloc_page some_free)) = some_free"
  using alloc_free_roundtrip [OF some_free_ok(1) prod.collapse [symmetric] some_free_not_full] by blast

theorem alloc_pages_distinct_witness:
  "pmm_ok (snd (alloc_many pmm_alloc_page 3 some_free))
   \<and> distinct (filter (\<lambda>a. a \<noteq> 0) (fst (alloc_many pmm_alloc_page 3 some_free)))"
  using alloc_pages_distinct [OF some_free_ok(1) prod.collapse [symmetric]] by blast

theorem alloc_page_zero_lost_witness:
  "fst (pmm_alloc_page (pmm_mark_region_free 0 0x8000 small_pmm)) = 0"
proof -
  let ?k = "pmm_mark_region_free 0 0x8000 small_pmm"
  have k: "pmm_ok ?k" "used_set ?k = {p. p < 264} - freed_pages 0 8" "total_pages ?k = 264"
    using mark_region_free_sets [of small_pmm 0 0 8 "0x8000"] small_pmm_ok
    by (simp_all add: small_pmm_sel pmm_same_def)
  then show ?thesis
    using alloc_page_zero_lost [of ?k] by (simp add: freed_pages_def)
qed

theorem mark_free_regions_pages_witness:
  "\<exists>k'. pmm_mark_free_regions small_layout 0x9000 small_pmm = Inr k' \<and> pmm_ok k'"
proof -
  have m: "tag_type (mem small_pmm) 0x9008 = 1" "next_tag (mem small_pmm) 0x9008 = 0x9018"
    "tag_type (mem small_pmm) 0x9018 = 6" "mmap_entry_size (mem small_pmm) 0x9018 = 24"
    unfolding small_pmm_sel(5) by (code_simp, code_simp, code_simp, code_simp)
  have n: "num_mmap_entries (mem small_pmm) 0x9018 = 1" "mmap_entry_at (mem small_pmm) 0x9018 0 = 0x9028"
    unfolding small_pmm_sel(5) by (code_simp, code_simp)
  have "map_outside 0x9018 small_pmm"
    by (simp add: map_outside_def n small_pmm_sel(3,4) disjoint_below)
  moreover have "stops_at (mem small_pmm) (0x9000 + 8) 1"
    using m by (simp add: stops_at_def tag_ends_def)
  ultimately show ?thesis
    using mark_free_regions_pages [of small_pmm "0x9000" 1 "0x9018" small_layout] small_pmm_ok m
    by (auto simp: small_pmm_sel)
qed

end
