(* ===== verification/Heap.thy ===== *)
theory Heap
  imports Pmm
begin

text \<open>
  The kernel heap of \<^verbatim>\<open>c/kernel/minimal_step9.c\<close>: \<open>heap_init\<close>, the bump allocator \<open>kmalloc\<close>,
  the empty \<open>kfree\<close>, and \<open>test_heap_allocator\<close>, which the kernel runs at boot.  The contract
  of the allocator is the locale \<open>bump_allocator\<close>: blocks handed out never overlap.
\<close>

record heap = pmm +
  heap_start :: u64
  heap_current :: u64
  heap_end :: u64

section \<open>Operations\<close>

definition heap_init :: "'a heap_scheme \<Rightarrow> 'a heap_scheme" where
  "heap_init k =
     (let k = kprint [S [newline_char], Ln ''[HEAP] Initializing kernel heap...''] k;
          bitmap_end = pmm_bitmap k + bitmap_size k;
          k = k\<lparr>heap_start := PAGE_ALIGN bitmap_end\<rparr>;
          k = k\<lparr>heap_current := heap_start k\<rparr>;
          k = k\<lparr>heap_end := heap_start k + 16 * 1024 * 1024\<rparr>
      in kprint [S ''[HEAP] Heap start: '', X (heap_start k), Ln '''', Ln ''[HEAP] Heap size: 16 MB'',
           Ln ''[HEAP] Kernel heap initialized!''] k)"

definition kmalloc :: "u64 \<Rightarrow> 'a heap_scheme \<Rightarrow> u64 \<times> 'a heap_scheme" where
  "kmalloc sz k =
     (if sz = 0 then (0, k)
      else
        let sz = (sz + 15) AND NOT 15;
            addr = heap_current k;
            k = k\<lparr>heap_current := heap_current k + sz\<rparr>
        in if heap_end k \<le> heap_current k
           then (0, kprint [Ln ''[HEAP ERROR] Out of heap memory!''] k)
           else (addr, k))"

definition kfree :: "u64 \<Rightarrow> 'a heap_scheme \<Rightarrow> 'a heap_scheme" where
  "kfree ptr k = k"

text \<open>\<open>test_heap_allocator\<close>, one definition for each of its three tests; \<open>None\<close> is the early return
  after a failed allocation.\<close>

definition heap_test_1 :: "'a heap_scheme \<Rightarrow> 'a heap_scheme \<times> bool" where
  "heap_test_1 k =
     (let k = kprint [Ln ''[Test 1] Allocating single uint64_t...''] k;
          (single, k) = kmalloc 8 k in
      if single = 0 then (kprint [Ln ''[Test 1] FAILED - allocation error''] k, False)
      else
        let k = k\<lparr>mem := store64 single 0xDEADBEEF (mem k)\<rparr>;
            k = kprint [Ln ''[Test 1] PASSED - allocated and wrote value''] k
        in (kfree single k, True))"

definition heap_test_2 :: "'a heap_scheme \<Rightarrow> 'a heap_scheme \<times> bool" where
  "heap_test_2 k =
     (let k = kprint [Ln ''[Test 2] Allocating array of 100 uint32_t...''] k;
          (array, k) = kmalloc (100 * 4) k in
      if array = 0 then (kprint [Ln ''[Test 2] FAILED - allocation error''] k, False)
      else
        let k = k\<lparr>mem := for_up 0 100 (\<lambda>i. store32 (array + 4 * ucast i) (i * 2)) (mem k)\<rparr>;
            bad = find_up (0 :: u32) 100 (\<lambda>i. load32 (mem k) (array + 4 * ucast i) \<noteq> i * 2);
            k = (if bad = None then kprint [Ln ''[Test 2] PASSED - array allocated and verified''] k
                 else kprint [Ln ''[Test 2] FAILED - data corruption''] k)
        in (kfree array k, True))"

definition heap_test_3 :: "'a heap_scheme \<Rightarrow> 'a heap_scheme \<times> bool" where
  "heap_test_3 k =
     (let k = kprint [Ln ''[Test 3] Allocating struct...''] k;
          (s, k) = kmalloc 32 k in
      if s = 0 then (kprint [Ln ''[Test 3] FAILED - allocation error''] k, False)
      else
        let k = k\<lparr>mem := store64 s 0x123456789ABCDEF0 (mem k)\<rparr>;
            k = k\<lparr>mem := store32 (s + 8) 0xCAFEBABE (mem k)\<rparr>;
            k = k\<lparr>mem := for_up (0 :: u32) 16 (\<lambda>i m. m(s + 12 + ucast i := ucast i)) (mem k)\<rparr>;
            k = kprint [Ln ''[Test 3] PASSED - struct allocated and initialized''] k
        in (kfree s k, True))"

definition test_heap_allocator :: "'a heap_scheme \<Rightarrow> 'a heap_scheme" where
  "test_heap_allocator k =
     (let k = kprint [S [newline_char], Ln ''[Allocator Test] Testing C heap allocator (kmalloc/kfree)...''] k in
      case heap_test_1 k of (k, False) \<Rightarrow> k
      | (k, True) \<Rightarrow>
        (case heap_test_2 k of (k, False) \<Rightarrow> k
         | (k, True) \<Rightarrow>
           (case heap_test_3 k of (k, False) \<Rightarrow> k
            | (k, True) \<Rightarrow> kprint [Ln ''[Allocator Test] All tests passed!'', S [newline_char]] k)))"

section \<open>The allocator\<close>

lemma unat_round16:
  assumes "unat sz + 15 < 2 ^ 64"
  shows "unat ((sz + 15) AND NOT 15 :: u64) = (unat sz + 15) div 16 * 16"
proof -
  have "(15 :: u64) = mask 4"
    by (simp add: mask_eq_exp_minus_1)
  then have "unat ((sz + 15) AND NOT 15) = unat (sz + 15) div 2 ^ 4 * 2 ^ 4"
    by (simp only: unat_and_not_mask)
  also have "unat (sz + 15) = unat sz + 15"
    using assms by (subst unat_add_lt) simp_all
  finally show ?thesis by simp
qed

text \<open>The heap is below the top of the address space and the bump pointer is 16-byte aligned and
  not below its start, where no address is 0.\<close>

definition heap_ok :: "'a heap_scheme \<Rightarrow> bool" where
  "heap_ok k \<longleftrightarrow> 0 < unat (heap_start k) \<and> heap_start k \<le> heap_current k
     \<and> unat (heap_current k) mod 16 = 0"

lemma kprint_heap [simp]:
  "heap_start (kprint ms k) = heap_start k" "heap_current (kprint ms k) = heap_current k"
  "heap_end (kprint ms k) = heap_end k" "heap.more (kprint ms k) = heap.more k"
  by (simp_all add: kprint_def)

lemma heap_ok_kprint [simp]: "heap_ok (kprint ms k) = heap_ok k"
  by (simp add: heap_ok_def)

text \<open>What \<open>kmalloc\<close> reserves.\<close>

definition round16 :: "nat \<Rightarrow> nat" where
  "round16 n = (n + 15) div 16 * 16"

lemma len64: "LENGTH(64) = 64"
  by simp

lemma kmalloc_cases:
  fixes k :: "'a heap_scheme"
  assumes sz: "0 < unat sz" and fits: "unat (heap_current k) + round16 (unat sz) < 2 ^ 64"
  obtains (ok) c where "kmalloc sz k = (heap_current k, k\<lparr>heap_current := c\<rparr>)"
      "unat c = unat (heap_current k) + round16 (unat sz)" "c < heap_end k"
    | (oom) k' where "kmalloc sz k = (0, k')" "mem k' = mem k" "heap_start k' = heap_start k" "heap_end k' = heap_end k"
      "unat (heap_current k') = unat (heap_current k) + round16 (unat sz)" "heap_end k \<le> heap_current k'"
proof -
  have "(unat sz + 15) div 16 * 16 < 2 ^ 60 * 16"
    using fits by (simp add: round16_def)
  then have "(unat sz + 15) div 16 < 2 ^ 60"
    by (simp only: mult_less_cancel2)
  then have "unat sz + 15 < 2 ^ 64"
    by (simp add: div_less_iff_less_mult)
  then have r: "unat ((sz + 15) AND NOT 15) = round16 (unat sz)"
    unfolding round16_def by (rule unat_round16)
  then have cur: "unat (heap_current k + ((sz + 15) AND NOT 15)) = unat (heap_current k) + round16 (unat sz)"
    using fits by (subst unat_add_lt) (simp_all only: len64)
  have nz: "sz \<noteq> 0"
    using sz by auto
  show ?thesis
  proof (cases "heap_end k \<le> heap_current k + ((sz + 15) AND NOT 15)")
    case True
    then show ?thesis
      using nz cur by (intro oom [of "kprint [Ln ''[HEAP ERROR] Out of heap memory!'']
            (k\<lparr>heap_current := heap_current k + ((sz + 15) AND NOT 15)\<rparr>)"]) (simp_all add: kmalloc_def Let_def)
  next
    case False
    then show ?thesis
      using nz cur by (intro ok [of "heap_current k + ((sz + 15) AND NOT 15)"])
        (simp_all add: kmalloc_def Let_def)
  qed
qed

text \<open>\<open>malloc_many\<close> serves a list of requests in order.\<close>

fun malloc_many :: "(u64 \<Rightarrow> 's \<Rightarrow> u64 \<times> 's) \<Rightarrow> u64 list \<Rightarrow> 's \<Rightarrow> u64 list \<times> 's" where
  "malloc_many malloc [] s = ([], s)"
| "malloc_many malloc (n # ns) s =
     (let (a, s') = malloc n s; (as, s'') = malloc_many malloc ns s' in (a # as, s''))"

text \<open>The contract of a bump allocator: a request costs at most \<open>cost n\<close> bytes of address space;
  while the bump pointer \<open>brk\<close> does not pass the top of the address space, a block lies between
  the old and the new bump pointer and below \<open>top\<close>.\<close>

locale bump_allocator =
  fixes malloc :: "u64 \<Rightarrow> 's \<Rightarrow> u64 \<times> 's"
    and brk :: "'s \<Rightarrow> nat"
    and limit :: "'s \<Rightarrow> nat"
    and cost :: "u64 \<Rightarrow> nat"
    and inv :: "'s \<Rightarrow> bool"
  assumes malloc_inv: "inv s \<Longrightarrow> brk s + cost n < 2 ^ 64 \<Longrightarrow> malloc n s = (a, s') \<Longrightarrow> inv s'"
    and malloc_brk: "inv s \<Longrightarrow> brk s + cost n < 2 ^ 64 \<Longrightarrow> malloc n s = (a, s') \<Longrightarrow>
      brk s \<le> brk s' \<and> brk s' \<le> brk s + cost n \<and> limit s' = limit s"
    and malloc_block: "inv s \<Longrightarrow> brk s + cost n < 2 ^ 64 \<Longrightarrow> malloc n s = (a, s') \<Longrightarrow> a \<noteq> 0 \<Longrightarrow>
      brk s \<le> unat a \<and> unat a + unat n \<le> brk s' \<and> brk s' \<le> limit s"
begin

lemma malloc_many_blocks:
  assumes "inv s" "brk s + sum_list (map cost ns) < 2 ^ 64" "malloc_many malloc ns s = (as, s')"
  shows "inv s' \<and> length as = length ns \<and> brk s \<le> brk s' \<and> limit s' = limit s
    \<and> (\<forall>i<length as. as ! i \<noteq> 0 \<longrightarrow> brk s \<le> unat (as ! i) \<and> unat (as ! i) + unat (ns ! i) \<le> limit s)
    \<and> (\<forall>j<length as. \<forall>i<j. as ! i \<noteq> 0 \<longrightarrow> as ! j \<noteq> 0 \<longrightarrow> unat (as ! i) + unat (ns ! i) \<le> unat (as ! j))"
  using assms
proof (induction ns arbitrary: s as)
  case (Cons n ns)
  then obtain a t bs where a: "malloc n s = (a, t)" and bs: "malloc_many malloc ns t = (bs, s')"
    and as_eq: "as = a # bs"
    by (auto split: prod.splits)
  have n: "brk s + cost n < 2 ^ 64"
    using Cons.prems(2) by simp
  have t: "inv t" "brk s \<le> brk t" "brk t \<le> brk s + cost n" "limit t = limit s"
    using malloc_inv [OF Cons.prems(1) n a] malloc_brk [OF Cons.prems(1) n a] by blast+
  have "brk t + sum_list (map cost ns) < 2 ^ 64"
    using t(3) Cons.prems(2) by simp
  note IH = Cons.IH [OF t(1) this bs]
  have blk: "brk s \<le> unat a \<and> unat a + unat n \<le> brk t \<and> brk t \<le> limit s" if "a \<noteq> 0"
    using malloc_block [OF Cons.prems(1) n a that] .
  have inner: "as ! i \<noteq> 0 \<longrightarrow> brk s \<le> unat (as ! i) \<and> unat (as ! i) + unat ((n # ns) ! i) \<le> limit s"
    if "i < length as" for i
    using that IH blk t(2,4) by (cases i) (auto simp: as_eq intro: order.trans)
  have ordered: "unat (as ! i) + unat ((n # ns) ! i) \<le> unat (as ! j)"
    if "j < length as" and ij: "i < j" and "as ! i \<noteq> 0" "as ! j \<noteq> 0" for i j
  proof -
    obtain j' where j: "j = Suc j'"
      using ij by (cases j) auto
    then have j': "j' < length bs" "bs ! j' \<noteq> 0"
      using that by (simp_all add: as_eq)
    show ?thesis
    proof (cases i)
      case 0
      have "brk t \<le> unat (bs ! j')"
        using IH j' by blast
      then show ?thesis
        using 0 j blk that(3) by (simp add: as_eq)
    next
      case (Suc i')
      then show ?thesis
        using IH j j' ij that(3) by (simp add: as_eq)
    qed
  qed
  show ?case
    using IH t inner ordered by (auto simp: as_eq)
qed simp

end

lemma round16_ge: "n \<le> round16 n"
  by (simp add: round16_def)

lemma round16_mod: "round16 n mod 16 = 0"
  by (simp add: round16_def)

lemma kmalloc_zero [simp]: "kmalloc 0 k = (0, k)"
  by (simp add: kmalloc_def)

lemma kmalloc_inv:
  fixes k :: "'a heap_scheme"
  assumes ok: "heap_ok k" and fits: "unat (heap_current k) + round16 (unat sz) < 2 ^ 64"
    and call: "kmalloc sz k = (a, k')"
  shows "heap_ok k'"
    "unat (heap_current k) \<le> unat (heap_current k')
      \<and> unat (heap_current k') \<le> unat (heap_current k) + round16 (unat sz)
      \<and> unat (heap_end k') = unat (heap_end k)"
    "a \<noteq> 0 \<Longrightarrow> unat (heap_current k) \<le> unat a \<and> unat a + unat sz \<le> unat (heap_current k')
      \<and> unat (heap_current k') \<le> unat (heap_end k)"
proof -
  have "heap_ok k' \<and> unat (heap_current k) \<le> unat (heap_current k')
    \<and> unat (heap_current k') \<le> unat (heap_current k) + round16 (unat sz) \<and> heap_end k' = heap_end k
    \<and> (a \<noteq> 0 \<longrightarrow> unat (heap_current k) \<le> unat a \<and> unat a + unat sz \<le> unat (heap_current k')
        \<and> unat (heap_current k') \<le> unat (heap_end k))"
  proof (cases "sz = 0")
    case True
    then show ?thesis
      using call ok by simp
  next
    case False
    then have "0 < unat sz"
      by (simp add: unat_gt_0)
    from this fits show ?thesis
    proof (cases rule: kmalloc_cases)
      case (ok c)
      then have "k' = k\<lparr>heap_current := c\<rparr>" "a = heap_current k"
        using call by simp_all
      then show ?thesis
        using ok assms(1) round16_ge [of "unat sz"] round16_mod [of "unat sz"]
        by (auto simp: heap_ok_def word_le_nat_alt word_less_nat_alt mod_add_eq)
    next
      case (oom k'')
      then show ?thesis
        using call assms(1) round16_mod [of "unat sz"] by (auto simp: heap_ok_def word_le_nat_alt)
    qed
  qed
  then show "heap_ok k'"
    "unat (heap_current k) \<le> unat (heap_current k')
      \<and> unat (heap_current k') \<le> unat (heap_current k) + round16 (unat sz)
      \<and> unat (heap_end k') = unat (heap_end k)"
    "a \<noteq> 0 \<Longrightarrow> unat (heap_current k) \<le> unat a \<and> unat a + unat sz \<le> unat (heap_current k')
      \<and> unat (heap_current k') \<le> unat (heap_end k)"
    by simp_all
qed

interpretation ba: bump_allocator
    "kmalloc :: u64 \<Rightarrow> 'a heap_scheme \<Rightarrow> u64 \<times> 'a heap_scheme"
    "\<lambda>k. unat (heap_current k)" "\<lambda>k. unat (heap_end k)" "\<lambda>n. round16 (unat n)" heap_ok
  by unfold_locales (erule (2) kmalloc_inv(1), erule (2) kmalloc_inv(2), erule (3) kmalloc_inv(3))

text \<open>A \<open>kmalloc\<close> that does not pass the top of the address space returns the bump pointer,
  which is 16-byte aligned and not 0, exactly when the rounded size ends below the end of the heap,
  and otherwise reports an error and returns 0; in both cases the bump pointer advances by the size
  rounded up to 16, so a failed request is charged as well.\<close>

theorem kmalloc_result:
  assumes "heap_ok k" and "0 < unat sz" and "unat (heap_current k) + round16 (unat sz) < 2 ^ 64"
    and "kmalloc sz k = (a, k')"
  shows "heap_ok k' \<and> unat (heap_current k') = unat (heap_current k) + round16 (unat sz)
    \<and> (if unat (heap_current k) + round16 (unat sz) < unat (heap_end k)
       then a = heap_current k \<and> a \<noteq> 0 \<and> unat a mod 16 = 0 \<and> k' = k\<lparr>heap_current := heap_current k'\<rparr>
       else a = 0 \<and> mem k' = mem k \<and> heap_end k' = heap_end k)"
  using assms(2,3)
proof (cases rule: kmalloc_cases)
  case (ok c)
  then have eqs: "a = heap_current k" "k' = k\<lparr>heap_current := c\<rparr>"
    using assms(4) by simp_all
  have "unat (heap_current k) \<noteq> 0"
    using assms(1) by (auto simp: heap_ok_def word_le_nat_alt)
  then show ?thesis
    using ok kmalloc_inv(1) [OF assms(1,3,4)] assms(1) by (auto simp: eqs word_less_nat_alt heap_ok_def unat_eq_0)
next
  case (oom k'')
  then show ?thesis
    using kmalloc_inv(1) [OF assms(1,3,4)] assms(4) by (auto simp: word_le_nat_alt)
qed


text \<open>After a request has failed, every later request fails too (until the bump pointer wraps),
  even one that would have fitted before: \<open>kmalloc\<close> does not take the failed request back.\<close>

theorem kmalloc_failure_sticky:
  assumes "heap_ok k" and "0 < unat sz" and "unat (heap_current k) + round16 (unat sz) + round16 (unat n) < 2 ^ 64"
    and "kmalloc sz k = (0, k')"
  shows "fst (kmalloc n k') = 0"
proof -
  have fits: "unat (heap_current k) + round16 (unat sz) < 2 ^ 64"
    using assms(3) by simp
  have "heap_end k' \<le> heap_current k' \<and> unat (heap_current k') = unat (heap_current k) + round16 (unat sz)"
    using assms(2) fits
  proof (cases rule: kmalloc_cases)
    case (ok c)
    then have "heap_current k = 0"
      using assms(4) by simp
    then show ?thesis
      using assms(1) by (simp_all add: heap_ok_def word_le_nat_alt)
  next
    case (oom k'')
    then show ?thesis
      using assms(4) by simp_all
  qed
  then have full: "heap_end k' \<le> heap_current k'"
    and cur: "unat (heap_current k') = unat (heap_current k) + round16 (unat sz)"
    by blast+
  show ?thesis
  proof (cases "n = 0")
    case False
    then have "0 < unat n" "unat (heap_current k') + round16 (unat n) < 2 ^ 64"
      using assms(3) cur by (simp_all add: unat_gt_0)
    then show ?thesis
    proof (cases rule: kmalloc_cases)
      case (ok c)
      then show ?thesis
        using full by (simp add: word_le_nat_alt word_less_nat_alt)
    qed simp
  qed simp
qed

text \<open>A request of more than \<open>2 ^ 64 - 16\<close> bytes wraps around when it is rounded up: \<open>kmalloc\<close>
  returns the bump pointer as if it had succeeded and reserves nothing, so the next request
  returns the same block.\<close>

theorem kmalloc_huge_wraps:
  assumes "2 ^ 64 - 16 < unat sz" and "heap_current k < heap_end k"
  shows "kmalloc sz k = (heap_current k, k)"
proof -
  have "unat (sz + 15) < 16"
    using assms(1) unat_add_lem [of sz 15] unat_plus_if' [of sz 15] unsigned_less [of sz, where 'a = nat]
    by auto
  moreover have "(15 :: u64) = mask 4"
    by (simp add: mask_eq_exp_minus_1)
  ultimately have "unat ((sz + 15) AND NOT 15) = 0"
    by (simp only: unat_and_not_mask) simp
  then have z: "(sz + 15) AND NOT 15 = 0"
    by (simp only: unat_eq_0)
  have "sz \<noteq> 0"
    using assms(1) by auto
  moreover have "\<not> heap_end k \<le> heap_current k"
    using assms(2) by simp
  ultimately show ?thesis
    unfolding kmalloc_def Let_def z by simp
qed

section \<open>Initialisation and the boot test\<close>

lemma heap_init_sel:
  "heap_start (heap_init k) = PAGE_ALIGN (pmm_bitmap k + bitmap_size k)"
  "heap_current (heap_init k) = PAGE_ALIGN (pmm_bitmap k + bitmap_size k)"
  "heap_end (heap_init k) = PAGE_ALIGN (pmm_bitmap k + bitmap_size k) + 0x1000000"
  "mem (heap_init k) = mem k" "used_set (heap_init k) = used_set k" "total_pages (heap_init k) = total_pages k"
  "pmm_ok (heap_init k) = pmm_ok k" "kernel_pages ld (heap_init k) = kernel_pages ld k"
  by (simp_all add: heap_init_def Let_def used_set_def pmm_ok_def kernel_pages_def kprint_def pmm_is_page_used_def)

text \<open>\<open>heap_init\<close> puts 16 MB of heap on the first page boundary at or after the end of the bitmap,
  establishes the heap invariant, and reserves none of its pages: no page of the heap is among the
  pages that the page allocator was told the kernel and the bitmap use, and the set of used pages
  stays as it was.\<close>

theorem heap_init_not_reserved:
  assumes "unat (pmm_bitmap k) + unat (bitmap_size k) < 2 ^ 63" and "0 < unat (pmm_bitmap k)"
    and "k' = heap_init k"
  shows "heap_ok k' \<and> heap_current k' = heap_start k'
    \<and> unat (heap_end k') = unat (heap_start k') + 16 * 1024 * 1024
    \<and> unat (heap_start k') mod 4096 = 0 \<and> unat (pmm_bitmap k) + unat (bitmap_size k) \<le> unat (heap_start k')
    \<and> used_set k' = used_set k
    \<and> kernel_pages ld k' \<inter> {p. heap_start k' div PAGE_SIZE \<le> p} = {}"
proof -
  define b where "b = pmm_bitmap k + bitmap_size k"
  have ub: "unat b = unat (pmm_bitmap k) + unat (bitmap_size k)"
    unfolding b_def using assms(1) by (subst unat_add_lt) simp_all
  have lt: "unat b + 4096 < 2 ^ 64"
    using assms(1) ub by simp
  note al = PAGE_ALIGN_props [OF lt] and eq = unat_PAGE_ALIGN [OF lt]
  have e: "unat (PAGE_ALIGN b + 0x1000000) = unat (PAGE_ALIGN b) + 16 * 1024 * 1024"
    using al(2) assms(1) ub by (subst unat_add_lt) simp_all
  have "b + PAGE_SIZE - 1 = b + 4095"
    by simp
  moreover have "unat (b + 4095) = unat b + 4095"
    using lt by (subst unat_add_lt) simp_all
  ultimately have "unat (b + PAGE_SIZE - 1) = unat b + 4095"
    by metis
  then have "(b + PAGE_SIZE - 1) div PAGE_SIZE = PAGE_ALIGN b div PAGE_SIZE"
    by (simp add: word_unat_eq_iff word_nat eq)
  then have "kernel_pages ld k' \<inter> {p. PAGE_ALIGN b div PAGE_SIZE \<le> p} = {}"
    by (auto simp: kernel_pages_def assms(3) heap_init_sel b_def [symmetric] heap_init_def Let_def kprint_def)
  moreover have "unat (PAGE_ALIGN b) mod 16 = 0"
    by (simp add: eq mod_mult_right_eq [symmetric])
  moreover have "b \<le> PAGE_ALIGN b" "0 < unat b"
    using al(1) ub assms(2) by simp_all
  ultimately show ?thesis
    unfolding assms(3) heap_init_sel heap_ok_def b_def [symmetric]
    using e al ub by (auto simp: word_le_nat_alt)
qed

lemma array_loop:
  fixes p :: u64 and m :: memory
  defines "m' \<equiv> for_up (0 :: u32) 100 (\<lambda>i. store32 (p + 4 * ucast i) (i * 2)) m"
  shows "\<And>i. i < 100 \<Longrightarrow> load32 m' (p + 4 * ucast i) = i * 2" "\<And>x. \<not> in_range p 400 x \<Longrightarrow> m' x = m x"
proof -
  have off: "p + 4 * ucast i = p + of_nat (4 * unat i)" for i :: u32
    by simp
  have "(\<forall>i<100. load32 m' (p + 4 * ucast i) = i * 2) \<and> (\<forall>x. \<not> in_range p 400 x \<longrightarrow> m' x = m x)"
    unfolding m'_def
  proof (rule for_up_inv [where i = 0 and P = "\<lambda>j t. (\<forall>i<j. load32 t (p + 4 * ucast i) = i * 2)
      \<and> (\<forall>x. \<not> in_range p 400 x \<longrightarrow> t x = m x)"])
    fix j :: u32 and t
    assume j: "j < 100" and t: "(\<forall>i<j. load32 t (p + 4 * ucast i) = i * 2) \<and> (\<forall>x. \<not> in_range p 400 x \<longrightarrow> t x = m x)"
    have uj: "unat j < 100"
      using unat_mono [OF j] by simp
    have "load32 (store32 (p + 4 * ucast j) (j * 2) t) (p + 4 * ucast i) = i * 2" if "i < j" for i
    proof -
      have "unat i < unat j"
        using that by (rule unat_mono)
      then have "disjoint_ranges (p + of_nat (4 * unat i)) 4 (p + of_nat (4 * unat j)) 4"
        using uj by (intro disjoint_offsets) simp_all
      then show ?thesis
        using t that unfolding off by (simp only: load32_store32_disjoint)
    qed
    moreover have "store32 (p + 4 * ucast j) (j * 2) t x = m x" if "\<not> in_range p 400 x" for x
    proof -
      have "\<not> in_range (p + of_nat (4 * unat j)) 4 x"
        using that in_range_offset [of p "4 * unat j" 4 x 400] uj by auto
      then show ?thesis
        using t that unfolding off store32_def by (subst store_le_other) blast+
    qed
    ultimately show "(\<forall>i<j + 1. load32 (store32 (p + 4 * ucast j) (j * 2) t) (p + 4 * ucast i) = i * 2)
      \<and> (\<forall>x. \<not> in_range p 400 x \<longrightarrow> store32 (p + 4 * ucast j) (j * 2) t x = m x)"
      by (auto simp: less_inc_iff [OF j])
  qed simp_all
  then show "\<And>i. i < 100 \<Longrightarrow> load32 m' (p + 4 * ucast i) = i * 2" "\<And>x. \<not> in_range p 400 x \<Longrightarrow> m' x = m x"
    by blast+
qed

lemma round16_test_sizes [simp]: "round16 8 = 16" "round16 400 = 400" "round16 32 = 32"
  by (simp_all add: round16_def)

lemma kmalloc_fits:
  fixes k :: "'a heap_scheme"
  assumes ok: "heap_ok k" and n: "0 < unat n" and fits: "unat (heap_current k) + round16 (unat n) < unat (heap_end k)"
  shows "\<exists>c. kmalloc n k = (heap_current k, k\<lparr>heap_current := c\<rparr>) \<and> unat c = unat (heap_current k) + round16 (unat n)
    \<and> heap_current k \<noteq> 0 \<and> heap_ok (k\<lparr>heap_current := c\<rparr>)"
proof -
  have lt: "unat (heap_current k) + round16 (unat n) < 2 ^ 64"
    using fits unsigned_less [of "heap_end k", where 'a = nat] by simp
  have nz: "heap_current k \<noteq> 0"
    using ok by (auto simp: heap_ok_def word_le_nat_alt)
  from n lt show ?thesis
  proof (cases rule: kmalloc_cases)
    case (ok c)
    then show ?thesis
      using nz kmalloc_inv(1) [OF assms(1) lt ok(1)] by blast
  next
    case (oom k')
    then show ?thesis
      using fits by (simp add: word_le_nat_alt)
  qed
qed

text \<open>Each test, when its block fits: what it prints, and that it writes its block only.\<close>

lemma heap_test_1_ok:
  fixes k :: "'a heap_scheme"
  assumes "heap_ok k" "unat (heap_current k) + 16 < unat (heap_end k)"
  shows "\<exists>k'. heap_test_1 k = (k', True) \<and> heap_ok k' \<and> unat (heap_current k') = unat (heap_current k) + 16
    \<and> heap_end k' = heap_end k \<and> load64 (mem k') (heap_current k) = 0xDEADBEEF
    \<and> (\<forall>x. \<not> in_range (heap_current k) 8 x \<longrightarrow> mem k' x = mem k x)
    \<and> con k' = say [Ln ''[Test 1] Allocating single uint64_t...'',
        Ln ''[Test 1] PASSED - allocated and wrote value''] (con k)"
  using kmalloc_fits [of "kprint [Ln ''[Test 1] Allocating single uint64_t...''] k" 8] assms
  by (auto simp: heap_test_1_def Let_def kfree_def heap_ok_def) (simp add: store64_def store_le_other)

lemma heap_test_2_ok:
  fixes k :: "'a heap_scheme"
  assumes "heap_ok k" "unat (heap_current k) + 400 < unat (heap_end k)"
  shows "\<exists>k'. heap_test_2 k = (k', True) \<and> heap_ok k' \<and> unat (heap_current k') = unat (heap_current k) + 400
    \<and> heap_end k' = heap_end k \<and> (\<forall>i<100. load32 (mem k') (heap_current k + 4 * ucast i) = i * 2)
    \<and> (\<forall>x. \<not> in_range (heap_current k) 400 x \<longrightarrow> mem k' x = mem k x)
    \<and> con k' = say [Ln ''[Test 2] Allocating array of 100 uint32_t...'',
        Ln ''[Test 2] PASSED - array allocated and verified''] (con k)"
proof -
  let ?k = "kprint [Ln ''[Test 2] Allocating array of 100 uint32_t...''] k" and ?a = "heap_current k"
  obtain c where c: "kmalloc 400 ?k = (?a, ?k\<lparr>heap_current := c\<rparr>)" "unat c = unat ?a + 400" "?a \<noteq> 0"
    "heap_ok (?k\<lparr>heap_current := c\<rparr>)"
    using kmalloc_fits [of ?k 400] assms by auto
  let ?m = "for_up (0 :: u32) 100 (\<lambda>i. store32 (?a + 4 * ucast i) (i * 2)) (mem k)"
  have "find_up (0 :: u32) 100 (\<lambda>i. load32 ?m (?a + 4 * ucast i) \<noteq> i * 2) = None"
    unfolding find_up_None using array_loop(1) by blast
  then have "heap_test_2 k = (kprint [Ln ''[Test 2] PASSED - array allocated and verified'']
      (?k\<lparr>heap_current := c, mem := ?m\<rparr>), True)"
    using c by (simp add: heap_test_2_def Let_def kfree_def)
  then show ?thesis
    using c by (simp add: heap_ok_def array_loop)
qed

lemma heap_test_3_ok:
  fixes k :: "'a heap_scheme"
  assumes "heap_ok k" "unat (heap_current k) + 32 < unat (heap_end k)"
  shows "\<exists>k'. heap_test_3 k = (k', True) \<and> heap_ok k' \<and> unat (heap_current k') = unat (heap_current k) + 32
    \<and> (\<forall>x. \<not> in_range (heap_current k) 28 x \<longrightarrow> mem k' x = mem k x)
    \<and> con k' = say [Ln ''[Test 3] Allocating struct...'',
        Ln ''[Test 3] PASSED - struct allocated and initialized''] (con k)"
proof -
  let ?k = "kprint [Ln ''[Test 3] Allocating struct...''] k" and ?s = "heap_current k"
  obtain c where c: "kmalloc 32 ?k = (?s, ?k\<lparr>heap_current := c\<rparr>)" "unat c = unat ?s + 32" "?s \<noteq> 0"
    "heap_ok (?k\<lparr>heap_current := c\<rparr>)"
    using kmalloc_fits [of ?k 32] assms by auto
  let ?m = "store32 (?s + 8) 0xCAFEBABE (store64 ?s 0x123456789ABCDEF0 (mem k))"
  let ?m' = "for_up (0 :: u32) 16 (\<lambda>i m. m(?s + 12 + ucast i := ucast i)) ?m"
  have "?m' x = mem k x" if x: "\<not> in_range ?s 28 x" for x
  proof (rule for_up_preserves [where P = "\<lambda>t. t x = mem k x"])
    have "\<not> in_range (?s + of_nat 0) 8 x" "\<not> in_range (?s + of_nat 8) 4 x"
      using x in_range_offset [of ?s _ _ x 28] by (force, force)
    then show "?m x = mem k x"
      by (simp add: store32_def store64_def store_le_other)
  next
    fix j :: u32 and t :: memory
    assume "j < 16" and t: "t x = mem k x"
    then have "unat j < 16"
      using unat_mono [of j 16] by simp
    then have "in_range ?s 28 (?s + of_nat (12 + unat j))"
      by (intro in_range_nth) simp_all
    moreover have "?s + of_nat (12 + unat j) = ?s + 12 + ucast j"
      by (simp add: add.assoc)
    ultimately have "x \<noteq> ?s + 12 + ucast j"
      using x by metis
    then show "(t(?s + 12 + ucast j := ucast j)) x = mem k x"
      using t by simp
  qed
  then show ?thesis
    using c by (simp add: heap_test_3_def Let_def kfree_def heap_ok_def)
qed

definition heap_test_output :: "msg list" where
  "heap_test_output = [S [newline_char], Ln ''[Allocator Test] Testing C heap allocator (kmalloc/kfree)...'',
     Ln ''[Test 1] Allocating single uint64_t...'', Ln ''[Test 1] PASSED - allocated and wrote value'',
     Ln ''[Test 2] Allocating array of 100 uint32_t...'', Ln ''[Test 2] PASSED - array allocated and verified'',
     Ln ''[Test 3] Allocating struct...'', Ln ''[Test 3] PASSED - struct allocated and initialized'',
     Ln ''[Allocator Test] All tests passed!'', S [newline_char]]"

lemma test_heap_effect:
  assumes "heap_ok k" and "unat (heap_current k) + 448 < unat (heap_end k)" and "unat (heap_end k) < 2 ^ 63"
    and "k' = test_heap_allocator k" and "a = heap_current k"
  shows "con k' = say heap_test_output (con k) \<and> unat (heap_current k') = unat a + 448
    \<and> load64 (mem k') a = 0xDEADBEEF \<and> (\<forall>i<100. load32 (mem k') (a + 16 + 4 * ucast i) = i * 2)
    \<and> heap_ok k' \<and> (\<forall>x. \<not> in_range a 448 x \<longrightarrow> mem k' x = mem k x)"
proof -
  let ?k0 = "kprint [S [newline_char], Ln ''[Allocator Test] Testing C heap allocator (kmalloc/kfree)...''] k"
  obtain k1 where k1: "heap_test_1 ?k0 = (k1, True)" "heap_ok k1" "unat (heap_current k1) = unat a + 16"
    "heap_end k1 = heap_end k" "load64 (mem k1) a = 0xDEADBEEF"
    "\<And>x. \<not> in_range a 8 x \<Longrightarrow> mem k1 x = mem k x"
    "con k1 = say [Ln ''[Test 1] Allocating single uint64_t...'',
        Ln ''[Test 1] PASSED - allocated and wrote value''] (con ?k0)"
    using heap_test_1_ok [of ?k0] assms by auto
  obtain k2 where k2: "heap_test_2 k1 = (k2, True)" "heap_ok k2" "unat (heap_current k2) = unat a + 416"
    "heap_end k2 = heap_end k" "\<forall>i<100. load32 (mem k2) (heap_current k1 + 4 * ucast i) = i * 2"
    "\<And>x. \<not> in_range (heap_current k1) 400 x \<Longrightarrow> mem k2 x = mem k1 x"
    "con k2 = say [Ln ''[Test 2] Allocating array of 100 uint32_t...'',
        Ln ''[Test 2] PASSED - array allocated and verified''] (con k1)"
    using heap_test_2_ok [of k1] k1 assms(2,5) by (auto simp: add.commute)
  obtain k3 where k3: "heap_test_3 k2 = (k3, True)" "heap_ok k3" "unat (heap_current k3) = unat a + 448"
    "\<And>x. \<not> in_range (heap_current k2) 28 x \<Longrightarrow> mem k3 x = mem k2 x"
    "con k3 = say [Ln ''[Test 3] Allocating struct...'',
        Ln ''[Test 3] PASSED - struct allocated and initialized''] (con k2)"
    using heap_test_3_ok [of k2] k2 assms(2,5) by (auto simp: add.commute)
  have k': "k' = kprint [Ln ''[Allocator Test] All tests passed!'', S [newline_char]] k3"
    using k1(1) k2(1) k3(1) by (simp add: assms(4) test_heap_allocator_def Let_def)
  have a63: "unat a + 448 < 2 ^ 63"
    using assms(2,3,5) by simp
  have c1: "heap_current k1 = a + of_nat 16" and c2: "heap_current k2 = a + of_nat 416"
    using k1(3) k2(3) a63 unat_add_const_lt [of a 16] unat_add_const_lt [of a 416]
    by (simp_all add: word_unat_eq_iff)
  have first: "load64 (mem k3) a = load64 (mem k1) a"
  proof -
    have "load_le 8 (mem k3) a = (load_le 8 (mem k2) a :: u64)"
      using disjoint_offsets [of 0 8 416 28 a] k3(4) by (intro load_outside) (simp_all add: c2)
    also have "\<dots> = load_le 8 (mem k1) a"
      using disjoint_offsets [of 0 8 16 400 a] k2(6) by (intro load_outside) (simp_all add: c1)
    finally show ?thesis by (simp add: load64_def)
  qed
  have array: "load32 (mem k3) (a + 16 + 4 * ucast i) = i * 2" if i: "i < 100" for i :: u32
  proof -
    have ui: "unat i < 100"
      using unat_mono [OF i] by simp
    have addr: "a + 16 + 4 * ucast i = a + of_nat (16 + 4 * unat i)"
      by (simp add: add.assoc)
    have "load_le 4 (mem k3) (a + 16 + 4 * ucast i) = (load_le 4 (mem k2) (a + 16 + 4 * ucast i) :: u32)"
      unfolding addr using disjoint_offsets [of "16 + 4 * unat i" 4 416 28 a] ui
      by (intro load_outside [OF k3(4)]) (simp_all add: c2)
    then show ?thesis
      using k2(5) i by (simp add: load32_def c1)
  qed
  have frame: "mem k3 x = mem k x" if "\<not> in_range a 448 x" for x
  proof -
    have "\<not> in_range (a + of_nat 0) 8 x" "\<not> in_range (a + of_nat 16) 400 x" "\<not> in_range (a + of_nat 416) 28 x"
      using that in_range_offset [of a _ _ x 448] by (force, force, force)
    then show ?thesis
      using k1(6) k2(6) k3(4) by (simp add: c1 c2)
  qed
  show ?thesis
    using frame k1(5,7) k2(7) k3(2,3,5) first array by (simp add: k' heap_test_output_def)
qed

text \<open>What the tests can change on any path.\<close>

definition only_heap :: "'a heap_scheme \<Rightarrow> 'a heap_scheme \<Rightarrow> bool" where
  "only_heap k t \<longleftrightarrow> t = k\<lparr>con := con t, heap_current := heap_current t, mem := mem t\<rparr>"

lemma only_heap_kprint: "only_heap k (kprint ms k)"
  by (simp add: only_heap_def kprint_def)

lemma only_heap_mem: "only_heap k (k\<lparr>mem := m\<rparr>)"
  by (simp add: only_heap_def)

lemma only_heap_trans: "only_heap k t \<Longrightarrow> only_heap t u \<Longrightarrow> only_heap k u"
  by (cases k, cases t, cases u) (simp add: only_heap_def)

lemma only_heap_kmalloc: "only_heap k (snd (kmalloc n k))"
  by (simp add: kmalloc_def Let_def only_heap_def kprint_def)

lemma only_heap_steps: "only_heap k t \<Longrightarrow> only_heap k (kprint ms t)" "only_heap k t \<Longrightarrow> only_heap k (t\<lparr>mem := m\<rparr>)"
  using only_heap_trans only_heap_kprint only_heap_mem by blast+

lemma only_heap_tests:
  "only_heap k (fst (heap_test_1 k))" "only_heap k (fst (heap_test_2 k))" "only_heap k (fst (heap_test_3 k))"
proof -
  have t: "kmalloc n (kprint ms k) = (a, t) \<Longrightarrow> only_heap k t" for n ms a t
    using only_heap_trans [OF only_heap_kprint only_heap_kmalloc] by (metis snd_conv)
  show "only_heap k (fst (heap_test_1 k))"
    by (auto simp: heap_test_1_def Let_def kfree_def split: prod.split dest!: t intro: only_heap_steps)
  show "only_heap k (fst (heap_test_2 k))"
    by (auto simp: heap_test_2_def Let_def kfree_def split: prod.split dest!: t intro: only_heap_steps)
  show "only_heap k (fst (heap_test_3 k))"
    by (auto simp: heap_test_3_def Let_def kfree_def split: prod.split dest!: t intro: only_heap_steps)
qed

lemma only_heap_test_heap: "only_heap k (test_heap_allocator k)"
proof -
  let ?k = "kprint [S [newline_char], Ln ''[Allocator Test] Testing C heap allocator (kmalloc/kfree)...''] k"
  obtain k1 b1 where 1: "heap_test_1 ?k = (k1, b1)" by fastforce
  obtain k2 b2 where 2: "heap_test_2 k1 = (k2, b2)" by fastforce
  obtain k3 b3 where 3: "heap_test_3 k2 = (k3, b3)" by fastforce
  have 4: "only_heap ?k k1" "only_heap k1 k2" "only_heap k2 k3"
    using only_heap_tests(1) [of ?k] only_heap_tests(2) [of k1] only_heap_tests(3) [of k2] 1 2 3 by simp_all
  have 5: "only_heap k k1" "only_heap k k2" "only_heap k (kprint ms k3)" for ms
    using only_heap_trans [OF only_heap_kprint 4(1)] only_heap_trans [OF _ 4(2)] only_heap_trans [OF _ 4(3)]
      only_heap_trans [OF _ only_heap_kprint] by blast+
  have "only_heap k k3"
    using only_heap_trans [OF 5(2) 4(3)] .
  then show ?thesis
    using 2 3 5 by (cases b1; cases b2; cases b3) (simp_all add: test_heap_allocator_def Let_def 1)
qed

text \<open>With more than 448 bytes of heap left, \<open>test_heap_allocator\<close> passes its three tests, prints
  exactly the passing messages, uses 448 bytes (16, 400 and 32), and the three blocks do not
  disturb each other: after the last test the first block still holds \<open>0xDEADBEEF\<close> and the array
  still holds \<open>i * 2\<close> at every index.\<close>

theorem test_heap_allocator_passes:
  assumes "heap_ok k" and "unat (heap_current k) + 448 < unat (heap_end k)" and "unat (heap_end k) < 2 ^ 63"
    and "k' = test_heap_allocator k" and "a = heap_current k"
  shows "con k' = say heap_test_output (con k) \<and> unat (heap_current k') = unat a + 448
    \<and> load64 (mem k') a = 0xDEADBEEF \<and> (\<forall>i<100. load32 (mem k') (a + 16 + 4 * ucast i) = i * 2)"
  using test_heap_effect [OF assms] by blast

section \<open>The page allocator and the heap share memory\<close>

definition small_heap_pmm :: "u64 \<Rightarrow> heap" where
  "small_heap_pmm bytes = \<lparr>con = quiet_console, mem = small_map, total_memory = bytes, usable_memory = 0,
     pmm_bitmap = 0, total_pages = 0, used_pages = 0, bitmap_size = 0,
     heap_start = 0, heap_current = 0, heap_end = 0\<rparr>"

definition small_heap :: heap where
  "small_heap = heap_init (pmm_init small_layout 0x9000 (small_heap_pmm 0x108000))"

lemma small_map_bitmap: "bitmap_address small_layout 0x9000 small_map = 0x101000"
proof -
  have "load32 small_map 0x9000 = 64"
    by code_simp
  then show ?thesis
    by (simp add: bitmap_address_def small_layout_def PAGE_ALIGN_def)
qed

lemma small_heap_sel:
  "heap_ok small_heap" "heap_current small_heap = 0x102000" "heap_end small_heap = 0x1102000"
proof -
  have "pmm_bitmap (pmm_init small_layout 0x9000 (small_heap_pmm 0x108000)) = 0x101000"
    "bitmap_size (pmm_init small_layout 0x9000 (small_heap_pmm 0x108000)) = 33"
    by (simp_all add: pmm_init_sel small_heap_pmm_def small_map_bitmap)
  then show "heap_ok small_heap" "heap_current small_heap = 0x102000" "heap_end small_heap = 0x1102000"
    by (simp_all add: small_heap_def heap_init_sel PAGE_ALIGN_def heap_ok_def)
qed

theorem kmalloc_result_witness:
  "fst (kmalloc 100 small_heap) = 0x102000 \<and> unat (heap_current (snd (kmalloc 100 small_heap))) = 0x102070"
  using kmalloc_result [OF small_heap_sel(1) _ _ prod.collapse [symmetric], of 100]
  by (auto simp: small_heap_sel round16_def)


theorem kmalloc_failure_sticky_witness:
  "fst (kmalloc 16 (snd (kmalloc 0x1000000 small_heap))) = 0"
proof -
  have "kmalloc 0x1000000 small_heap = (0, snd (kmalloc 0x1000000 small_heap))"
    by (simp add: kmalloc_def Let_def small_heap_sel)
  then show ?thesis
    using kmalloc_failure_sticky [OF small_heap_sel(1), of "0x1000000" 16] by (simp add: small_heap_sel round16_def)
qed

theorem kmalloc_huge_wraps_witness:
  "kmalloc (- 1) small_heap = (0x102000, small_heap)"
  using kmalloc_huge_wraps [of "- 1" small_heap] by (simp add: small_heap_sel unat_minus_1_u64)

theorem heap_init_not_reserved_witness:
  "heap_ok (heap_init (pmm_init small_layout 0x9000 (small_heap_pmm 0x108000)))"
proof -
  have "pmm_bitmap (pmm_init small_layout 0x9000 (small_heap_pmm 0x108000)) = 0x101000"
    "bitmap_size (pmm_init small_layout 0x9000 (small_heap_pmm 0x108000)) = 33"
    by (simp_all add: pmm_init_sel small_heap_pmm_def small_map_bitmap)
  then show ?thesis
    using heap_init_not_reserved [OF _ _ refl, of "pmm_init small_layout 0x9000 (small_heap_pmm 0x108000)"] by simp
qed

theorem test_heap_allocator_passes_witness:
  "con (test_heap_allocator small_heap) = say heap_test_output (con small_heap)"
  using test_heap_allocator_passes [OF small_heap_sel(1) _ _ refl refl] by (simp add: small_heap_sel)

text \<open>The boot of \<open>kernel_main\<close> up to the heap on a small machine: the kernel and its bitmap at 1 MB,
  followed by available memory.\<close>

definition booted :: heap where
  "booted = heap_init (case pmm_mark_free_regions small_layout 0x9000
     (pmm_init small_layout 0x9000 (small_heap_pmm 0x108000)) of Inr k \<Rightarrow> k | Inl f \<Rightarrow> small_heap_pmm 0)"

lemma booted_pages:
  "pmm_ok booted" "used_set booted = {p. p < 264} - freed_pages 256 264 \<union> {256, 257}"
  "total_pages booted = 264" "heap_current booted = 0x102000" "heap_end booted = 0x1102000" "heap_ok booted"
proof -
  let ?k = "pmm_init small_layout 0x9000 (small_heap_pmm 0x108000)"
  have sel: "total_memory ?k = 0x108000" "total_pages ?k = 264" "bitmap_size ?k = 33"
    "pmm_bitmap ?k = 0x101000" "mem ?k = memset 0x101000 0xFF 33 small_map"
    by (simp_all add: pmm_init_sel small_heap_pmm_def small_map_bitmap)
  have m: "tag_type (mem ?k) 0x9008 = 1" "next_tag (mem ?k) 0x9008 = 0x9018"
    "tag_type (mem ?k) 0x9018 = 6" "mmap_entry_size (mem ?k) 0x9018 = 24"
    "num_mmap_entries (mem ?k) 0x9018 = 1" "mmap_entry_at (mem ?k) 0x9018 0 = 0x9028"
    "read_mmap_entry (mem ?k) 0x9028 = \<lparr>entry_addr = 0x100000, entry_len = 0x1000000, entry_type = 1\<rparr>"
    unfolding sel(5) by (code_simp, code_simp, code_simp, code_simp, code_simp, code_simp, code_simp)
  have out: "map_outside 0x9018 ?k"
    by (simp add: map_outside_def m sel(3,4) disjoint_below)
  have stop: "stops_at (mem ?k) (0x9000 + 8) 1"
    using m by (simp add: stops_at_def tag_ends_def)
  have one: "{i. i < (1 :: u32)} = {0}"
    by (auto simp: word_less_nat_alt unat_eq_0)
  have entries: "(\<Union>i\<in>{i. i < num_mmap_entries (mem ?k) 0x9018}.
      entry_pages (total_memory ?k) (read_mmap_entry (mem ?k) (mmap_entry_at (mem ?k) 0x9018 i)))
    = freed_pages 256 264"
    by (simp add: m one sel(1) entry_pages_def)
  have kp: "kernel_pages small_layout ?k = {256, 257}"
  proof -
    have "256 \<le> p \<and> p < 258 \<and> p < 264 \<longleftrightarrow> p = 256 \<or> p = 257" for p :: u64
      by (simp add: word_le_nat_alt word_less_nat_alt word_unat_eq_iff) arith
    then have "{p :: u64. 256 \<le> p \<and> p < 258 \<and> p < 264} = {256, 257}"
      by blast
    moreover have "kernel_pages small_layout ?k = {p. 256 \<le> p \<and> p < 258 \<and> p < 264}"
      by (simp add: kernel_pages_def sel(2-4), simp add: small_layout_def)
    ultimately show ?thesis
      by (rule trans [rotated])
  qed
  obtain k1 where k1: "free_tags 100 (0x9000 + 8) (kprint [Ln ''[PMM] Marking free regions...''] ?k) = Inr k1"
    "pmm_ok k1" "used_set k1 = {p. p < 264} - freed_pages 256 264" "total_pages k1 = 264"
    "kernel_pages small_layout k1 = {256, 257}" "pmm_bitmap k1 = 0x101000" "bitmap_size k1 = 33"
    using free_tags_entries [of ?k "0x9000" 1 "0x9018" small_layout] pmm_init_used(1,2) [of small_layout "0x9000" "small_heap_pmm 0x108000"]
      m stop out entries kp by (auto simp: sel(1-4))
  obtain k2 where k2: "pmm_mark_free_regions small_layout 0x9000 ?k = Inr k2" "pmm_ok k2"
    "used_set k2 = {p. p < 264} - freed_pages 256 264 \<union> {256, 257}" "total_pages k2 = 264"
    "pmm_bitmap k2 = 0x101000" "bitmap_size k2 = 33"
    using mark_free_regions_of_tags [OF k1(2,1), of small_layout] k1(3-7) by auto
  then show "pmm_ok booted" "used_set booted = {p. p < 264} - freed_pages 256 264 \<union> {256, 257}"
    "total_pages booted = 264" "heap_current booted = 0x102000" "heap_end booted = 0x1102000" "heap_ok booted"
    by (simp_all add: booted_def heap_init_sel PAGE_ALIGN_def heap_ok_def)
qed


end
