(* ===== verification/Cpu.thy ===== *)
theory Cpu
  imports Heap
begin

text \<open>
  The processor instructions that \<^verbatim>\<open>c/kernel/minimal_step9.c\<close> wraps: \<open>rdmsr\<close>, \<open>wrmsr\<close>,
  \<open>cpuid\<close>, the control register CR3, \<open>lidt\<close>, \<open>sti\<close>, \<open>wbinvd\<close>, and the delay loops.
  Model specific registers keep what was written to them; \<open>cpu_log\<close> records the instructions
  that have an effect outside the state, in order.
\<close>

datatype cpu_io =
    WrMsr u32 u64
  | MmioWrite u64 u32
  | WriteCr3 u64
  | Invlpg u64
  | Wbinvd
  | Lidt u16 u64
  | Sti
  | Pauses u64

record cpu = heap +
  cr3 :: u64
  msr :: "u32 \<Rightarrow> u64"
  cpuid_value :: "u32 \<Rightarrow> u32 \<times> u32 \<times> u32 \<times> u32"
  cpu_log :: "cpu_io list"
  tsc_khz :: u64

definition cpu_do :: "cpu_io \<Rightarrow> 'a cpu_scheme \<Rightarrow> 'a cpu_scheme" where
  "cpu_do io k = k\<lparr>cpu_log := cpu_log k @ [io]\<rparr>"

text \<open>\<open>rdmsr\<close> reads two 32-bit halves and joins them; \<open>wrmsr\<close> splits its argument.\<close>

definition rdmsr :: "u32 \<Rightarrow> 'a cpu_scheme \<Rightarrow> u64" where
  "rdmsr r k =
     (let low = ucast (msr k r) :: u32; high = ucast (drop_bit 32 (msr k r)) :: u32
      in push_bit 32 (ucast high) OR ucast low)"

definition wrmsr :: "u32 \<Rightarrow> u64 \<Rightarrow> 'a cpu_scheme \<Rightarrow> 'a cpu_scheme" where
  "wrmsr r v k =
     (let low = ucast (v AND 0xFFFFFFFF) :: u32; high = ucast (drop_bit 32 v) :: u32;
          joined = push_bit 32 (ucast high) OR ucast low
      in cpu_do (WrMsr r joined) (k\<lparr>msr := (msr k)(r := joined)\<rparr>))"

definition cpuid :: "u32 \<Rightarrow> 'a cpu_scheme \<Rightarrow> u32 \<times> u32 \<times> u32 \<times> u32" where
  "cpuid leaf k = cpuid_value k leaf"

definition calibrate_tsc :: "'a cpu_scheme \<Rightarrow> 'a cpu_scheme" where
  "calibrate_tsc k = k\<lparr>tsc_khz := 2000000\<rparr>"

text \<open>\<open>udelay\<close> executes \<open>usec * 10\<close> \<open>pause\<close> instructions; the loops change nothing else.\<close>

definition udelay :: "u64 \<Rightarrow> 'a cpu_scheme \<Rightarrow> 'a cpu_scheme" where
  "udelay usec k = cpu_do (Pauses (usec * 10)) k"

definition mdelay :: "u64 \<Rightarrow> 'a cpu_scheme \<Rightarrow> 'a cpu_scheme" where
  "mdelay msec k = for_up 0 msec (\<lambda>i. udelay 1000) k"

lemma join_halves: "push_bit 32 (ucast (ucast (drop_bit 32 v) :: u32)) OR ucast (ucast v :: u32) = v" for v :: u64
  by (rule bit_word_eqI) (auto simp: bit_simps not_less)

lemma mask_low: "ucast (v AND 0xFFFFFFFF) = (ucast v :: u32)" for v :: u64
proof -
  have "(0xFFFFFFFF :: u64) = mask 32"
    by (simp add: mask_eq_exp_minus_1)
  then have "ucast (v AND 0xFFFFFFFF) = (ucast (v AND mask 32) :: u32)"
    by simp
  also have "\<dots> = ucast v"
    by (rule bit_word_eqI) (auto simp: bit_simps)
  finally show ?thesis .
qed

lemma rdmsr_eq: "rdmsr r k = msr k r"
  by (simp add: rdmsr_def Let_def join_halves)

lemma wrmsr_eq: "wrmsr r v k = cpu_do (WrMsr r v) (k\<lparr>msr := (msr k)(r := v)\<rparr>)"
  by (simp only: wrmsr_def Let_def mask_low join_halves)

lemma cpu_do_sel [simp]:
  "cpu_log (cpu_do io k) = cpu_log k @ [io]" "msr (cpu_do io k) = msr k" "cr3 (cpu_do io k) = cr3 k"
  "con (cpu_do io k) = con k" "mem (cpu_do io k) = mem k" "cpuid_value (cpu_do io k) = cpuid_value k"
  "cpu.more (cpu_do io k) = cpu.more k"
  by (simp_all add: cpu_do_def)

lemma kprint_cpu [simp]:
  "cpu_log (kprint ms k) = cpu_log k" "msr (kprint ms k) = msr k" "cr3 (kprint ms k) = cr3 k"
  "cpuid_value (kprint ms k) = cpuid_value k" "cpu.more (kprint ms k) = cpu.more k" "tsc_khz (kprint ms k) = tsc_khz k"
  by (simp_all add: kprint_def)

lemma wrmsr_sel [simp]:
  "cpu_log (wrmsr r v k) = cpu_log k @ [WrMsr r v]" "msr (wrmsr r v k) = (msr k)(r := v)"
  "con (wrmsr r v k) = con k" "mem (wrmsr r v k) = mem k" "cr3 (wrmsr r v k) = cr3 k"
  "cpuid_value (wrmsr r v k) = cpuid_value k" "cpu.more (wrmsr r v k) = cpu.more k"
  by (simp_all add: wrmsr_eq)

lemma udelay_sel [simp]:
  "cpu_log (udelay n k) = cpu_log k @ [Pauses (n * 10)]" "msr (udelay n k) = msr k"
  "con (udelay n k) = con k" "mem (udelay n k) = mem k" "cpu.more (udelay n k) = cpu.more k"
  by (simp_all add: udelay_def)

lemma mdelay_sel:
  "cpu_log (mdelay n k) = cpu_log k @ replicate (unat n) (Pauses 10000)" "msr (mdelay n k) = msr k"
  "con (mdelay n k) = con k" "mem (mdelay n k) = mem k" "cpu.more (mdelay n k) = cpu.more k"
proof -
  have "cpu_log (fold (\<lambda>_. udelay 1000) xs k) = cpu_log k @ replicate (length xs) (Pauses 10000)
    \<and> msr (fold (\<lambda>_. udelay 1000) xs k) = msr k \<and> con (fold (\<lambda>_. udelay 1000) xs k) = con k
    \<and> mem (fold (\<lambda>_. udelay 1000) xs k) = mem k \<and> cpu.more (fold (\<lambda>_. udelay 1000) xs k) = cpu.more k" for xs :: "nat list"
    by (induction xs arbitrary: k) (simp_all add: replicate_app_Cons_same)
  then show "cpu_log (mdelay n k) = cpu_log k @ replicate (unat n) (Pauses 10000)" "msr (mdelay n k) = msr k"
    "con (mdelay n k) = con k" "mem (mdelay n k) = mem k" "cpu.more (mdelay n k) = cpu.more k"
    by (simp_all add: mdelay_def for_up_fold)
qed

end
