(* ===== verification/Vmm.thy ===== *)
theory Vmm
  imports Cpu
begin

text \<open>
  The virtual memory manager of \<^verbatim>\<open>c/kernel/minimal_step9.c\<close>: recursive page tables.  Here a
  pointer is a virtual address: every access goes through \<open>mmu_walk\<close>, the four-level page walk
  that the processor manuals document (present bits, 1 GB and 2 MB pages, canonical addresses);
  where the walk finds no page the access is a \<open>PageFault\<close>.  The identity mapping of the first
  gigabyte is used by \<open>vmm_init\<close> alone, for its one access to the PML4.

  The macros for the table addresses shift the \<open>int\<close> constant 511 by 39 and by 30, which C
  leaves undefined.  The values the compiler gives these two expressions are the parameter
  \<open>pt_shifts\<close>; \<open>shifts_64\<close> are the intended ones, \<open>shifts_32\<close> those of 32-bit folding.
\<close>

record vmm = cpu +
  pml4 :: u64

section \<open>The processor's page walk\<close>

definition PT_PRESENT :: u64 where "PT_PRESENT = 1"
definition PT_WRITE :: u64 where "PT_WRITE = 2"
definition PT_USER :: u64 where "PT_USER = 4"

definition frame_mask :: u64 where "frame_mask = 0x000FFFFFFFFFF000"

definition frame_of :: "u64 \<Rightarrow> u64" where "frame_of e = e AND frame_mask"

definition is_present :: "u64 \<Rightarrow> bool" where "is_present e \<longleftrightarrow> bit e 0"
definition is_huge :: "u64 \<Rightarrow> bool" where "is_huge e \<longleftrightarrow> bit e 7"

definition pml4_index :: "u64 \<Rightarrow> u64" where "pml4_index va = drop_bit 39 va AND 0x1FF"
definition pdpt_index :: "u64 \<Rightarrow> u64" where "pdpt_index va = drop_bit 30 va AND 0x1FF"
definition pd_index :: "u64 \<Rightarrow> u64" where "pd_index va = drop_bit 21 va AND 0x1FF"
definition pt_index :: "u64 \<Rightarrow> u64" where "pt_index va = drop_bit 12 va AND 0x1FF"

definition canonical :: "u64 \<Rightarrow> bool" where
  "canonical va \<longleftrightarrow> drop_bit 47 va = 0 \<or> drop_bit 47 va = 0x1FFFF"

text \<open>Entry \<open>i\<close> of the table in frame \<open>t\<close>.\<close>

definition entry :: "memory \<Rightarrow> u64 \<Rightarrow> u64 \<Rightarrow> u64" where
  "entry m t i = load64 m (t + 8 * i)"

definition mmu_walk :: "u64 \<Rightarrow> memory \<Rightarrow> u64 \<Rightarrow> u64 option" where
  "mmu_walk cr3_val m va =
     (if \<not> canonical va then None
      else let e4 = entry m (frame_of cr3_val) (pml4_index va) in
      if \<not> is_present e4 then None
      else let e3 = entry m (frame_of e4) (pdpt_index va) in
      if \<not> is_present e3 then None
      else if is_huge e3 then Some ((e3 AND 0x000FFFFFC0000000) OR (va AND 0x3FFFFFFF))
      else let e2 = entry m (frame_of e3) (pd_index va) in
      if \<not> is_present e2 then None
      else if is_huge e2 then Some ((e2 AND 0x000FFFFFFFE00000) OR (va AND 0x1FFFFF))
      else let e1 = entry m (frame_of e2) (pt_index va) in
      if \<not> is_present e1 then None
      else Some (frame_of e1 OR (va AND 0xFFF)))"

definition vread :: "u64 \<Rightarrow> 'a cpu_scheme \<Rightarrow> fault + u64" where
  "vread va k = (case mmu_walk (cr3 k) (mem k) va of None \<Rightarrow> Inl PageFault | Some pa \<Rightarrow> Inr (load64 (mem k) pa))"

definition vwrite :: "u64 \<Rightarrow> u64 \<Rightarrow> 'a cpu_scheme \<Rightarrow> fault + 'a cpu_scheme" where
  "vwrite va v k = (case mmu_walk (cr3 k) (mem k) va of None \<Rightarrow> Inl PageFault
     | Some pa \<Rightarrow> Inr (k\<lparr>mem := store64 pa v (mem k)\<rparr>))"

section \<open>The table addresses\<close>

record pt_shifts =
  shl39 :: u64
  shl30 :: u64

definition shifts_64 :: pt_shifts where
  "shifts_64 = \<lparr>shl39 = push_bit 39 511, shl30 = push_bit 30 511\<rparr>"

definition shifts_32 :: pt_shifts where
  "shifts_32 = \<lparr>shl39 = 0, shl30 = 0xFFFFFFFFC0000000\<rparr>"

definition RECURSIVE_BASE :: u64 where "RECURSIVE_BASE = 0xFFFF000000000000"

definition PML4_VIRT_ADDR :: "pt_shifts \<Rightarrow> u64" where
  "PML4_VIRT_ADDR sh = RECURSIVE_BASE OR shl39 sh OR shl30 sh OR push_bit 21 511 OR push_bit 12 511"

definition PDPT_VIRT_ADDR :: "pt_shifts \<Rightarrow> u64 \<Rightarrow> u64" where
  "PDPT_VIRT_ADDR sh i4 = RECURSIVE_BASE OR shl39 sh OR shl30 sh OR push_bit 21 511 OR push_bit 12 i4"

definition PD_VIRT_ADDR :: "pt_shifts \<Rightarrow> u64 \<Rightarrow> u64 \<Rightarrow> u64" where
  "PD_VIRT_ADDR sh i4 i3 = RECURSIVE_BASE OR shl39 sh OR shl30 sh OR push_bit 21 i4 OR push_bit 12 i3"

definition PT_VIRT_ADDR :: "pt_shifts \<Rightarrow> u64 \<Rightarrow> u64 \<Rightarrow> u64 \<Rightarrow> u64" where
  "PT_VIRT_ADDR sh i4 i3 i2 = RECURSIVE_BASE OR shl39 sh OR push_bit 30 i4 OR push_bit 21 i3 OR push_bit 12 i2"

section \<open>Operations\<close>

definition vmm_init :: "pt_shifts \<Rightarrow> 'a vmm_scheme \<Rightarrow> 'a vmm_scheme" where
  "vmm_init sh k =
     (let k = kprint [S [newline_char], Ln ''[VMM] Initializing Virtual Memory Manager...'',
                S ''[VMM] Current CR3 (PML4 physical): '', X (cr3 k), Ln ''''] k;
          pml4_phys = cr3 k AND frame_mask;
          k = k\<lparr>mem := store64 (pml4_phys + 8 * 511) (pml4_phys OR PT_PRESENT OR PT_WRITE) (mem k)\<rparr>;
          k = cpu_do (WriteCr3 (cr3 k)) k;
          k = k\<lparr>pml4 := PML4_VIRT_ADDR sh\<rparr>
      in kprint [S ''[VMM] Recursive mapping enabled at index '', D 511, Ln '''',
           S ''[VMM] PML4 virtual address: '', X (PML4_VIRT_ADDR sh), Ln '''',
           Ln ''[VMM] Virtual Memory Manager initialized!''] k)"

definition vmm_virt_to_phys :: "pt_shifts \<Rightarrow> u64 \<Rightarrow> 'a vmm_scheme \<Rightarrow> fault + u64" where
  "vmm_virt_to_phys sh va k =
     (let i4 = pml4_index va; i3 = pdpt_index va; i2 = pd_index va; i1 = pt_index va; offset = va AND 0xFFF in
      case vread (PML4_VIRT_ADDR sh + 8 * i4) k of Inl f \<Rightarrow> Inl f | Inr e4 \<Rightarrow>
      if e4 AND PT_PRESENT = 0 then Inr 0 else
      case vread (PDPT_VIRT_ADDR sh i4 + 8 * i3) k of Inl f \<Rightarrow> Inl f | Inr e3 \<Rightarrow>
      if e3 AND PT_PRESENT = 0 then Inr 0 else
      case vread (PD_VIRT_ADDR sh i4 i3 + 8 * i2) k of Inl f \<Rightarrow> Inl f | Inr e2 \<Rightarrow>
      if e2 AND PT_PRESENT = 0 then Inr 0 else
      case vread (PT_VIRT_ADDR sh i4 i3 i2 + 8 * i1) k of Inl f \<Rightarrow> Inl f | Inr e1 \<Rightarrow>
      if e1 AND PT_PRESENT = 0 then Inr 0 else Inr ((e1 AND frame_mask) + offset))"

text \<open>The loop \<open>for (i = 0; i < 512; i++) table[i] = 0\<close>.\<close>

definition clear_table :: "u64 \<Rightarrow> 'a cpu_scheme \<Rightarrow> fault + 'a cpu_scheme" where
  "clear_table table k =
     for_up (0 :: u32) 512 (\<lambda>i r. case r of Inl f \<Rightarrow> Inl f | Inr k \<Rightarrow> vwrite (table + 8 * ucast i) 0 k) (Inr k)"

text \<open>"Access or create" one level: the entry at \<open>entry_va\<close> is read; if it is not present, a page
  is allocated, entered with the flags present, write and user, and cleared through \<open>table_va\<close>.
  The result is \<open>False\<close> when there was no page (the early return of \<open>vmm_map_page\<close>).\<close>

definition vmm_ensure_table :: "u64 \<Rightarrow> u64 \<Rightarrow> 'a cpu_scheme \<Rightarrow> fault + bool \<times> 'a cpu_scheme" where
  "vmm_ensure_table entry_va table_va k =
     (case vread entry_va k of Inl f \<Rightarrow> Inl f | Inr e \<Rightarrow>
      if e AND PT_PRESENT = 0 then
        let (page, k) = pmm_alloc_page k in
        if page = 0 then Inr (False, k)
        else case vwrite entry_va (page OR PT_PRESENT OR PT_WRITE OR PT_USER) k of Inl f \<Rightarrow> Inl f | Inr k \<Rightarrow>
             (case clear_table table_va k of Inl f \<Rightarrow> Inl f | Inr k \<Rightarrow> Inr (True, k))
      else Inr (True, k))"

definition vmm_map_page :: "pt_shifts \<Rightarrow> u64 \<Rightarrow> u64 \<Rightarrow> u64 \<Rightarrow> 'a vmm_scheme \<Rightarrow> fault + 'a vmm_scheme" where
  "vmm_map_page sh va phys_addr flags k =
     (let i4 = pml4_index va; i3 = pdpt_index va; i2 = pd_index va; i1 = pt_index va in
      case vmm_ensure_table (PML4_VIRT_ADDR sh + 8 * i4) (PDPT_VIRT_ADDR sh i4) k of
        Inl f \<Rightarrow> Inl f | Inr (ok, k) \<Rightarrow> if \<not> ok then Inr k else
      case vmm_ensure_table (PDPT_VIRT_ADDR sh i4 + 8 * i3) (PD_VIRT_ADDR sh i4 i3) k of
        Inl f \<Rightarrow> Inl f | Inr (ok, k) \<Rightarrow> if \<not> ok then Inr k else
      case vmm_ensure_table (PD_VIRT_ADDR sh i4 i3 + 8 * i2) (PT_VIRT_ADDR sh i4 i3 i2) k of
        Inl f \<Rightarrow> Inl f | Inr (ok, k) \<Rightarrow> if \<not> ok then Inr k else
      case vwrite (PT_VIRT_ADDR sh i4 i3 i2 + 8 * i1) ((phys_addr AND frame_mask) OR flags) k of
        Inl f \<Rightarrow> Inl f | Inr k \<Rightarrow> Inr (cpu_do (Invlpg va) k))"

definition vmm_unmap_page :: "pt_shifts \<Rightarrow> u64 \<Rightarrow> 'a vmm_scheme \<Rightarrow> fault + 'a vmm_scheme" where
  "vmm_unmap_page sh va k =
     (let i4 = pml4_index va; i3 = pdpt_index va; i2 = pd_index va; i1 = pt_index va in
      case vread (PML4_VIRT_ADDR sh + 8 * i4) k of Inl f \<Rightarrow> Inl f | Inr e4 \<Rightarrow>
      if e4 AND PT_PRESENT = 0 then Inr k else
      case vread (PDPT_VIRT_ADDR sh i4 + 8 * i3) k of Inl f \<Rightarrow> Inl f | Inr e3 \<Rightarrow>
      if e3 AND PT_PRESENT = 0 then Inr k else
      case vread (PD_VIRT_ADDR sh i4 i3 + 8 * i2) k of Inl f \<Rightarrow> Inl f | Inr e2 \<Rightarrow>
      if e2 AND PT_PRESENT = 0 then Inr k else
      case vwrite (PT_VIRT_ADDR sh i4 i3 i2 + 8 * i1) 0 k of
        Inl f \<Rightarrow> Inl f | Inr k \<Rightarrow> Inr (cpu_do (Invlpg va) k))"

section \<open>The fields of an address\<close>

lemma low9_bits: "x < 512 \<Longrightarrow> bit x n \<Longrightarrow> n < 9" for x :: u64
  using unat_mono [of x 512] bit_lt_pow2 [of x 9 n] by simp

lemma low12_bits: "x < 4096 \<Longrightarrow> bit x n \<Longrightarrow> n < 12" for x :: u64
  using unat_mono [of x 4096] bit_lt_pow2 [of x 12 n] by simp

text \<open>An address with the indices \<open>a\<close>, \<open>b\<close>, \<open>c\<close>, \<open>d\<close> in the upper half, and the bytes behind it.\<close>

definition high_addr :: "u64 \<Rightarrow> u64 \<Rightarrow> u64 \<Rightarrow> u64 \<Rightarrow> u64" where
  "high_addr a b c d = RECURSIVE_BASE OR push_bit 39 a OR push_bit 30 b OR push_bit 21 c OR push_bit 12 d"

lemma base_bits: "bit RECURSIVE_BASE n \<longleftrightarrow> 48 \<le> n \<and> n < 64"
proof -
  have eq: "RECURSIVE_BASE = NOT (mask 48)"
    by (simp add: RECURSIVE_BASE_def mask_eq_exp_minus_1)
  show ?thesis
    unfolding eq bit_not_iff_eq bit_mask_iff possible_bit_def by auto
qed

lemma mask9: "(0x1FF :: u64) = mask 9" and mask12: "(0xFFF :: u64) = mask 12"
  by (simp_all add: mask_eq_exp_minus_1)

lemma high_addr_add:
  assumes "off < 4096"
  shows "high_addr a b c d + off = high_addr a b c d OR off"
proof (rule disjunctive_add)
  fix n
  show "\<not> bit (high_addr a b c d) n \<or> \<not> bit off n"
    using low12_bits [OF assms, of n] by (auto simp: high_addr_def base_bits bit_simps)
qed

lemma high_addr_bits:
  assumes "a < 512" "b < 512" "c < 512" "d < 512" "off < 4096"
  shows "bit (high_addr a b c d + off) n \<longleftrightarrow>
    (if n < 12 then bit off n else if n < 21 then bit d (n - 12) else if n < 30 then bit c (n - 21)
     else if n < 39 then bit b (n - 30) else if n < 48 then bit a (n - 39) else n < 64)"
  unfolding high_addr_add [OF assms(5)] unfolding high_addr_def
  using low9_bits [OF assms(1), of "n - 39"] low9_bits [OF assms(2), of "n - 30"]
    low9_bits [OF assms(3), of "n - 21"] low9_bits [OF assms(4), of "n - 12"] low12_bits [OF assms(5), of n]
  by (auto simp: base_bits bit_simps)


lemma high_addr_fields:
  assumes "a < 512" "b < 512" "c < 512" "d < 512" "off < 4096"
  shows "pml4_index (high_addr a b c d + off) = a" "pdpt_index (high_addr a b c d + off) = b"
    "pd_index (high_addr a b c d + off) = c" "pt_index (high_addr a b c d + off) = d"
    "(high_addr a b c d + off) AND 0xFFF = off"
proof -
  have field: "drop_bit k (high_addr a b c d + off) AND mask 9 = x"
    if "\<And>n. n < 9 \<Longrightarrow> bit (high_addr a b c d + off) (k + n) = bit x n" "x < 512" for k x
  proof (rule bit_word_eqI)
    fix n
    show "bit (drop_bit k (high_addr a b c d + off) AND mask 9) n = bit x n"
      using that(1) [of n] low9_bits [OF that(2), of n]
      by (auto simp only: bit_and_iff bit_mask_iff bit_drop_bit_eq comp_def possible_bit_def)
        (use bit_imp_le_length in fastforce)+
  qed
  show "pml4_index (high_addr a b c d + off) = a" "pdpt_index (high_addr a b c d + off) = b"
    "pd_index (high_addr a b c d + off) = c" "pt_index (high_addr a b c d + off) = d"
    unfolding pml4_index_def pdpt_index_def pd_index_def pt_index_def mask9
    using assms by (auto intro!: field simp: high_addr_bits)
  show "(high_addr a b c d + off) AND 0xFFF = off"
    unfolding mask12
  proof (rule bit_word_eqI)
    fix n
    show "bit ((high_addr a b c d + off) AND mask 12) n = bit off n"
      using low12_bits [OF assms(5), of n]
      by (auto simp only: bit_and_iff bit_mask_iff possible_bit_def high_addr_bits [OF assms] if_True)
        (use bit_imp_le_length in fastforce)+
  qed
qed

lemma high_addr_canonical:
  assumes "a < 512" "b < 512" "c < 512" "d < 512" "off < 4096" "bit a 8"
  shows "canonical (high_addr a b c d + off)"
proof -
  have "(0x1FFFF :: u64) = mask 17"
    by (simp add: mask_eq_exp_minus_1)
  moreover have "drop_bit 47 (high_addr a b c d + off) = mask 17"
  proof (rule bit_word_eqI)
    fix n
    show "bit (drop_bit 47 (high_addr a b c d + off)) n = bit (mask 17 :: u64) n"
      using assms(6) by (cases "n = 0") (auto simp: bit_drop_bit_eq high_addr_bits [OF assms(1-5)] bit_mask_iff possible_bit_def)
  qed
  ultimately show ?thesis
    by (simp add: canonical_def)
qed

lemma table_addrs_64:
  "PML4_VIRT_ADDR shifts_64 = high_addr 511 511 511 511" "PDPT_VIRT_ADDR shifts_64 i4 = high_addr 511 511 511 i4"
  "PD_VIRT_ADDR shifts_64 i4 i3 = high_addr 511 511 i4 i3" "PT_VIRT_ADDR shifts_64 i4 i3 i2 = high_addr 511 i4 i3 i2"
  unfolding PML4_VIRT_ADDR_def PDPT_VIRT_ADDR_def PD_VIRT_ADDR_def PT_VIRT_ADDR_def shifts_64_def
    pt_shifts.simps high_addr_def by (rule refl)+

text \<open>The 32-bit values give the same PML4, PDPT and PD addresses, by sign extension.\<close>

lemma sign_extension:
  "(RECURSIVE_BASE OR shl39 shifts_32) OR shl30 shifts_32 = (RECURSIVE_BASE OR shl39 shifts_64) OR shl30 shifts_64"
  by (simp add: shifts_32_def shifts_64_def RECURSIVE_BASE_def)

lemma table_addrs_32:
  "PML4_VIRT_ADDR shifts_32 = PML4_VIRT_ADDR shifts_64" "PDPT_VIRT_ADDR shifts_32 i4 = PDPT_VIRT_ADDR shifts_64 i4"
  "PD_VIRT_ADDR shifts_32 i4 i3 = PD_VIRT_ADDR shifts_64 i4 i3"
  unfolding PML4_VIRT_ADDR_def PDPT_VIRT_ADDR_def PD_VIRT_ADDR_def or.assoc [symmetric] sign_extension
  by (rule refl)+

lemma unat_and_1FF: "unat (x AND 0x1FF) < 512" for x :: u64
proof -
  have "x AND 0x1FF = take_bit 9 x"
    by (simp only: mask9 take_bit_eq_mask)
  then have "unat (x AND 0x1FF) = take_bit 9 (unat x)"
    by (simp only: unsigned_take_bit_eq)
  then show ?thesis
    by (simp add: take_bit_eq_mod)
qed

lemma unat_and_FFF: "unat (x AND 0xFFF) < 4096" for x :: u64
proof -
  have "x AND 0xFFF = take_bit 12 x"
    by (simp only: mask12 take_bit_eq_mask)
  then have "unat (x AND 0xFFF) = take_bit 12 (unat x)"
    by (simp only: unsigned_take_bit_eq)
  then show ?thesis
    by (simp add: take_bit_eq_mod)
qed

lemma index_lt [simp]: "pml4_index va < 512" "pdpt_index va < 512" "pd_index va < 512" "pt_index va < 512"
  unfolding pml4_index_def pdpt_index_def pd_index_def pt_index_def
  by (simp_all add: word_less_nat_alt unat_and_1FF)

section \<open>The recursive windows\<close>

lemma frame_bits: "bit (frame_of e) n \<longleftrightarrow> bit e n \<and> 12 \<le> n \<and> n < 52"
proof -
  have eq: "frame_mask = mask 52 AND NOT (mask 12)"
    by (simp add: frame_mask_def mask_eq_exp_minus_1)
  show ?thesis
    unfolding frame_of_def eq bit_and_iff bit_not_iff_eq bit_mask_iff possible_bit_def
    using bit_imp_le_length [of e n] by auto
qed

lemma frame_of_idem [simp]: "frame_of (frame_of e) = frame_of e"
  by (rule bit_word_eqI) (simp add: frame_bits)

lemma frame_add: "off < 4096 \<Longrightarrow> frame_of e + off = frame_of e OR off"
  by (rule disjunctive_add) (use low12_bits [of off] in \<open>fastforce simp: frame_bits\<close>)

lemma frame_of_add:
  assumes "off < 4096"
  shows "frame_of (frame_of e + off) = frame_of e"
  unfolding frame_add [OF assms]
proof (rule bit_word_eqI)
  fix n
  show "bit (frame_of (frame_of e OR off)) n = bit (frame_of e) n"
    using low12_bits [OF assms, of n] by (auto simp: frame_bits bit_or_iff)
qed

lemma entry_off: "i < 512 \<Longrightarrow> 8 * i < 4096" for i :: u64
  using unat_mono [of i 512] unat_mult_lt [of 8 i] by (simp add: word_less_nat_alt)

text \<open>\<open>recursive\<close>: the last entry of the PML4 points to the PML4.\<close>

definition recursive :: "u64 \<Rightarrow> memory \<Rightarrow> bool" where
  "recursive cr3_val m \<longleftrightarrow>
     (let e = entry m (frame_of cr3_val) 511
      in is_present e \<and> \<not> is_huge e \<and> frame_of e = frame_of cr3_val)"

lemma window_walk:
  assumes "canonical va" "va AND 0xFFF = off" "off < 4096"
    and "is_present (entry m (frame_of c) (pml4_index va))" "frame_of (entry m (frame_of c) (pml4_index va)) = f4"
    and "is_present (entry m f4 (pdpt_index va))" "\<not> is_huge (entry m f4 (pdpt_index va))"
    and "frame_of (entry m f4 (pdpt_index va)) = f3"
    and "is_present (entry m f3 (pd_index va))" "\<not> is_huge (entry m f3 (pd_index va))"
    and "frame_of (entry m f3 (pd_index va)) = f2"
    and "is_present (entry m f2 (pt_index va))"
  shows "mmu_walk c m va = Some (frame_of (entry m f2 (pt_index va)) + off)"
  using assms by (simp add: mmu_walk_def Let_def frame_add)

lemma bit_511: "bit (511 :: u64) 8"
  by simp

lemma walk_window:
  assumes rec: "recursive c m" and idx: "a < 512" "b < 512" "d < 512" "off < 4096"
    and e3: "is_present (entry m (frame_of c) a)" "\<not> is_huge (entry m (frame_of c) a)"
      "frame_of (entry m (frame_of c) a) = f3"
    and e2: "is_present (entry m f3 b)" "\<not> is_huge (entry m f3 b)" "frame_of (entry m f3 b) = f2"
    and e1: "is_present (entry m f2 d)"
  shows "mmu_walk c m (high_addr 511 a b d + off) = Some (frame_of (entry m f2 d) + off)"
proof -
  have "(511 :: u64) < 512" by simp
  note fields = high_addr_fields [OF this idx] and can = high_addr_canonical [OF this idx bit_511]
  show ?thesis
    using window_walk [OF can fields(5) idx(4), of m c "frame_of c" f3 f2] rec e3 e2 e1
    unfolding fields(1-4) by (simp add: recursive_def Let_def)
qed

text \<open>The four windows: through the table addresses of the macros the walk reaches the PML4 and
  the tables of levels 3, 2 and 1 of an address.\<close>

lemma walk_pml4:
  assumes "recursive c m" "i < 512"
  shows "mmu_walk c m (PML4_VIRT_ADDR shifts_64 + 8 * i) = Some (frame_of c + 8 * i)"
proof -
  have 511: "(511 :: u64) < 512" by simp
  note rec = assms(1) [unfolded recursive_def Let_def]
  show ?thesis
    unfolding table_addrs_64
    using walk_window [OF assms(1) 511 511 511 entry_off [OF assms(2)], of "frame_of c" "frame_of c"] rec by simp
qed

lemma walk_pdpt:
  assumes "recursive c m" "i4 < 512" "i < 512" "is_present (entry m (frame_of c) i4)"
  shows "mmu_walk c m (PDPT_VIRT_ADDR shifts_64 i4 + 8 * i) = Some (frame_of (entry m (frame_of c) i4) + 8 * i)"
proof -
  have 511: "(511 :: u64) < 512" by simp
  note rec = assms(1) [unfolded recursive_def Let_def]
  show ?thesis
    unfolding table_addrs_64
    using walk_window [OF assms(1) 511 511 assms(2) entry_off [OF assms(3)], of "frame_of c" "frame_of c"]
      rec assms(4) by simp
qed

lemma walk_pd:
  assumes "recursive c m" "i4 < 512" "i3 < 512" "i < 512"
    and "e4 = entry m (frame_of c) i4" "is_present e4" "\<not> is_huge e4" "is_present (entry m (frame_of e4) i3)"
  shows "mmu_walk c m (PD_VIRT_ADDR shifts_64 i4 i3 + 8 * i) = Some (frame_of (entry m (frame_of e4) i3) + 8 * i)"
proof -
  have 511: "(511 :: u64) < 512" by simp
  note rec = assms(1) [unfolded recursive_def Let_def]
  show ?thesis
    unfolding table_addrs_64
    using walk_window [OF assms(1) 511 assms(2,3) entry_off [OF assms(4)], of "frame_of c" "frame_of e4"]
      rec assms(5-8) by simp
qed

lemma walk_pt:
  assumes "recursive c m" "i4 < 512" "i3 < 512" "i2 < 512" "i < 512"
    and "e4 = entry m (frame_of c) i4" "is_present e4" "\<not> is_huge e4"
    and "e3 = entry m (frame_of e4) i3" "is_present e3" "\<not> is_huge e3" "is_present (entry m (frame_of e3) i2)"
  shows "mmu_walk c m (PT_VIRT_ADDR shifts_64 i4 i3 i2 + 8 * i) = Some (frame_of (entry m (frame_of e3) i2) + 8 * i)"
  unfolding table_addrs_64
  using walk_window [OF assms(1-4) entry_off [OF assms(5)], of "frame_of e4" "frame_of e3"] assms(6-12) by simp

lemma present_and: "e AND PT_PRESENT = 0 \<longleftrightarrow> \<not> is_present e"
proof -
  have "e AND 1 = of_bool (odd e)"
    by (simp add: and_one_eq mod_2_eq_odd)
  then show ?thesis
    by (simp add: PT_PRESENT_def is_present_def bit_0)
qed

text \<open>No table on the path of an address is replaced by a large page.\<close>

definition small_pages :: "u64 \<Rightarrow> memory \<Rightarrow> u64 \<Rightarrow> bool" where
  "small_pages c m va =
     (let e4 = entry m (frame_of c) (pml4_index va);
          e3 = entry m (frame_of e4) (pdpt_index va);
          e2 = entry m (frame_of e3) (pd_index va)
      in \<not> is_huge e4 \<and> \<not> is_huge e3 \<and> \<not> is_huge e2)"

text \<open>The three reads of \<open>vmm_virt_to_phys\<close>, \<open>vmm_unmap_page\<close> and the last access, by level.\<close>

lemma vread_levels:
  assumes rec: "recursive (cr3 k) (mem k)"
  defines "p \<equiv> frame_of (cr3 k)"
  shows "i4 < 512 \<Longrightarrow> vread (PML4_VIRT_ADDR shifts_64 + 8 * i4) k = Inr (entry (mem k) p i4)"
    and "i4 < 512 \<Longrightarrow> i < 512 \<Longrightarrow> e4 = entry (mem k) p i4 \<Longrightarrow> is_present e4 \<Longrightarrow>
      vread (PDPT_VIRT_ADDR shifts_64 i4 + 8 * i) k = Inr (entry (mem k) (frame_of e4) i)"
    and "i4 < 512 \<Longrightarrow> i3 < 512 \<Longrightarrow> i < 512 \<Longrightarrow> e4 = entry (mem k) p i4 \<Longrightarrow> is_present e4 \<Longrightarrow> \<not> is_huge e4 \<Longrightarrow>
      e3 = entry (mem k) (frame_of e4) i3 \<Longrightarrow> is_present e3 \<Longrightarrow>
      vread (PD_VIRT_ADDR shifts_64 i4 i3 + 8 * i) k = Inr (entry (mem k) (frame_of e3) i)"
    and "i4 < 512 \<Longrightarrow> i3 < 512 \<Longrightarrow> i2 < 512 \<Longrightarrow> i < 512 \<Longrightarrow> e4 = entry (mem k) p i4 \<Longrightarrow> is_present e4 \<Longrightarrow>
      \<not> is_huge e4 \<Longrightarrow> e3 = entry (mem k) (frame_of e4) i3 \<Longrightarrow> is_present e3 \<Longrightarrow> \<not> is_huge e3 \<Longrightarrow>
      e2 = entry (mem k) (frame_of e3) i2 \<Longrightarrow> is_present e2 \<Longrightarrow>
      vread (PT_VIRT_ADDR shifts_64 i4 i3 i2 + 8 * i) k = Inr (entry (mem k) (frame_of e2) i)"
  by (simp_all add: vread_def entry_def [symmetric] p_def walk_pml4 [OF rec] walk_pdpt [OF rec]
      walk_pd [OF rec] walk_pt [OF rec])


section \<open>Entries of page tables in memory\<close>

lemma times_8: "8 * i = push_bit 3 i" for i :: u64
  by (simp add: push_bit_eq_mult)

lemma entry_addr_bits:
  assumes "i < 512"
  shows "bit (frame_of x + 8 * i) n \<longleftrightarrow> (if 12 \<le> n then bit (frame_of x) n else 3 \<le> n \<and> bit i (n - 3))"
  unfolding frame_add [OF entry_off [OF assms]]
  using low9_bits [OF assms, of "n - 3"] bit_imp_le_length [of i "n - 3"]
  by (auto simp: times_8 bit_or_iff bit_push_bit_iff frame_bits possible_bit_def)

lemma entry_addr_inj:
  assumes "i < 512" "j < 512" "frame_of x + 8 * i = frame_of y + 8 * j"
  shows "frame_of x = frame_of y \<and> i = j"
proof
  have "frame_of (frame_of x + 8 * i) = frame_of (frame_of y + 8 * j)"
    using assms(3) by simp
  then show eq: "frame_of x = frame_of y"
    by (simp only: frame_of_add [OF entry_off [OF assms(1)]] frame_of_add [OF entry_off [OF assms(2)]])
  have "8 * i = 8 * j"
    using assms(3) eq by simp
  then have "unat (8 * i) = unat (8 * j)"
    by simp
  then have "8 * unat i = 8 * unat j"
    using unat_mono [OF assms(1)] unat_mono [OF assms(2)] by (simp add: unat_mult_lt)
  then show "i = j"
    by (simp add: word_unat_eq_iff)
qed

lemma entry_addr_aligned:
  assumes "i < 512"
  shows "unat (frame_of x + 8 * i) mod 8 = 0"
proof -
  have "take_bit 3 (frame_of x + 8 * i) = 0"
    by (rule bit_word_eqI) (simp add: bit_take_bit_iff entry_addr_bits [OF assms])
  then have "take_bit 3 (unat (frame_of x + 8 * i)) = 0"
    by (simp only: unsigned_take_bit_eq [symmetric] unsigned_0)
  then show ?thesis
    by (simp add: take_bit_eq_mod)
qed

lemma entry_store:
  assumes "i < 512" "j < 512" "frame_of f = f" "frame_of g = g"
  shows "entry (store64 (f + 8 * i) v m) g j = (if f = g \<and> i = j then v else entry m g j)"
proof (cases "f = g \<and> i = j")
  case True
  then show ?thesis by (simp add: entry_def)
next
  case False
  then have "g + 8 * j \<noteq> f + 8 * i"
    using entry_addr_inj [OF assms(2,1), of g f] assms(3,4) by auto
  then have "disjoint_ranges (g + 8 * j) 8 (f + 8 * i) 8"
    using aligned8_disjoint [of "g + 8 * j" "f + 8 * i"] entry_addr_aligned [OF assms(1), of f]
      entry_addr_aligned [OF assms(2), of g] assms(3,4) by simp
  then show ?thesis
    using False by (auto simp: entry_def load64_store64_disjoint)
qed

text \<open>The bytes of an entry lie in the page of its table.\<close>

lemma entry_byte_frame:
  assumes "frame_of f = f" "i < 512" "in_range (f + 8 * i) 8 x"
  shows "frame_of x = f"
proof -
  define l where "l = x - (f + 8 * i)"
  have l: "unat l < 8" and x: "x = f + 8 * i + l"
    using assms(3) by (simp_all add: l_def in_range_def)
  have "unat (8 * i + l) = 8 * unat i + unat l"
    using unat_mono [OF assms(2)] l unat_mult_lt [of 8 i] by (subst unat_add_lt) simp_all
  then have "8 * i + l < 4096"
    using unat_mono [OF assms(2)] l by (simp add: word_less_nat_alt)
  then show ?thesis
    using frame_of_add [of "8 * i + l" f] assms(1) by (simp add: x add.assoc)
qed

lemma flag_bits: "bit PT_PRESENT n \<longleftrightarrow> n = 0" "bit PT_WRITE n \<longleftrightarrow> n = 1" "bit PT_USER n \<longleftrightarrow> n = 2"
proof -
  have eq: "PT_PRESENT = push_bit 0 1" "PT_WRITE = push_bit 1 1" "PT_USER = push_bit 2 1"
    by (simp_all add: PT_PRESENT_def PT_WRITE_def PT_USER_def)
  show "bit PT_PRESENT n \<longleftrightarrow> n = 0" "bit PT_WRITE n \<longleftrightarrow> n = 1" "bit PT_USER n \<longleftrightarrow> n = 2"
    unfolding eq bit_push_bit_iff possible_bit_def bit_1_iff by auto
qed

lemma pml4_entry: "frame_of (p OR PT_PRESENT OR PT_WRITE) = frame_of p" "is_present (p OR PT_PRESENT OR PT_WRITE)"
  "\<not> is_huge (frame_of p OR PT_PRESENT OR PT_WRITE)"
proof -
  show "frame_of (p OR PT_PRESENT OR PT_WRITE) = frame_of p"
    by (rule bit_word_eqI) (auto simp: frame_bits bit_or_iff flag_bits)
qed (simp_all add: is_present_def is_huge_def bit_or_iff flag_bits frame_bits)

text \<open>\<open>vmm_init\<close> turns on the recursive mapping whatever the tables contain: afterwards the last
  PML4 entry points to the PML4 and every other entry of every table is as it was, the TLB has been
  flushed once, and with the intended shifts the table addresses of the macros reach the PML4.\<close>

theorem vmm_init_recursive:
  "let k' = vmm_init sh k; p = frame_of (cr3 k) in
     cr3 k' = cr3 k \<and> recursive (cr3 k') (mem k') \<and> pml4 k' = PML4_VIRT_ADDR sh
     \<and> cpu_log k' = cpu_log k @ [WriteCr3 (cr3 k)]
     \<and> (\<forall>f i. entry (mem k') (frame_of f) (i AND 0x1FF)
          = (if frame_of f = p \<and> i AND 0x1FF = 511 then p OR PT_PRESENT OR PT_WRITE
             else entry (mem k) (frame_of f) (i AND 0x1FF)))
     \<and> mmu_walk (cr3 k') (mem k') (PML4_VIRT_ADDR shifts_64) = Some p"
proof -
  define k' where "k' = vmm_init sh k"
  let ?p = "frame_of (cr3 k)"
  have sel: "cr3 k' = cr3 k" "pml4 k' = PML4_VIRT_ADDR sh" "cpu_log k' = cpu_log k @ [WriteCr3 (cr3 k)]"
    "mem k' = store64 (?p + 8 * 511) (?p OR PT_PRESENT OR PT_WRITE) (mem k)"
    by (simp_all add: k'_def vmm_init_def Let_def frame_of_def kprint_def cpu_do_def)
  have lt: "(511 :: u64) < 512" by simp
  have ent: "entry (mem k') (frame_of f) (i AND 0x1FF)
          = (if frame_of f = ?p \<and> i AND 0x1FF = 511 then ?p OR PT_PRESENT OR PT_WRITE
             else entry (mem k) (frame_of f) (i AND 0x1FF))" for f i
    unfolding sel(4) using entry_store [OF lt, of "i AND 0x1FF" ?p "frame_of f"]
    by (auto simp: word_less_nat_alt unat_and_1FF)
  have "entry (mem k') ?p 511 = ?p OR PT_PRESENT OR PT_WRITE"
    unfolding sel(4) using entry_store [OF lt lt, of ?p ?p] by simp
  then have rec: "recursive (cr3 k') (mem k')"
    by (simp add: recursive_def Let_def sel(1) pml4_entry)
  have "mmu_walk (cr3 k') (mem k') (PML4_VIRT_ADDR shifts_64) = Some ?p"
    using walk_pml4 [OF rec, of 0] sel(1) by simp
  then show ?thesis
    unfolding Let_def k'_def [symmetric] using sel(1-3) rec ent by simp
qed

section \<open>Creating tables\<close>

text \<open>A frame that holds a page table: in use, and not part of the allocator's bitmap.\<close>

definition table_frame :: "'a cpu_scheme \<Rightarrow> u64 \<Rightarrow> bool" where
  "table_frame k f \<longleftrightarrow> frame_of f = f \<and> f \<in> used_frames k
     \<and> (\<forall>x. in_range (pmm_bitmap k) (unat (bitmap_size k)) x \<longrightarrow> frame_of x \<noteq> f)"

text \<open>The page allocator as the VMM relies on it: the bitmap invariant, its own pages reserved, and
  physical addresses that fit a page table entry.\<close>

definition pages_ok :: "'a cpu_scheme \<Rightarrow> bool" where
  "pages_ok k \<longleftrightarrow> pmm_ok k \<and> unat (total_pages k) \<le> 2 ^ 40
     \<and> (\<forall>x. in_range (pmm_bitmap k) (unat (bitmap_size k)) x \<longrightarrow> frame_of x \<in> used_frames k)"

lemma table_store_frame:
  fixes k :: "'a cpu_scheme" and v :: u64
  assumes f: "frame_of f = f" "\<forall>x. in_range (pmm_bitmap k) (unat (bitmap_size k)) x \<longrightarrow> frame_of x \<noteq> f"
    and i: "i < 512" and ok: "pmm_ok k"
  defines "k' \<equiv> k\<lparr>mem := store64 (f + 8 * i) v (mem k)\<rparr>"
  shows "used_set k' = used_set k" "pmm_ok k'" "used_frames k' = used_frames k"
proof -
  have same: "mem k' x = mem k x" if "in_range (pmm_bitmap k) (unat (bitmap_size k)) x" for x
  proof -
    have "\<not> in_range (f + 8 * i) 8 x"
      using entry_byte_frame [OF f(1) i] f(2) that by blast
    then show ?thesis
      by (simp add: k'_def store64_def store_le_other)
  qed
  have "pmm_is_page_used p k' = pmm_is_page_used p k" if "p < total_pages k" for p
    using same [OF byte_in_bitmap [OF ok that]] by (simp add: is_used_bit k'_def)
  then show u: "used_set k' = used_set k"
    by (auto simp: used_set_def k'_def)
  then show "pmm_ok k'"
    using ok by (simp add: pmm_ok_def k'_def)
  show "used_frames k' = used_frames k"
    by (simp add: used_frames_def u)
qed

lemma entry_outside_bitmap:
  fixes k k' :: "'a cpu_scheme"
  assumes "pmm_same k k'" "frame_of f = f"
    and "\<forall>x. in_range (pmm_bitmap k) (unat (bitmap_size k)) x \<longrightarrow> frame_of x \<noteq> f" "i < 512"
  shows "entry (mem k') f i = entry (mem k) f i"
  unfolding entry_def load64_def
proof (rule load_le_cong)
  fix l :: nat assume "l < 8"
  then have "in_range (f + 8 * i) 8 (f + 8 * i + of_nat l)"
    by (intro in_range_nth) simp_all
  then have "frame_of (f + 8 * i + of_nat l) = f"
    by (rule entry_byte_frame [OF assms(2,4)])
  then show "mem k' (f + 8 * i + of_nat l) = mem k (f + 8 * i + of_nat l)"
    using assms(1,3) by (auto simp: pmm_same_def)
qed

text \<open>The page that the allocator returns is a new table frame.\<close>

lemma page_frame:
  assumes "unat a mod 4096 = 0" "unat a < 2 ^ 52"
  shows "frame_of a = a"
proof (rule bit_word_eqI)
  fix n
  have "take_bit 12 a = 0"
  proof -
    have "take_bit 12 (unat a) = 0"
      using assms(1) by (simp add: take_bit_eq_mod)
    then have "unat (take_bit 12 a) = 0"
      by (simp only: unsigned_take_bit_eq)
    then show ?thesis
      by (simp only: unat_eq_0)
  qed
  then have low: "n < 12 \<Longrightarrow> \<not> bit a n"
    by (metis bit_take_bit_iff bit_0_eq bot_apply bot_bool_def)
  show "bit (frame_of a) n = bit a n"
    using low bit_lt_pow2 [OF assms(2), of n] by (auto simp: frame_bits) (meson not_less)
qed

lemma alloc_table_frame:
  fixes k :: "'a cpu_scheme"
  assumes ok: "pages_ok k" and alloc: "pmm_alloc_page k = (a, k')" and nz: "a \<noteq> 0"
  shows "pages_ok k'" "pmm_same k k'" "frame_of a = a" "a \<notin> used_frames k" "table_frame k' a"
    "table_frame k f \<Longrightarrow> table_frame k' f" "used_frames k' = insert a (used_frames k)"
proof -
  have pok: "pmm_ok k"
    using ok by (simp add: pages_ok_def)
  note spec = alloc_page_spec [OF pok alloc]
  show same: "pmm_same k k'" and new: "a \<notin> used_frames k" and ins: "used_frames k' = insert a (used_frames k)"
    using spec(2-4) nz by blast+
  then have eqs: "pmm_bitmap k' = pmm_bitmap k" "bitmap_size k' = bitmap_size k" "total_pages k' = total_pages k"
    by (simp_all add: pmm_same_def)
  have "unat a div 4096 < 2 ^ 40"
    using spec(7) nz ok by (auto simp: pages_ok_def)
  then have "unat a < 2 ^ 52"
    by (simp add: div_less_iff_less_mult)
  then show fr: "frame_of a = a"
    using page_frame [OF spec(5)] by blast
  show "pages_ok k'"
    using ok spec(1) ins by (auto simp: pages_ok_def eqs)
  show "table_frame k' a"
    using ok new ins fr unfolding table_frame_def pages_ok_def eqs by blast
  show "table_frame k f \<Longrightarrow> table_frame k' f"
    using ins unfolding table_frame_def eqs by blast
qed

text \<open>A store into a table frame keeps all of this.\<close>

lemma store_table:
  fixes k :: "'a cpu_scheme" and v :: u64
  assumes ok: "pages_ok k" and f: "table_frame k f" and i: "i < 512"
  defines "k' \<equiv> k\<lparr>mem := store64 (f + 8 * i) v (mem k)\<rparr>"
  shows "pages_ok k'" "table_frame k' g = table_frame k g" "used_frames k' = used_frames k"
proof -
  have s: "used_set k' = used_set k" "pmm_ok k'" "used_frames k' = used_frames k"
    unfolding k'_def by (rule table_store_frame; use ok f i in \<open>simp add: pages_ok_def table_frame_def\<close>)+
  then show "used_frames k' = used_frames k" by simp
  show "pages_ok k'" "table_frame k' g = table_frame k g"
    using ok s by (simp_all add: pages_ok_def table_frame_def k'_def)
qed

text \<open>Entries of all table frames except those in \<open>W\<close> are the same in \<open>m'\<close> and in \<open>k\<close>.\<close>

definition same_entries :: "'a cpu_scheme \<Rightarrow> (u64 \<times> u64) set \<Rightarrow> memory \<Rightarrow> bool" where
  "same_entries k W m' \<longleftrightarrow>
     (\<forall>f i. table_frame k f \<longrightarrow> i < 512 \<longrightarrow> (f, i) \<notin> W \<longrightarrow> entry m' f i = entry (mem k) f i)"

lemma same_entriesD:
  "same_entries k W m' \<Longrightarrow> table_frame k f \<Longrightarrow> i < 512 \<Longrightarrow> (f, i) \<notin> W \<Longrightarrow> entry m' f i = entry (mem k) f i"
  by (simp add: same_entries_def)

definition in_table :: "u64 \<Rightarrow> (u64 \<times> u64) set" where
  "in_table f = {e. fst e = f}"

lemma in_table_iff [simp]: "(f, i) \<in> in_table g \<longleftrightarrow> f = g"
  by (simp add: in_table_def)

lemma table_frameD: "table_frame k f \<Longrightarrow> frame_of f = f"
  by (simp add: table_frame_def)

lemma clear_table_ok:
  fixes k :: "'a cpu_scheme"
  assumes ok: "pages_ok k" and tf: "table_frame k page"
    and win: "\<And>m' j. same_entries k (in_table page) m' \<Longrightarrow> j < 512 \<Longrightarrow>
      mmu_walk (cr3 k) m' (table_va + 8 * j) = Some (page + 8 * j)"
  shows "\<exists>m'. clear_table table_va k = Inr (k\<lparr>mem := m'\<rparr>) \<and> pages_ok (k\<lparr>mem := m'\<rparr>)
    \<and> used_frames (k\<lparr>mem := m'\<rparr>) = used_frames k \<and> (\<forall>g. table_frame (k\<lparr>mem := m'\<rparr>) g = table_frame k g)
    \<and> (\<forall>i<512. entry m' page i = 0) \<and> same_entries k (in_table page) m'"
proof -
  define P where "P j r \<longleftrightarrow> (\<exists>m'. r = Inr (k\<lparr>mem := m'\<rparr>) \<and> pages_ok (k\<lparr>mem := m'\<rparr>)
    \<and> used_frames (k\<lparr>mem := m'\<rparr>) = used_frames k \<and> (\<forall>g. table_frame (k\<lparr>mem := m'\<rparr>) g = table_frame k g)
    \<and> (\<forall>i<ucast j. entry m' page i = 0) \<and> same_entries k (in_table page) m')"
    for j :: u32 and r :: "fault + 'a cpu_scheme"
  have "P 512 (clear_table table_va k)"
    unfolding clear_table_def
  proof (rule for_up_inv [where i = 0])
    have "P 0 (Inr (k\<lparr>mem := mem k\<rparr>))"
      unfolding P_def using ok by (intro exI [of _ "mem k"]) (simp add: same_entries_def)
    then show "P 0 (Inr k)" by simp
  next
    fix j :: u32 and r
    assume j: "j < 512" and r: "P j r"
    obtain m' where m': "r = Inr (k\<lparr>mem := m'\<rparr>)" "pages_ok (k\<lparr>mem := m'\<rparr>)"
      "used_frames (k\<lparr>mem := m'\<rparr>) = used_frames k" "\<And>g. table_frame (k\<lparr>mem := m'\<rparr>) g = table_frame k g"
      "\<And>i. i < ucast j \<Longrightarrow> entry m' page i = 0" "same_entries k (in_table page) m'"
      using r unfolding P_def by blast
    have ju: "unat j < 512"
      using unat_mono [OF j] by simp
    have j64: "(ucast j :: u64) < 512"
      using ju unat_ucast_32_64 [of j] by (simp add: word_less_nat_alt)
    note succ = ucast_inc_32_64 [OF j]
    let ?m = "store64 (page + 8 * ucast j) 0 m'"
    have "mmu_walk (cr3 k) m' (table_va + 8 * ucast j) = Some (page + 8 * ucast j)"
      by (rule win [OF m'(6) j64])
    then have body: "(case r of Inl f \<Rightarrow> Inl f | Inr k \<Rightarrow> vwrite (table_va + 8 * ucast j) 0 k) = Inr (k\<lparr>mem := ?m\<rparr>)"
      by (simp add: m'(1) vwrite_def)
    have st: "pages_ok (k\<lparr>mem := ?m\<rparr>)" "\<And>g. table_frame (k\<lparr>mem := ?m\<rparr>) g = table_frame k g"
      "used_frames (k\<lparr>mem := ?m\<rparr>) = used_frames k"
      using store_table [OF m'(2) _ j64, of page 0] m'(3,4) tf by simp_all
    have ent: "entry ?m f i = (if page = f \<and> ucast j = i then 0 else entry m' f i)" if "table_frame k f" "i < 512" for f i
      by (rule entry_store [OF j64 that(2) table_frameD [OF tf] table_frameD [OF that(1)]])
    have "entry ?m page i = 0" if "i < ucast (j + 1)" for i
    proof -
      have i: "i < ucast j \<or> i = ucast j"
        using that less_inc_iff [OF j64, of i] by (simp add: succ)
      then have "i < 512"
        using j64 by auto
      then show ?thesis
        using ent [OF tf] i m'(5) by auto
    qed
    moreover have "same_entries k (in_table page) ?m"
      using m'(6) ent by (simp add: same_entries_def)
    ultimately show "P (j + 1) (case r of Inl f \<Rightarrow> Inl f | Inr k \<Rightarrow> vwrite (table_va + 8 * ucast j) 0 k)"
      unfolding body P_def using st by blast
  qed simp
  then show ?thesis
    by (simp add: P_def)
qed

lemma pmm_alloc_more:
  fixes k :: "'a cpu_scheme"
  assumes "pmm_alloc_page k = (a, k')"
  shows "cpu_log k' = cpu_log k \<and> cr3 k' = cr3 k"
  using assms by (cases k rule: pmm_alloc_cases) (auto simp: pmm_mark_page_def Let_def)

lemma pages_ok_alloc:
  fixes k :: "'a cpu_scheme"
  assumes ok: "pages_ok k" and alloc: "pmm_alloc_page k = (a, k')"
  shows "pages_ok k'"
proof -
  have pok: "pmm_ok k"
    using ok by (simp add: pages_ok_def)
  show ?thesis
    using alloc_page_spec(1,2,6) [OF pok alloc] ok by (auto simp: pages_ok_def pmm_same_def)
qed

text \<open>What one level of \<open>vmm_map_page\<close> achieves: the entry \<open>(t, i)\<close> is present and leads to a table
  frame; nothing else has changed in the tables that were there.\<close>

definition table_entry_flags :: "u64 \<Rightarrow> u64" where
  "table_entry_flags page = page OR PT_PRESENT OR PT_WRITE OR PT_USER"

lemma new_entry:
  assumes "frame_of page = page"
  shows "frame_of (table_entry_flags page) = page" "is_present (table_entry_flags page)"
    "\<not> is_huge (table_entry_flags page)"
proof -
  have b: "bit page n \<longleftrightarrow> bit page n \<and> 12 \<le> n \<and> n < 52" for n
    using assms frame_bits [of page n] by simp
  show "frame_of (table_entry_flags page) = page"
  proof (rule bit_word_eqI)
    fix n
    show "bit (frame_of (table_entry_flags page)) n = bit page n"
      using b [of n] by (auto simp: table_entry_flags_def frame_bits bit_or_iff flag_bits)
  qed
  show "is_present (table_entry_flags page)"
    by (simp add: table_entry_flags_def is_present_def bit_or_iff flag_bits)
  have "\<not> bit page 7"
    using b [of 7] by simp
  then show "\<not> is_huge (table_entry_flags page)"
    by (simp add: table_entry_flags_def is_huge_def bit_or_iff flag_bits)
qed

definition level_done :: "'a cpu_scheme \<Rightarrow> 'a cpu_scheme \<Rightarrow> u64 \<Rightarrow> u64 \<Rightarrow> bool" where
  "level_done k k' t i \<longleftrightarrow> pages_ok k' \<and> cr3 k' = cr3 k \<and> cpu_log k' = cpu_log k
     \<and> used_frames k \<subseteq> used_frames k' \<and> (\<forall>g. table_frame k g \<longrightarrow> table_frame k' g)
     \<and> same_entries k {(t, i)} (mem k')
     \<and> (if is_present (entry (mem k) t i) then k' = k
        else (let e = entry (mem k') t i in is_present e \<and> \<not> is_huge e \<and> table_frame k' (frame_of e)
          \<and> frame_of e \<notin> used_frames k \<and> (\<forall>j<512. entry (mem k') (frame_of e) j = 0)))"

lemma ensure_table_ok:
  fixes k :: "'a cpu_scheme"
  assumes ok: "pages_ok k" and t: "table_frame k t" and i: "i < 512"
    and w1: "\<And>m'. same_entries k {} m' \<Longrightarrow> mmu_walk (cr3 k) m' entry_va = Some (t + 8 * i)"
    and w2: "\<And>m' page j. same_entries k {(t, i)} m' \<Longrightarrow> frame_of page = page \<Longrightarrow> page \<notin> used_frames k \<Longrightarrow>
      entry m' t i = table_entry_flags page \<Longrightarrow> j < 512 \<Longrightarrow> mmu_walk (cr3 k) m' (table_va + 8 * j) = Some (page + 8 * j)"
  obtains (ready) k' where "vmm_ensure_table entry_va table_va k = Inr (True, k')" "level_done k k' t i"
  | (oom) k' where "vmm_ensure_table entry_va table_va k = Inr (False, k')" "cpu_log k' = cpu_log k" "pages_ok k'"
proof -
  have walk: "mmu_walk (cr3 k) (mem k) entry_va = Some (t + 8 * i)"
    by (rule w1) (simp add: same_entries_def)
  then have read: "vread entry_va k = Inr (entry (mem k) t i)"
    by (simp add: vread_def entry_def)
  show ?thesis
  proof (cases "is_present (entry (mem k) t i)")
    case True
    then have "vmm_ensure_table entry_va table_va k = Inr (True, k)"
      by (simp add: vmm_ensure_table_def read present_and)
    moreover have "level_done k k t i"
      using ok True by (simp add: level_done_def same_entries_def)
    ultimately show ?thesis by (rule ready)
  next
    case False
    obtain page k1 where alloc: "pmm_alloc_page k = (page, k1)"
      by fastforce
    have pok: "pmm_ok k"
      using ok by (simp add: pages_ok_def)
    have same: "pmm_same k k1"
      by (rule alloc_page_spec(2) [OF pok alloc])
    have more: "cpu_log k1 = cpu_log k" "cr3 k1 = cr3 k"
      using pmm_alloc_more [OF alloc] by blast+
    show ?thesis
    proof (cases "page = 0")
      case True
      have "vmm_ensure_table entry_va table_va k = Inr (False, k1)"
        using False True by (simp add: vmm_ensure_table_def read present_and alloc)
      moreover have "pages_ok k1"
        using pages_ok_alloc [OF ok alloc] .
      ultimately show ?thesis
        using more by (intro oom) auto
    next
      case nz: False
      note new = alloc_table_frame [OF ok alloc nz]
      have ent1: "entry (mem k1) f j = entry (mem k) f j" if "table_frame k f" "j < 512" for f j
        using entry_outside_bitmap [OF same] that by (simp add: table_frame_def)
      then have "mmu_walk (cr3 k) (mem k1) entry_va = Some (t + 8 * i)"
        by (intro w1) (simp add: same_entries_def)
      then have wr: "vwrite entry_va (table_entry_flags page) k1
          = Inr (k1\<lparr>mem := store64 (t + 8 * i) (table_entry_flags page) (mem k1)\<rparr>)"
        by (simp add: vwrite_def more)
      let ?k2 = "k1\<lparr>mem := store64 (t + 8 * i) (table_entry_flags page) (mem k1)\<rparr>"
      have t1: "table_frame k1 t"
        by (rule new(6) [OF t])
      note st = store_table [OF new(1) t1 i, of "table_entry_flags page"]
      have ent2: "entry (mem ?k2) f j = (if t = f \<and> i = j then table_entry_flags page else entry (mem k) f j)"
        if "table_frame k f" "j < 512" for f j
        using entry_store [OF i that(2) table_frameD [OF t] table_frameD [OF that(1)], of "table_entry_flags page" "mem k1"]
          ent1 [OF that] by simp
      have tp: "t \<noteq> page"
        using t new(4) by (auto simp: table_frame_def)
      have win: "mmu_walk (cr3 ?k2) m' (table_va + 8 * j) = Some (page + 8 * j)"
        if m': "same_entries ?k2 (in_table page) m'" and j: "j < 512" for m' j
      proof -
        have "entry m' f l = entry (mem ?k2) f l" if "table_frame k f" "l < 512" for f l
        proof -
          have "f \<noteq> page"
            using that(1) new(4) by (auto simp: table_frame_def)
          then show ?thesis
            using same_entriesD [OF m', of f l] st(2) new(6) that by auto
        qed
        then have "same_entries k {(t, i)} m'" "entry m' t i = table_entry_flags page"
          using ent2 t i by (auto simp: same_entries_def)
        then show ?thesis
          using w2 [OF _ new(3,4) _ j] by (simp add: more)
      qed
      obtain m' where m': "clear_table table_va ?k2 = Inr (?k2\<lparr>mem := m'\<rparr>)" "pages_ok (?k2\<lparr>mem := m'\<rparr>)"
        "used_frames (?k2\<lparr>mem := m'\<rparr>) = used_frames ?k2" "\<forall>g. table_frame (?k2\<lparr>mem := m'\<rparr>) g = table_frame ?k2 g"
        "\<forall>i<512. entry m' page i = 0" "same_entries ?k2 (in_table page) m'"
        using clear_table_ok [OF st(1) _ win] st(2) new(5) by blast
      let ?k3 = "?k2\<lparr>mem := m'\<rparr>"
      have "vmm_ensure_table entry_va table_va k = Inr (True, ?k3)"
        using False nz wr m'(1) unfolding table_entry_flags_def
        by (simp add: vmm_ensure_table_def read present_and alloc)
      moreover have "level_done k ?k3 t i"
      proof -
        have ent3: "entry m' f j = entry (mem ?k2) f j" if "table_frame k f" "j < 512" for f j
        proof -
          have "f \<noteq> page"
            using that(1) new(4) by (auto simp: table_frame_def)
          then show ?thesis
            using same_entriesD [OF m'(6), of f j] st(2) new(6) that by auto
        qed
        have e: "entry m' t i = table_entry_flags page"
          using ent3 [OF t i] ent2 [OF t i] by simp
        have "same_entries k {(t, i)} m'"
          using ent3 ent2 by (auto simp: same_entries_def)
        moreover have "table_frame ?k3 g = table_frame k1 g" "used_frames ?k3 = insert page (used_frames k)" for g
          using m'(3,4) st(2,3) new(7) by auto
        ultimately show ?thesis
          using m'(2,5) new(4-6) more False e new_entry [OF new(3)] unfolding level_done_def Let_def
          by auto
      qed
      ultimately show ?thesis by (rule ready)
    qed
  qed
qed

section \<open>Mapping a page\<close>

text \<open>The tables that already exist on the path of an address: table frames, all different, no large
  page, and not the recursive slot.\<close>

definition path_ok :: "'a cpu_scheme \<Rightarrow> u64 \<Rightarrow> bool" where
  "path_ok k va \<longleftrightarrow>
     (let p = frame_of (cr3 k);
          e4 = entry (mem k) p (pml4_index va); f4 = frame_of e4;
          e3 = entry (mem k) f4 (pdpt_index va); f3 = frame_of e3;
          e2 = entry (mem k) f3 (pd_index va); f2 = frame_of e2
      in pml4_index va \<noteq> 511 \<and> table_frame k p
         \<and> (is_present e4 \<longrightarrow> \<not> is_huge e4 \<and> table_frame k f4 \<and> f4 \<noteq> p
              \<and> (is_present e3 \<longrightarrow> \<not> is_huge e3 \<and> table_frame k f3 \<and> f3 \<noteq> p \<and> f3 \<noteq> f4
                   \<and> (is_present e2 \<longrightarrow> \<not> is_huge e2 \<and> table_frame k f2 \<and> f2 \<noteq> p \<and> f2 \<noteq> f4 \<and> f2 \<noteq> f3))))"

lemma zero_not_present [simp]: "\<not> is_present 0"
  by (simp add: is_present_def)

lemma level_doneD:
  assumes "level_done k k' t i"
  shows "pages_ok k'" "cr3 k' = cr3 k" "cpu_log k' = cpu_log k" "table_frame k g \<Longrightarrow> table_frame k' g"
    "same_entries k {(t, i)} (mem k')" "is_present (entry (mem k) t i) \<Longrightarrow> k' = k"
    "used_frames k \<subseteq> used_frames k'"
  using assms by (auto simp: level_done_def)

lemma level_done_new:
  assumes "level_done k k' t i" "\<not> is_present (entry (mem k) t i)" "e = entry (mem k') t i"
  shows "is_present e" "\<not> is_huge e" "table_frame k' (frame_of e)" "frame_of e \<notin> used_frames k"
    "j < 512 \<Longrightarrow> entry (mem k') (frame_of e) j = 0"
  using assms by (auto simp: level_done_def Let_def)

text \<open>After a level the next table exists, differs from the tables above it, and the conditions on the
  levels below carry over.\<close>

lemma level_next:
  assumes "level_done k k' t i" and above: "\<And>f. f \<in> A \<Longrightarrow> table_frame k f"
    and old: "is_present (entry (mem k) t i) \<Longrightarrow> \<not> is_huge (entry (mem k) t i)
      \<and> table_frame k (frame_of (entry (mem k) t i)) \<and> frame_of (entry (mem k) t i) \<notin> A"
  shows "is_present (entry (mem k') t i)" "\<not> is_huge (entry (mem k') t i)"
    "table_frame k' (frame_of (entry (mem k') t i))" "frame_of (entry (mem k') t i) \<notin> A"
proof -
  have "is_present (entry (mem k') t i) \<and> \<not> is_huge (entry (mem k') t i)
    \<and> table_frame k' (frame_of (entry (mem k') t i)) \<and> frame_of (entry (mem k') t i) \<notin> A"
  proof (cases "is_present (entry (mem k) t i)")
    case True
    then show ?thesis
      using level_doneD(6) [OF assms(1)] old by simp
  next
    case False
    note new = level_done_new [OF assms(1) False refl]
    have "frame_of (entry (mem k') t i) \<notin> A"
      using above new(4) by (auto simp: table_frame_def)
    then show ?thesis
      using new by blast
  qed
  then show "is_present (entry (mem k') t i)" "\<not> is_huge (entry (mem k') t i)"
    "table_frame k' (frame_of (entry (mem k') t i))" "frame_of (entry (mem k') t i) \<notin> A"
    by blast+
qed

lemma recursive_same:
  "recursive c m \<Longrightarrow> entry m' (frame_of c) 511 = entry m (frame_of c) 511 \<Longrightarrow> recursive c m'"
  by (simp add: recursive_def)

lemma same_entries_trans:
  assumes "same_entries k V (mem k1)" "same_entries k1 W m'" "\<And>f. table_frame k f \<Longrightarrow> table_frame k1 f"
  shows "same_entries k (V \<union> W) m'"
  using assms by (auto simp: same_entries_def)

lemma same_entries_mono: "same_entries k V m \<Longrightarrow> V \<subseteq> W \<Longrightarrow> same_entries k W m"
  by (auto simp: same_entries_def)

lemma path_okD:
  assumes "path_ok k va"
  shows "pml4_index va \<noteq> 511" "table_frame k (frame_of (cr3 k))"
    "e4 = entry (mem k) (frame_of (cr3 k)) (pml4_index va) \<Longrightarrow> is_present e4 \<Longrightarrow>
      \<not> is_huge e4 \<and> table_frame k (frame_of e4) \<and> frame_of e4 \<noteq> frame_of (cr3 k)"
    "e4 = entry (mem k) (frame_of (cr3 k)) (pml4_index va) \<Longrightarrow> is_present e4 \<Longrightarrow>
      e3 = entry (mem k) (frame_of e4) (pdpt_index va) \<Longrightarrow> is_present e3 \<Longrightarrow>
      \<not> is_huge e3 \<and> table_frame k (frame_of e3) \<and> frame_of e3 \<notin> {frame_of (cr3 k), frame_of e4}"
    "e4 = entry (mem k) (frame_of (cr3 k)) (pml4_index va) \<Longrightarrow> is_present e4 \<Longrightarrow>
      e3 = entry (mem k) (frame_of e4) (pdpt_index va) \<Longrightarrow> is_present e3 \<Longrightarrow>
      e2 = entry (mem k) (frame_of e3) (pd_index va) \<Longrightarrow> is_present e2 \<Longrightarrow>
      \<not> is_huge e2 \<and> table_frame k (frame_of e2) \<and> frame_of e2 \<notin> {frame_of (cr3 k), frame_of e4, frame_of e3}"
  using assms by (simp_all add: path_ok_def Let_def)

text \<open>The three levels one after the other.\<close>

lemma recursive_kept:
  assumes "recursive (cr3 k) (mem k)" "table_frame k (frame_of (cr3 k))" "same_entries k W m'"
    "(frame_of (cr3 k), 511) \<notin> W"
  shows "recursive (cr3 k) m'"
  by (rule recursive_same [OF assms(1)]) (rule same_entriesD [OF assms(3,2) _ assms(4)], simp)

definition level4 :: "'a cpu_scheme \<Rightarrow> u64 \<Rightarrow> bool" where
  "level4 k va \<longleftrightarrow> is_present (entry (mem k) (frame_of (cr3 k)) (pml4_index va))"

definition table3 :: "'a cpu_scheme \<Rightarrow> u64 \<Rightarrow> u64" where
  "table3 k va = frame_of (entry (mem k) (frame_of (cr3 k)) (pml4_index va))"

definition level3 :: "'a cpu_scheme \<Rightarrow> u64 \<Rightarrow> bool" where
  "level3 k va \<longleftrightarrow> level4 k va \<and> is_present (entry (mem k) (table3 k va) (pdpt_index va))"

definition table2 :: "'a cpu_scheme \<Rightarrow> u64 \<Rightarrow> u64" where
  "table2 k va = frame_of (entry (mem k) (table3 k va) (pdpt_index va))"

definition level2 :: "'a cpu_scheme \<Rightarrow> u64 \<Rightarrow> bool" where
  "level2 k va \<longleftrightarrow> level3 k va \<and> is_present (entry (mem k) (table2 k va) (pd_index va))"

definition table1 :: "'a cpu_scheme \<Rightarrow> u64 \<Rightarrow> u64" where
  "table1 k va = frame_of (entry (mem k) (table2 k va) (pd_index va))"

text \<open>What the levels need of the state, and what they keep.\<close>

definition map_ready :: "'a cpu_scheme \<Rightarrow> u64 \<Rightarrow> bool" where
  "map_ready k va \<longleftrightarrow> recursive (cr3 k) (mem k) \<and> pages_ok k \<and> path_ok k va"

lemma step4:
  fixes k :: "'a cpu_scheme"
  assumes ready: "map_ready k va"
  obtains k' where "vmm_ensure_table (PML4_VIRT_ADDR shifts_64 + 8 * pml4_index va) (PDPT_VIRT_ADDR shifts_64 (pml4_index va)) k = Inr (True, k')"
      "level_done k k' (frame_of (cr3 k)) (pml4_index va)" "map_ready k' va" "level4 k' va"
  | k' where "vmm_ensure_table (PML4_VIRT_ADDR shifts_64 + 8 * pml4_index va) (PDPT_VIRT_ADDR shifts_64 (pml4_index va)) k = Inr (False, k')"
      "cpu_log k' = cpu_log k" "pages_ok k'"
proof -
  let ?p = "frame_of (cr3 k)" and ?i = "pml4_index va"
  have rec: "recursive (cr3 k) (mem k)" and ok: "pages_ok k" and path: "path_ok k va"
    using ready by (simp_all add: map_ready_def)
  note P = path_okD [OF path]
  have 511: "(511 :: u64) < 512" by simp
  consider (ready) k' where "vmm_ensure_table (PML4_VIRT_ADDR shifts_64 + 8 * ?i) (PDPT_VIRT_ADDR shifts_64 ?i) k = Inr (True, k')"
      "level_done k k' ?p ?i"
    | (oom) k' where "vmm_ensure_table (PML4_VIRT_ADDR shifts_64 + 8 * ?i) (PDPT_VIRT_ADDR shifts_64 ?i) k = Inr (False, k')"
      "cpu_log k' = cpu_log k" "pages_ok k'"
  proof (rule ensure_table_ok [OF ok P(2), of ?i "PML4_VIRT_ADDR shifts_64 + 8 * ?i" "PDPT_VIRT_ADDR shifts_64 ?i"])
    show "mmu_walk (cr3 k) m' (PML4_VIRT_ADDR shifts_64 + 8 * ?i) = Some (?p + 8 * ?i)" if "same_entries k {} m'" for m'
      by (rule walk_pml4 [OF recursive_kept [OF rec P(2) that]]) simp_all
    show "mmu_walk (cr3 k) m' (PDPT_VIRT_ADDR shifts_64 ?i + 8 * j) = Some (page + 8 * j)"
      if "same_entries k {(?p, ?i)} m'" "frame_of page = page" "page \<notin> used_frames k"
        "entry m' ?p ?i = table_entry_flags page" "j < 512" for m' page j
      using walk_pdpt [OF recursive_kept [OF rec P(2) that(1)], of ?i j] P(1) that(4,5) new_entry [OF that(2)]
      by simp
  qed (use that in \<open>auto\<close>)
  then show ?thesis
  proof cases
    case (ready k')
    note D = level_doneD [OF ready(2)]
    have "path_ok k' va \<and> level4 k' va"
    proof (cases "is_present (entry (mem k) ?p ?i)")
      case True
      then show ?thesis
        using D(6) path by (simp add: level4_def)
    next
      case False
      note N = level_done_new [OF ready(2) False refl]
      have "frame_of (entry (mem k') ?p ?i) \<noteq> ?p"
        using N(4) P(2) by (auto simp: table_frame_def)
      then show ?thesis
        using N P(1) D(4) [OF P(2)] by (simp add: path_ok_def Let_def level4_def D(2))
    qed
    moreover have "recursive (cr3 k') (mem k')"
      unfolding D(2) by (rule recursive_kept [OF rec P(2) D(5)]) (use P(1) in auto)
    ultimately show ?thesis
      using that(1) ready D(1) by (simp add: map_ready_def)
  next
    case (oom k')
    then show ?thesis by (rule that(2))
  qed
qed

lemma step3:
  fixes k :: "'a cpu_scheme"
  assumes ready: "map_ready k va" and l4: "level4 k va"
  obtains k' where "vmm_ensure_table (PDPT_VIRT_ADDR shifts_64 (pml4_index va) + 8 * pdpt_index va)
      (PD_VIRT_ADDR shifts_64 (pml4_index va) (pdpt_index va)) k = Inr (True, k')"
      "level_done k k' (table3 k va) (pdpt_index va)" "map_ready k' va" "level3 k' va"
  | k' where "vmm_ensure_table (PDPT_VIRT_ADDR shifts_64 (pml4_index va) + 8 * pdpt_index va)
      (PD_VIRT_ADDR shifts_64 (pml4_index va) (pdpt_index va)) k = Inr (False, k')"
      "cpu_log k' = cpu_log k" "pages_ok k'"
proof -
  let ?p = "frame_of (cr3 k)" and ?i4 = "pml4_index va" and ?i = "pdpt_index va" and ?t = "table3 k va"
  let ?e4 = "entry (mem k) ?p ?i4"
  have rec: "recursive (cr3 k) (mem k)" and ok: "pages_ok k" and path: "path_ok k va"
    using ready by (simp_all add: map_ready_def)
  note P = path_okD [OF path]
  have e4: "is_present ?e4" "\<not> is_huge ?e4" "table_frame k ?t" "?t \<noteq> ?p" and t: "?t = frame_of ?e4"
    using l4 P(3) by (simp_all add: level4_def table3_def)
  consider (ready) k' where "vmm_ensure_table (PDPT_VIRT_ADDR shifts_64 ?i4 + 8 * ?i) (PD_VIRT_ADDR shifts_64 ?i4 ?i) k = Inr (True, k')"
      "level_done k k' ?t ?i"
    | (oom) k' where "vmm_ensure_table (PDPT_VIRT_ADDR shifts_64 ?i4 + 8 * ?i) (PD_VIRT_ADDR shifts_64 ?i4 ?i) k = Inr (False, k')"
      "cpu_log k' = cpu_log k" "pages_ok k'"
  proof (rule ensure_table_ok [OF ok e4(3), of ?i "PDPT_VIRT_ADDR shifts_64 ?i4 + 8 * ?i" "PD_VIRT_ADDR shifts_64 ?i4 ?i"])
    have keep: "entry m' ?p ?i4 = ?e4" if "same_entries k W m'" "(?p, ?i4) \<notin> W" for W m'
      by (rule same_entriesD [OF that(1) P(2) _ that(2)]) simp
    show "mmu_walk (cr3 k) m' (PDPT_VIRT_ADDR shifts_64 ?i4 + 8 * ?i) = Some (?t + 8 * ?i)" if "same_entries k {} m'" for m'
      using walk_pdpt [OF recursive_kept [OF rec P(2) that], of ?i4 ?i] keep [OF that] e4(1) by (simp add: t)
    show "mmu_walk (cr3 k) m' (PD_VIRT_ADDR shifts_64 ?i4 ?i + 8 * j) = Some (page + 8 * j)"
      if m': "same_entries k {(?t, ?i)} m'" "frame_of page = page" "page \<notin> used_frames k"
        "entry m' ?t ?i = table_entry_flags page" "j < 512" for m' page j
    proof -
      have k4: "entry m' ?p ?i4 = ?e4"
        by (rule keep [OF m'(1)]) (use e4(4) in auto)
      have rec': "recursive (cr3 k) m'"
        by (rule recursive_kept [OF rec P(2) m'(1)]) (use e4(4) in auto)
      show ?thesis
        using walk_pd [OF rec' _ _ m'(5), of ?i4 ?i ?e4] k4 e4(1,2) m'(4) new_entry [OF m'(2)] by (simp add: t)
    qed
  qed (use that in \<open>auto\<close>)
  then show ?thesis
  proof cases
    case (ready k')
    note D = level_doneD [OF ready(2)]
    have k4: "entry (mem k') ?p ?i4 = ?e4"
      by (rule same_entriesD [OF D(5) P(2)]) (use e4(4) in auto)
    have t': "table3 k' va = ?t" "level4 k' va"
      using l4 by (simp_all add: table3_def level4_def D(2) k4)
    have "path_ok k' va \<and> level3 k' va"
    proof (cases "is_present (entry (mem k) ?t ?i)")
      case True
      then show ?thesis
        using D(6) path l4 by (simp add: level3_def)
    next
      case False
      note N = level_done_new [OF ready(2) False refl]
      have "frame_of (entry (mem k') ?t ?i) \<noteq> ?p" "frame_of (entry (mem k') ?t ?i) \<noteq> ?t"
        using N(4) P(2) e4(3) by (auto simp: table_frame_def)
      then have "path_ok k' va"
        using N P(1) D(4) [OF P(2)] D(4) [OF e4(3)] e4 by (simp add: path_ok_def Let_def D(2) k4 t [symmetric])
      then show ?thesis
        using N(1) t' by (simp add: level3_def)
    qed
    moreover have "recursive (cr3 k') (mem k')"
      unfolding D(2) by (rule recursive_kept [OF rec P(2) D(5)]) (use e4(4) in auto)
    ultimately show ?thesis
      using that(1) ready D(1) by (simp add: map_ready_def)
  next
    case (oom k')
    then show ?thesis by (rule that(2))
  qed
qed

lemma step2:
  fixes k :: "'a cpu_scheme"
  assumes ready: "map_ready k va" and l3: "level3 k va"
  obtains k' where "vmm_ensure_table (PD_VIRT_ADDR shifts_64 (pml4_index va) (pdpt_index va) + 8 * pd_index va)
      (PT_VIRT_ADDR shifts_64 (pml4_index va) (pdpt_index va) (pd_index va)) k = Inr (True, k')"
      "level_done k k' (table2 k va) (pd_index va)" "map_ready k' va" "level2 k' va"
  | k' where "vmm_ensure_table (PD_VIRT_ADDR shifts_64 (pml4_index va) (pdpt_index va) + 8 * pd_index va)
      (PT_VIRT_ADDR shifts_64 (pml4_index va) (pdpt_index va) (pd_index va)) k = Inr (False, k')"
      "cpu_log k' = cpu_log k" "pages_ok k'"
proof -
  let ?p = "frame_of (cr3 k)" and ?i4 = "pml4_index va" and ?i3 = "pdpt_index va" and ?i = "pd_index va"
    and ?t3 = "table3 k va" and ?t = "table2 k va"
  let ?e4 = "entry (mem k) ?p ?i4" and ?e3 = "entry (mem k) (table3 k va) (pdpt_index va)"
  have rec: "recursive (cr3 k) (mem k)" and ok: "pages_ok k" and path: "path_ok k va"
    using ready by (simp_all add: map_ready_def)
  note P = path_okD [OF path]
  have t3: "?t3 = frame_of ?e4" and t: "?t = frame_of ?e3"
    by (simp_all add: table3_def table2_def)
  have e4: "is_present ?e4" "\<not> is_huge ?e4" "table_frame k ?t3" "?t3 \<noteq> ?p"
    using l3 P(3) by (simp_all add: level3_def level4_def t3)
  have e3: "is_present ?e3" "\<not> is_huge ?e3" "table_frame k ?t" "?t \<noteq> ?p" "?t \<noteq> ?t3"
    using l3 P(4) [OF refl e4(1) refl] by (simp_all add: level3_def t t3)
  let ?A = "PD_VIRT_ADDR shifts_64 ?i4 ?i3 + 8 * ?i" and ?T = "PT_VIRT_ADDR shifts_64 ?i4 ?i3 ?i"
  consider (ready) k' where "vmm_ensure_table ?A ?T k = Inr (True, k')" "level_done k k' ?t ?i"
    | (oom) k' where "vmm_ensure_table ?A ?T k = Inr (False, k')" "cpu_log k' = cpu_log k" "pages_ok k'"
  proof (rule ensure_table_ok [OF ok e3(3), of ?i ?A ?T])
    have keep: "entry m' ?p ?i4 = ?e4" "entry m' ?t3 ?i3 = ?e3" "recursive (cr3 k) m'"
      if "same_entries k W m'" "\<And>j. (?p, j) \<notin> W" "\<And>j. (?t3, j) \<notin> W" for W m'
      by (rule same_entriesD [OF that(1) P(2) _ that(2)], simp)
        (rule same_entriesD [OF that(1) e4(3) _ that(3)], simp, rule recursive_kept [OF rec P(2) that(1,2)])
    show "mmu_walk (cr3 k) m' ?A = Some (?t + 8 * ?i)" if "same_entries k {} m'" for m'
      using walk_pd [OF keep(3) [OF that], of ?i4 ?i3 ?i ?e4] keep(1,2) [OF that] e4(1,2) e3(1) by (simp add: t t3 [symmetric])
    show "mmu_walk (cr3 k) m' (?T + 8 * j) = Some (page + 8 * j)"
      if m': "same_entries k {(?t, ?i)} m'" "frame_of page = page" "page \<notin> used_frames k"
        "entry m' ?t ?i = table_entry_flags page" "j < 512" for m' page j
    proof -
      have K: "entry m' ?p ?i4 = ?e4" "entry m' ?t3 ?i3 = ?e3" "recursive (cr3 k) m'"
        using keep [OF m'(1)] e3(4,5) by auto
      show ?thesis
        using walk_pt [OF K(3) _ _ _ m'(5), of ?i4 ?i3 ?i ?e4 ?e3] K(1,2) e4(1,2) e3(1,2) m'(4) new_entry [OF m'(2)]
        by (simp add: t t3 [symmetric])
    qed
  qed (use that in \<open>auto\<close>)
  then show ?thesis
  proof cases
    case (ready k')
    note D = level_doneD [OF ready(2)]
    have k4: "entry (mem k') ?p ?i4 = ?e4"
      by (rule same_entriesD [OF D(5) P(2)]) (use e3(4) in auto)
    have k3: "entry (mem k') ?t3 ?i3 = ?e3"
      by (rule same_entriesD [OF D(5) e4(3)]) (use e3(5) in auto)
    have t3': "table3 k' va = ?t3"
      unfolding table3_def D(2) k4 by (rule refl)
    have t': "table2 k' va = ?t"
      unfolding table2_def t3' k3 by (rule refl)
    have l3': "level3 k' va"
      unfolding level3_def level4_def D(2) k4 t3' k3 using e4(1) e3(1) by blast
    have "path_ok k' va \<and> level2 k' va"
    proof (cases "is_present (entry (mem k) ?t ?i)")
      case True
      then show ?thesis
        using D(6) path l3 by (simp add: level2_def)
    next
      case False
      note N = level_done_new [OF ready(2) False refl]
      let ?f = "frame_of (entry (mem k') ?t ?i)"
      have "?f \<noteq> ?p" "?f \<noteq> ?t3" "?f \<noteq> ?t"
        using N(4) P(2) e4(3) e3(3) by (auto simp: table_frame_def)
      then have "path_ok k' va"
        unfolding path_ok_def Let_def D(2) k4 t3 [symmetric] k3 t [symmetric]
        using N(1-3) P(1) D(4) [OF P(2)] D(4) [OF e4(3)] D(4) [OF e3(3)] e4 e3 N(5) [OF index_lt(4)]
        by (metis zero_not_present)
      then show ?thesis
        using N(1) l3' unfolding level2_def t' by blast
    qed
    moreover have "recursive (cr3 k') (mem k')"
      unfolding D(2) by (rule recursive_kept [OF rec P(2) D(5)]) (use e3(4) in auto)
    ultimately show ?thesis
      using that(1) ready D(1) by (simp add: map_ready_def)
  next
    case (oom k')
    then show ?thesis by (rule that(2))
  qed
qed

lemma new_leaf:
  assumes "is_present flags" "flags AND frame_mask = 0"
  shows "is_present ((pa AND frame_mask) OR flags) \<and> frame_of ((pa AND frame_mask) OR flags) = frame_of pa"
proof
  show "is_present ((pa AND frame_mask) OR flags)"
    using assms(1) by (simp add: is_present_def bit_or_iff)
  have "frame_of ((pa AND frame_mask) OR flags) = (frame_of (frame_of pa)) OR (flags AND frame_mask)"
    unfolding frame_of_def by (rule bit_word_eqI) (auto simp: bit_simps)
  then show "frame_of ((pa AND frame_mask) OR flags) = frame_of pa"
    by (simp add: assms(2))
qed

lemma pages_cpu_do:
  "pages_ok (cpu_do io k) = pages_ok k" "used_frames (cpu_do io k) = used_frames k"
  "table_frame (cpu_do io k) f = table_frame k f"
  by (simp_all add: pages_ok_def pmm_ok_def used_frames_def used_set_def pmm_is_page_used_def cpu_do_def table_frame_def)

lemma level_done_keeps:
  assumes "level_done k k' t i" "table_frame k f" "j < 512" "is_present (entry (mem k) f j)"
  shows "entry (mem k') f j = entry (mem k) f j"
proof (cases "(f, j) = (t, i)")
  case True
  then show ?thesis
    using level_doneD(6) [OF assms(1)] assms(4) by simp
next
  case False
  then show ?thesis
    using same_entriesD [OF level_doneD(5) [OF assms(1)] assms(2,3)] by simp
qed

text \<open>The last access: the entry of the page table is written, and the walk ends with it.\<close>

lemma step1_any:
  fixes k :: "'a cpu_scheme" and e :: u64
  assumes ready: "map_ready k va" and l2: "level2 k va"
  defines "k' \<equiv> k\<lparr>mem := store64 (table1 k va + 8 * pt_index va) e (mem k)\<rparr>"
  shows "vwrite (PT_VIRT_ADDR shifts_64 (pml4_index va) (pdpt_index va) (pd_index va) + 8 * pt_index va) e k = Inr k'"
    "pages_ok k'" "used_frames k' = used_frames k" "recursive (cr3 k) (mem k')"
    "canonical va \<Longrightarrow> mmu_walk (cr3 k) (mem k') va = (if is_present e then Some (frame_of e + (va AND 0xFFF)) else None)"
    "table_frame k f \<Longrightarrow> j < 512 \<Longrightarrow> (f, j) \<noteq> (table1 k va, pt_index va) \<Longrightarrow> entry (mem k') f j = entry (mem k) f j"
proof -
  let ?p = "frame_of (cr3 k)" and ?t3 = "table3 k va" and ?t2 = "table2 k va" and ?t1 = "table1 k va"
  let ?e4 = "entry (mem k) ?p (pml4_index va)" and ?e3 = "entry (mem k) ?t3 (pdpt_index va)"
    and ?e2 = "entry (mem k) ?t2 (pd_index va)"
  have rec: "recursive (cr3 k) (mem k)" and ok: "pages_ok k" and path: "path_ok k va"
    using ready by (simp_all add: map_ready_def)
  note P = path_okD [OF path]
  have t3: "frame_of ?e4 = ?t3" and t2: "frame_of ?e3 = ?t2" and t1: "frame_of ?e2 = ?t1"
    by (simp_all add: table3_def table2_def table1_def)
  have l: "is_present ?e4" "is_present ?e3" "is_present ?e2"
    using l2 by (simp_all add: level2_def level3_def level4_def)
  have e4: "\<not> is_huge ?e4 \<and> table_frame k ?t3 \<and> ?t3 \<noteq> ?p"
    using P(3) [OF refl l(1)] unfolding t3 .
  have e3: "\<not> is_huge ?e3 \<and> table_frame k ?t2 \<and> ?t2 \<notin> {?p, ?t3}"
    using P(4) [OF refl l(1) _ l(2)] unfolding t3 t2 by blast
  have e2: "\<not> is_huge ?e2 \<and> table_frame k ?t1 \<and> ?t1 \<notin> {?p, ?t3, ?t2}"
    using P(5) [OF refl l(1) _ l(2) _ l(3)] unfolding t3 t2 t1 by blast
  have "mmu_walk (cr3 k) (mem k) (PT_VIRT_ADDR shifts_64 (pml4_index va) (pdpt_index va) (pd_index va) + 8 * pt_index va)
      = Some (?t1 + 8 * pt_index va)"
    using walk_pt [OF rec index_lt(1-4) [of va] refl l(1) _ refl, unfolded t3, OF _ l(2), unfolded t2, OF _ _ l(3)] e4 e3
    unfolding t1 by blast
  then show "vwrite (PT_VIRT_ADDR shifts_64 (pml4_index va) (pdpt_index va) (pd_index va) + 8 * pt_index va) e k = Inr k'"
    by (simp add: vwrite_def k'_def)
  have tf1: "table_frame k ?t1"
    using e2 by blast
  show "pages_ok k'" "used_frames k' = used_frames k"
    unfolding k'_def by (rule store_table(1,3) [OF ok tf1 index_lt(4)])+
  have ent: "entry (mem k') f j = (if ?t1 = f \<and> pt_index va = j then e else entry (mem k) f j)"
    if "table_frame k f" "j < 512" for f j
    using entry_store [OF index_lt(4) that(2) table_frameD [OF tf1] table_frameD [OF that(1)]] by (simp add: k'_def)
  then show "table_frame k f \<Longrightarrow> j < 512 \<Longrightarrow> (f, j) \<noteq> (table1 k va, pt_index va) \<Longrightarrow> entry (mem k') f j = entry (mem k) f j"
    by auto
  show "recursive (cr3 k) (mem k')"
    by (rule recursive_same [OF rec]) (use ent [OF P(2), of 511] e2 in auto)
  have k: "entry (mem k') ?p (pml4_index va) = ?e4" "entry (mem k') ?t3 (pdpt_index va) = ?e3"
    "entry (mem k') ?t2 (pd_index va) = ?e2" "entry (mem k') ?t1 (pt_index va) = e"
    using ent P(2) e4 e3 e2 by auto
  have off: "va AND 0xFFF < 4096"
    by (simp add: word_less_nat_alt unat_and_FFF)
  show "canonical va \<Longrightarrow> mmu_walk (cr3 k) (mem k') va = (if is_present e then Some (frame_of e + (va AND 0xFFF)) else None)"
    using l e4 e3 e2 unfolding mmu_walk_def Let_def k(1) t3 k(2) t2 k(3) t1 k(4) frame_add [OF off]
    by simp
qed

lemma levels_keep:
  assumes "level_done k k1 t4 i4" "level_done k1 k2 t3 i3" "level_done k2 k3 t2 i2"
    and "table_frame k f" "j < 512" "is_present (entry (mem k) f j)"
  shows "table_frame k3 f" "entry (mem k3) f j = entry (mem k) f j"
proof -
  have f: "table_frame k1 f" "table_frame k2 f" "table_frame k3 f"
    using assms(4) level_doneD(4) [OF assms(1)] level_doneD(4) [OF assms(2)] level_doneD(4) [OF assms(3)] by blast+
  have "entry (mem k1) f j = entry (mem k) f j"
    by (rule level_done_keeps [OF assms(1,4-6)])
  moreover from this have "entry (mem k2) f j = entry (mem k1) f j"
    using level_done_keeps [OF assms(2) f(1) assms(5)] assms(6) by simp
  moreover from calculation have "entry (mem k3) f j = entry (mem k2) f j"
    using level_done_keeps [OF assms(3) f(2) assms(5)] assms(6) by simp
  ultimately show "entry (mem k3) f j = entry (mem k) f j" "table_frame k3 f"
    using f(3) by simp_all
qed


section \<open>Unmapping a page\<close>


section \<open>Shifts of an int\<close>

lemma pt_addr_not_canonical:
  assumes "i4 < 512" "i3 < 512" "i2 < 512" "off < 4096"
  shows "\<not> canonical (PT_VIRT_ADDR shifts_32 i4 i3 i2 + off)"
proof -
  have eq: "PT_VIRT_ADDR shifts_32 i4 i3 i2 = high_addr 0 i4 i3 i2"
    by (simp add: PT_VIRT_ADDR_def shifts_32_def high_addr_def)
  have z: "(0 :: u64) < 512" by simp
  note b = high_addr_bits [OF z assms]
  have "bit (drop_bit 47 (high_addr 0 i4 i3 i2 + off)) n = (1 \<le> n \<and> n < 17)" for n
    using b [of "47 + n"] by (auto simp: bit_drop_bit_eq)
  then have "bit (drop_bit 47 (high_addr 0 i4 i3 i2 + off)) 0 \<noteq> bit (0x1FFFF :: u64) 0"
    "bit (drop_bit 47 (high_addr 0 i4 i3 i2 + off)) 1 \<noteq> bit (0 :: u64) 1"
    by simp_all
  then show ?thesis
    unfolding canonical_def eq by metis
qed

text \<open>If the compiler folds \<open>511 << 39\<close> on an \<open>int\<close> to 0, as it may, the address that
  \<open>PT_VIRT_ADDR\<close> computes is not canonical: whenever the page table of an address exists, the
  translation, the mapping and the unmapping of the address all fault at that access (the tables
  above are still reached).\<close>

theorem int_shift_faults:
  assumes "recursive (cr3 k) (mem k)" and "level2 k va" and "small_pages (cr3 k) (mem k) va"
  shows "vmm_virt_to_phys shifts_32 va k = Inl PageFault \<and> vmm_unmap_page shifts_32 va k = Inl PageFault
    \<and> vmm_map_page shifts_32 va phys_addr flags k = Inl PageFault"
proof -
  note reads = vread_levels [OF assms(1)]
  let ?e4 = "entry (mem k) (frame_of (cr3 k)) (pml4_index va)" and ?e3 = "entry (mem k) (table3 k va) (pdpt_index va)"
    and ?e2 = "entry (mem k) (table2 k va) (pd_index va)"
  have l: "is_present ?e4" "is_present ?e3" "is_present ?e2"
    using assms(2) by (simp_all add: level2_def level3_def level4_def)
  have h: "\<not> is_huge ?e4" "\<not> is_huge ?e3"
    using assms(3) by (simp_all add: small_pages_def Let_def table3_def)
  have r4: "vread (PML4_VIRT_ADDR shifts_64 + 8 * pml4_index va) k = Inr ?e4"
    by (rule reads(1)) simp
  have r3: "vread (PDPT_VIRT_ADDR shifts_64 (pml4_index va) + 8 * pdpt_index va) k = Inr ?e3"
    unfolding table3_def by (rule reads(2)) (simp_all add: l)
  have r2: "vread (PD_VIRT_ADDR shifts_64 (pml4_index va) (pdpt_index va) + 8 * pd_index va) k = Inr ?e2"
    unfolding table2_def by (rule reads(3)) (use l h in \<open>simp_all add: table3_def\<close>)
  have "8 * pt_index va < 4096"
    by (rule entry_off) simp
  then have none: "mmu_walk c m (PT_VIRT_ADDR shifts_32 (pml4_index va) (pdpt_index va) (pd_index va) + 8 * pt_index va) = None" for c m
    using pt_addr_not_canonical [OF index_lt(1-3)] by (simp add: mmu_walk_def)
  have r1: "vread (PT_VIRT_ADDR shifts_32 (pml4_index va) (pdpt_index va) (pd_index va) + 8 * pt_index va) k = Inl PageFault"
    "vwrite (PT_VIRT_ADDR shifts_32 (pml4_index va) (pdpt_index va) (pd_index va) + 8 * pt_index va) v k = Inl PageFault" for v
    by (simp_all add: vread_def vwrite_def none)
  show ?thesis
    using r4 r3 r2 r1 l
    by (simp add: vmm_virt_to_phys_def vmm_unmap_page_def vmm_map_page_def vmm_ensure_table_def Let_def table_addrs_32 present_and)
qed

section \<open>A small machine with page tables\<close>

text \<open>16 pages: the PML4 in page 1 with its recursive entry, the bitmap in page 2, and the tables of
  address 0 in the pages 3, 4 and 5, which map it to page 6.\<close>

definition paging_mem :: memory where
  "paging_mem = (\<lambda>_. 0)(0x2000 := 0x3F, 0x1000 := 3, 0x1001 := 0x30, 0x1FF8 := 3, 0x1FF9 := 0x10,
     0x3000 := 3, 0x3001 := 0x40, 0x4000 := 3, 0x4001 := 0x50, 0x5000 := 3, 0x5001 := 0x60)"

definition paging_demo :: vmm where
  "paging_demo = \<lparr>con = quiet_console, mem = paging_mem, total_memory = 0x10000, usable_memory = 0,
     pmm_bitmap = 0x2000, total_pages = 16, used_pages = 6, bitmap_size = 2,
     heap_start = 0, heap_current = 0, heap_end = 0, cr3 = 0x1000, msr = (\<lambda>_. 0),
     cpuid_value = (\<lambda>_. (0, 0, 0, 0)), cpu_log = [], tsc_khz = 0, pml4 = 0\<rparr>"

lemma words_below: "{p :: u64. p < of_nat n} = of_nat ` {..<n}" if "n < 2 ^ 64"
proof -
  have "p \<in> of_nat ` {..<n}" if "p < of_nat n" for p :: u64
    using that \<open>n < 2 ^ 64\<close> by (intro image_eqI [of _ _ "unat p"]) (auto simp: word_less_nat_alt unat_of_nat_lt)
  moreover have "(of_nat m :: u64) < of_nat n" if "m < n" for m
    using that \<open>n < 2 ^ 64\<close> by (simp add: word_less_nat_alt unat_of_nat_lt)
  ultimately show ?thesis by auto
qed

lemma paging_used: "used_set paging_demo = {0, 1, 2, 3, 4, 5}"
proof -
  have "used_set paging_demo = {p \<in> of_nat ` {..<16}. pmm_is_page_used p paging_demo}"
    using words_below [of 16] by (auto simp: used_set_def paging_demo_def)
  also have "\<dots> = set (filter (\<lambda>p. pmm_is_page_used p paging_demo) (map of_nat [0..<16]))"
    by (simp only: set_filter set_map set_upt atLeast0LessThan)
  also have "\<dots> = {0, 1, 2, 3, 4, 5}"
    by code_simp
  finally show ?thesis .
qed

lemma paging_frames: "used_frames paging_demo = {0, 0x1000, 0x2000, 0x3000, 0x4000, 0x5000}"
  by (simp add: used_frames_def paging_used)

lemma paging_sel: "cr3 paging_demo = 0x1000" "mem paging_demo = paging_mem" "pmm_bitmap paging_demo = 0x2000"
  "bitmap_size paging_demo = 2" "total_pages paging_demo = 16" "used_pages paging_demo = 6" "cpu_log paging_demo = []"
  by (simp_all add: paging_demo_def)

lemma paging_entries: "entry paging_mem 0x1000 511 = 0x1003" "entry paging_mem 0x1000 0 = 0x3003"
  "entry paging_mem 0x3000 0 = 0x4003" "entry paging_mem 0x4000 0 = 0x5003" "entry paging_mem 0x5000 0 = 0x6003"
  "entry paging_mem 0x5000 1 = 0"
  by (code_simp, code_simp, code_simp, code_simp, code_simp, code_simp)

lemma paging_flags: "is_present 0x1003" "is_present 0x3003" "is_present 0x4003" "is_present 0x5003" "is_present 0x6003"
  "\<not> is_huge 0x1003" "\<not> is_huge 0x3003" "\<not> is_huge 0x4003" "\<not> is_huge 0x5003"
  "frame_of 0x1000 = 0x1000" "frame_of 0x1003 = 0x1000" "frame_of 0x3003 = 0x3000" "frame_of 0x4003 = 0x4000"
  "frame_of 0x5003 = 0x5000" "frame_of 0x6003 = 0x6000"
  by (code_simp+)

lemma paging_index: "pml4_index 0 = 0" "pdpt_index 0 = 0" "pd_index 0 = 0" "pt_index 0 = 0"
  "pml4_index 0x1000 = 0" "pdpt_index 0x1000 = 0" "pd_index 0x1000 = 0" "pt_index 0x1000 = 1"
  by (code_simp+)

lemma paging_bitmap: "in_range 0x2000 2 x \<Longrightarrow> frame_of x = 0x2000"
proof -
  assume "in_range 0x2000 2 x"
  then have "x - 0x2000 < 4096"
    by (simp add: in_range_def word_less_nat_alt)
  then show "frame_of x = 0x2000"
    using frame_of_add [of "x - 0x2000" "0x2000"] by (simp add: frame_of_def frame_mask_def)
qed

lemma paging_tables: "table_frame paging_demo 0x1000" "table_frame paging_demo 0x3000" "table_frame paging_demo 0x4000"
  "table_frame paging_demo 0x5000"
  using paging_bitmap by (auto simp: table_frame_def paging_sel paging_frames frame_of_def frame_mask_def)

lemma paging_ok: "recursive (cr3 paging_demo) (mem paging_demo)" "pages_ok paging_demo"
  "path_ok paging_demo 0" "path_ok paging_demo 0x1000" "level2 paging_demo 0"
  "small_pages (cr3 paging_demo) (mem paging_demo) 0"
proof -
  show "recursive (cr3 paging_demo) (mem paging_demo)"
    by (simp add: recursive_def Let_def paging_sel paging_flags paging_entries)
  have "pmm_ok paging_demo"
    by (simp add: pmm_ok_def paging_sel paging_used)
  then show "pages_ok paging_demo"
    using paging_bitmap by (auto simp: pages_ok_def paging_sel paging_frames)
  show "path_ok paging_demo 0" "path_ok paging_demo 0x1000"
    by (simp_all add: path_ok_def Let_def paging_index paging_sel paging_flags paging_entries paging_tables)
  show "level2 paging_demo 0"
    by (simp add: level2_def level3_def level4_def table2_def table3_def paging_index paging_sel paging_flags paging_entries)
  show "small_pages (cr3 paging_demo) (mem paging_demo) 0"
    by (simp add: small_pages_def Let_def paging_index paging_sel paging_flags paging_entries)
qed

lemma paging_walk: "mmu_walk 0x1000 paging_mem 0 = Some 0x6000"
  by (simp add: mmu_walk_def Let_def paging_index paging_flags paging_entries canonical_def)




theorem int_shift_faults_witness: "vmm_virt_to_phys shifts_32 0 paging_demo = Inl PageFault"
  using int_shift_faults [OF paging_ok(1,5,6)] by blast

end
