(* ===== verification/Apic.thy ===== *)
theory Apic
  imports Vmm
begin

text \<open>
  The local interrupt controller of \<^verbatim>\<open>c/kernel/minimal_step9.c\<close>: the register access
  \<open>apic_read\<close> and \<open>apic_write\<close> over its two implementations (memory mapped xAPIC, model specific
  registers for x2APIC), \<open>apic_init\<close>, the timer, and inter-processor interrupts.

  The memory mapped registers are the cells \<open>mmio\<close>, by address.  The delivery status bit of the
  interrupt command register is the device's: a write to its low half makes it busy for
  \<open>icr_delay\<close> reads of its status, a number the environment chooses for each command (\<open>icr_left\<close>
  counts them down).  The locale \<open>register_file\<close> is what the initialisation relies on; both
  modes satisfy it.
\<close>

record apic = vmm +
  use_x2apic :: bool
  apic_base :: u64
  mmio :: "u64 \<Rightarrow> u32"
  icr_left :: nat
  icr_delay :: "nat \<Rightarrow> nat"
  timer_init_debug :: "u32 list"

section \<open>Registers\<close>

definition APIC_BASE_MSR :: u32 where "APIC_BASE_MSR = 0x1B"
definition APIC_BASE_ENABLE :: u64 where "APIC_BASE_ENABLE = push_bit 11 1"
definition X2APIC_ENABLE :: u64 where "X2APIC_ENABLE = push_bit 10 1"

definition APIC_ID_REG :: u32 where "APIC_ID_REG = 0x20"
definition APIC_TPR_REG :: u32 where "APIC_TPR_REG = 0x80"
definition APIC_EOI_REG :: u32 where "APIC_EOI_REG = 0xB0"
definition APIC_SVR_REG :: u32 where "APIC_SVR_REG = 0xF0"
definition APIC_ENABLE :: u32 where "APIC_ENABLE = 0x100"
definition SPURIOUS_VECTOR :: u32 where "SPURIOUS_VECTOR = 0xFF"
definition APIC_ICR_LOW :: u32 where "APIC_ICR_LOW = 0x300"
definition APIC_ICR_HIGH :: u32 where "APIC_ICR_HIGH = 0x310"
definition APIC_TIMER_LVT :: u32 where "APIC_TIMER_LVT = 0x320"
definition APIC_TIMER_ICR :: u32 where "APIC_TIMER_ICR = 0x380"
definition APIC_TIMER_DCR :: u32 where "APIC_TIMER_DCR = 0x3E0"

definition X2APIC_MSR_BASE :: u32 where "X2APIC_MSR_BASE = 0x800"
definition X2APIC_APICID :: u32 where "X2APIC_APICID = 0x802"
definition X2APIC_TPR :: u32 where "X2APIC_TPR = 0x808"
definition X2APIC_EOI :: u32 where "X2APIC_EOI = 0x80B"
definition X2APIC_SVR :: u32 where "X2APIC_SVR = 0x80F"
definition X2APIC_ICR :: u32 where "X2APIC_ICR = 0x830"
definition X2APIC_LVT_TIMER :: u32 where "X2APIC_LVT_TIMER = 0x832"
definition X2APIC_TIMER_ICR :: u32 where "X2APIC_TIMER_ICR = 0x838"
definition X2APIC_TIMER_DCR :: u32 where "X2APIC_TIMER_DCR = 0x83E"

definition APIC_TIMER_PERIODIC :: u32 where "APIC_TIMER_PERIODIC = 0x20000"
definition TIMER_VECTOR :: u32 where "TIMER_VECTOR = 32"

definition APIC_DM_INIT :: u32 where "APIC_DM_INIT = 0x500"
definition APIC_DM_STARTUP :: u32 where "APIC_DM_STARTUP = 0x600"
definition APIC_INT_LEVELTRIG :: u32 where "APIC_INT_LEVELTRIG = 0x8000"
definition APIC_INT_ASSERT :: u32 where "APIC_INT_ASSERT = 0x4000"

text \<open>A read and a write of the word \<open>apic_base[i]\<close>.\<close>

definition mmio_addr :: "u32 \<Rightarrow> 'a apic_scheme \<Rightarrow> u64" where
  "mmio_addr i k = apic_base k + 4 * ucast i"

definition icr_low_addr :: "'a apic_scheme \<Rightarrow> u64" where
  "icr_low_addr k = mmio_addr (drop_bit 2 APIC_ICR_LOW) k"

definition mmio_read :: "u32 \<Rightarrow> 'a apic_scheme \<Rightarrow> u32 \<times> 'a apic_scheme" where
  "mmio_read i k =
     (let v = mmio k (mmio_addr i k) in
      if mmio_addr i k = icr_low_addr k then
        (if icr_left k = 0 then (v AND NOT (push_bit 12 1), k)
         else (v OR push_bit 12 1, k\<lparr>icr_left := icr_left k - 1\<rparr>))
      else (v, k))"

definition mmio_write :: "u32 \<Rightarrow> u32 \<Rightarrow> 'a apic_scheme \<Rightarrow> 'a apic_scheme" where
  "mmio_write i v k =
     (let k = cpu_do (MmioWrite (mmio_addr i k) v) (k\<lparr>mmio := (mmio k)(mmio_addr i k := v)\<rparr>)
      in if mmio_addr i k = icr_low_addr k then k\<lparr>icr_left := icr_delay k (length (cpu_log k))\<rparr> else k)"

definition apic_read :: "u32 \<Rightarrow> 'a apic_scheme \<Rightarrow> u32 \<times> 'a apic_scheme" where
  "apic_read reg k =
     (if use_x2apic k then
        let msr_no = X2APIC_MSR_BASE + drop_bit 4 reg in (ucast (rdmsr msr_no k), k)
      else mmio_read (drop_bit 2 reg) k)"

definition apic_write :: "u32 \<Rightarrow> u32 \<Rightarrow> 'a apic_scheme \<Rightarrow> 'a apic_scheme" where
  "apic_write reg v k =
     (if use_x2apic k then
        let msr_no = X2APIC_MSR_BASE + drop_bit 4 reg in wrmsr msr_no (ucast v) k
      else mmio_write (drop_bit 2 reg) v k)"

section \<open>Initialisation\<close>

definition disable_pic :: "'a apic_scheme \<Rightarrow> 'a apic_scheme" where
  "disable_pic k =
     (let k = kprint [Ln ''[PIC] Disabling legacy 8259 PIC...''] k;
          k = k\<lparr>con := outb 0x21 0xFF (con k)\<rparr>;
          k = k\<lparr>con := outb 0xA1 0xFF (con k)\<rparr>
      in kprint [Ln ''[PIC] Legacy PIC disabled''] k)"

definition apic_init :: "'a apic_scheme \<Rightarrow> 'a apic_scheme" where
  "apic_init k =
     (let k = kprint [S [newline_char], Ln ''[APIC] Initializing Local APIC...''] k;
          k = disable_pic k;
          (eax, ebx, ecx, edx) = cpuid 1 k;
          x2apic_available = drop_bit 21 ecx AND 1;
          k = (if x2apic_available \<noteq> 0 then
                 let k = kprint [Ln ''[APIC] x2APIC supported - enabling x2APIC mode''] k;
                     apic_msr = rdmsr APIC_BASE_MSR k;
                     (apic_msr, k) =
                       (if apic_msr AND APIC_BASE_ENABLE = 0 then
                          let apic_msr = apic_msr OR APIC_BASE_ENABLE in (apic_msr, wrmsr APIC_BASE_MSR apic_msr k)
                        else (apic_msr, k));
                     apic_msr = apic_msr OR X2APIC_ENABLE;
                     k = wrmsr APIC_BASE_MSR apic_msr k;
                     k = k\<lparr>use_x2apic := True\<rparr>;
                     k = wrmsr X2APIC_SVR (ucast (APIC_ENABLE OR SPURIOUS_VECTOR)) k;
                     k = wrmsr X2APIC_TPR 0 k;
                     apic_id = ucast (rdmsr X2APIC_APICID k) :: u32
                 in kprint [Ln ''[APIC] x2APIC mode enabled (MSR-based)'', S ''[APIC] BSP APIC ID: '', D apic_id, Ln ''''] k
               else
                 let k = kprint [Ln ''[APIC] x2APIC not available - using xAPIC mode''] k;
                     apic_msr = rdmsr APIC_BASE_MSR k;
                     apic_phys_addr = apic_msr AND 0xFFFFF000;
                     k = kprint [Ln ''[APIC] Physical address: 0xFEE00000 (default)''] k;
                     k = k\<lparr>apic_base := apic_phys_addr\<rparr>;
                     k = (if apic_msr AND APIC_BASE_ENABLE = 0 then
                            let k = kprint [Ln ''[APIC] Enabling APIC in MSR...''] k
                            in wrmsr APIC_BASE_MSR (apic_msr OR APIC_BASE_ENABLE) k
                          else k);
                     k = kprint [Ln ''[APIC] Enabling APIC (SVR register)...''] k;
                     k = apic_write APIC_SVR_REG (APIC_ENABLE OR SPURIOUS_VECTOR) k;
                     k = apic_write 0x80 0 k;
                     (idreg, k) = apic_read APIC_ID_REG k;
                     apic_id = drop_bit 24 idreg;
                     k = kprint [S ''[APIC] BSP APIC ID: '', D apic_id, Ln ''''] k
                 in k\<lparr>use_x2apic := False\<rparr>)
      in kprint [Ln ''[APIC] Local APIC initialized successfully!''] k)"

text \<open>One register written and read back into \<open>timer_init_debug\<close>, by the MSR or by the offset.\<close>

definition debug_read :: "nat \<Rightarrow> u32 \<Rightarrow> u32 \<Rightarrow> 'a apic_scheme \<Rightarrow> 'a apic_scheme" where
  "debug_read slot msr_no reg k =
     (if use_x2apic k then k\<lparr>timer_init_debug := (timer_init_debug k)[slot := ucast (rdmsr msr_no k)]\<rparr>
      else let (v, k) = apic_read reg k in k\<lparr>timer_init_debug := (timer_init_debug k)[slot := v]\<rparr>)"

definition timer_reg_write :: "u32 \<Rightarrow> u32 \<Rightarrow> u32 \<Rightarrow> 'a apic_scheme \<Rightarrow> 'a apic_scheme" where
  "timer_reg_write msr_no reg v k =
     (if use_x2apic k then wrmsr msr_no (ucast v) k else apic_write reg v k)"

definition apic_timer_init :: "'a apic_scheme \<Rightarrow> 'a apic_scheme" where
  "apic_timer_init k =
     (let k = timer_reg_write X2APIC_TIMER_DCR APIC_TIMER_DCR 0x3 k;
          k = debug_read 2 X2APIC_TIMER_DCR APIC_TIMER_DCR k;
          k = debug_read 0 X2APIC_LVT_TIMER APIC_TIMER_LVT k;
          lvt_timer = APIC_TIMER_PERIODIC OR TIMER_VECTOR;
          lvt_timer = lvt_timer AND NOT (push_bit 16 1);
          k = timer_reg_write X2APIC_LVT_TIMER APIC_TIMER_LVT lvt_timer k;
          k = debug_read 1 X2APIC_LVT_TIMER APIC_TIMER_LVT k;
          initial_count = 10000000;
          k = timer_reg_write X2APIC_TIMER_ICR APIC_TIMER_ICR initial_count k
      in debug_read 3 X2APIC_TIMER_ICR APIC_TIMER_ICR k)"

section \<open>Inter-processor interrupts\<close>

text \<open>\<open>while ((apic_read(APIC_ICR_LOW) & (1 << 12)) && timeout--) pause;\<close> by the value of
  \<open>timeout\<close>: the loop ends when the bit is clear or when \<open>timeout\<close> was 0.\<close>

fun wait_icr_loop :: "nat \<Rightarrow> 'a apic_scheme \<Rightarrow> 'a apic_scheme" where
  "wait_icr_loop 0 k = snd (apic_read APIC_ICR_LOW k)"
| "wait_icr_loop (Suc timeout) k =
     (let (v, k) = apic_read APIC_ICR_LOW k
      in if v AND push_bit 12 1 \<noteq> 0 then wait_icr_loop timeout (cpu_do (Pauses 1) k) else k)"

definition apic_wait_icr :: "'a apic_scheme \<Rightarrow> 'a apic_scheme" where
  "apic_wait_icr k = (if use_x2apic k then k else wait_icr_loop 1000000 k)"

definition send_ipi :: "u32 \<Rightarrow> u32 \<Rightarrow> 'a apic_scheme \<Rightarrow> 'a apic_scheme" where
  "send_ipi apic_id flags k =
     (if use_x2apic k then
        let icr = push_bit 32 (ucast apic_id) OR ucast flags in wrmsr X2APIC_ICR icr k
      else
        let k = apic_wait_icr k;
            k = apic_write APIC_ICR_HIGH (push_bit 24 apic_id) k;
            k = apic_write APIC_ICR_LOW flags k
        in apic_wait_icr k)"

section \<open>Frame\<close>

text \<open>What the register accesses leave alone: everything but the registers and the log.\<close>

definition apic_same :: "'a apic_scheme \<Rightarrow> 'a apic_scheme \<Rightarrow> bool" where
  "apic_same k t \<longleftrightarrow> con t = con k \<and> mem t = mem k \<and> cr3 t = cr3 k \<and> apic_base t = apic_base k
     \<and> use_x2apic t = use_x2apic k \<and> icr_delay t = icr_delay k \<and> cpuid_value t = cpuid_value k
     \<and> apic.more t = apic.more k"

lemma apic_same_refl [simp]: "apic_same k k"
  by (simp add: apic_same_def)

lemma apic_same_trans: "apic_same k t \<Longrightarrow> apic_same t u \<Longrightarrow> apic_same k u"
  by (simp add: apic_same_def)

lemma apic_sel [simp]:
  "use_x2apic (cpu_do io k) = use_x2apic k" "apic_base (cpu_do io k) = apic_base k" "mmio (cpu_do io k) = mmio k"
  "icr_left (cpu_do io k) = icr_left k" "icr_delay (cpu_do io k) = icr_delay k" "apic.more (cpu_do io k) = apic.more k"
  "timer_init_debug (cpu_do io k) = timer_init_debug k"
  "use_x2apic (kprint ms k) = use_x2apic k" "apic_base (kprint ms k) = apic_base k" "mmio (kprint ms k) = mmio k"
  "icr_left (kprint ms k) = icr_left k" "icr_delay (kprint ms k) = icr_delay k" "apic.more (kprint ms k) = apic.more k"
  "timer_init_debug (kprint ms k) = timer_init_debug k"
  "use_x2apic (wrmsr r v k) = use_x2apic k" "apic_base (wrmsr r v k) = apic_base k" "mmio (wrmsr r v k) = mmio k"
  "icr_left (wrmsr r v k) = icr_left k" "icr_delay (wrmsr r v k) = icr_delay k" "apic.more (wrmsr r v k) = apic.more k"
  "timer_init_debug (wrmsr r v k) = timer_init_debug k"
  for k :: "'a apic_scheme"
  by (simp_all add: cpu_do_def kprint_def wrmsr_eq)

lemma apic_same_msr [simp]: "apic_same k (wrmsr r v k)" "apic_same k (cpu_do io k)"
  by (simp_all add: apic_same_def)

lemma mmio_addr_sel [simp]:
  "mmio_addr i (cpu_do io k) = mmio_addr i k" "mmio_addr i (k\<lparr>mmio := f\<rparr>) = mmio_addr i k"
  "mmio_addr i (k\<lparr>icr_left := n\<rparr>) = mmio_addr i k" "mmio_addr i (k\<lparr>timer_init_debug := d\<rparr>) = mmio_addr i k"
  "mmio_addr i (k\<lparr>cpu_log := l\<rparr>) = mmio_addr i k"
  by (simp_all add: mmio_addr_def)

lemma mmio_write_sel:
  "cpu_log (mmio_write i v k) = cpu_log k @ [MmioWrite (mmio_addr i k) v]"
  "mmio (mmio_write i v k) = (mmio k)(mmio_addr i k := v)" "msr (mmio_write i v k) = msr k"
  "icr_left (mmio_write i v k) = (if mmio_addr i k = icr_low_addr k then icr_delay k (length (cpu_log k) + 1) else icr_left k)"
  "timer_init_debug (mmio_write i v k) = timer_init_debug k"
  "mmio_addr j (mmio_write i v k) = mmio_addr j k"
  by (simp_all add: mmio_write_def Let_def icr_low_addr_def cpu_do_def mmio_addr_def)

lemma mmio_write_same: "apic_same k (mmio_write i v k)"
  by (simp add: mmio_write_def Let_def apic_same_def)

lemma apic_sameD:
  assumes "apic_same k t"
  shows "use_x2apic t = use_x2apic k" "apic_base t = apic_base k" "icr_delay t = icr_delay k"
    "mmio_addr i t = mmio_addr i k" "icr_low_addr t = icr_low_addr k" "mem t = mem k" "con t = con k"
    "apic.more t = apic.more k" "cr3 t = cr3 k"
  using assms by (simp_all add: apic_same_def mmio_addr_def icr_low_addr_def)

lemma apic_write_same [simp]: "apic_same k (apic_write r v k)"
  by (simp add: apic_write_def Let_def mmio_write_def apic_same_def)

lemma apic_read_same [simp]: "apic_same k (snd (apic_read r k))"
  by (simp add: apic_read_def Let_def mmio_read_def apic_same_def)

lemma apic_read_keeps [simp]: "cpu_log (snd (apic_read r k)) = cpu_log k" "mmio (snd (apic_read r k)) = mmio k"
  "msr (snd (apic_read r k)) = msr k" "timer_init_debug (snd (apic_read r k)) = timer_init_debug k"
  by (simp_all add: apic_read_def Let_def mmio_read_def)

section \<open>The contract of a register file\<close>

locale register_file =
  fixes rd :: "'r \<Rightarrow> 's \<Rightarrow> 'v" and wr :: "'r \<Rightarrow> 'v \<Rightarrow> 's \<Rightarrow> 's" and reg_ok :: "'r \<Rightarrow> bool"
  assumes rd_same: "reg_ok r \<Longrightarrow> rd r (wr r v s) = v"
    and rd_other: "reg_ok r \<Longrightarrow> reg_ok q \<Longrightarrow> q \<noteq> r \<Longrightarrow> rd q (wr r v s) = rd q s"
begin

definition wr_all :: "('r \<times> 'v) list \<Rightarrow> 's \<Rightarrow> 's" where
  "wr_all ws s = fold (\<lambda>(r, v). wr r v) ws s"

lemma rd_unwritten:
  "\<forall>(r, v)\<in>set ws. reg_ok r \<Longrightarrow> reg_ok q \<Longrightarrow> q \<notin> fst ` set ws \<Longrightarrow> rd q (wr_all ws s) = rd q s"
  by (induction ws arbitrary: s) (auto simp: wr_all_def rd_other)

text \<open>Registers written once each read back what was written, whatever the order.\<close>

lemma rd_written:
  assumes "\<forall>(r, v)\<in>set ws. reg_ok r" "distinct (map fst ws)" "(q, x) \<in> set ws"
  shows "rd q (wr_all ws s) = x"
  using assms
proof (induction ws arbitrary: s)
  case (Cons w ws)
  obtain r v where w: "w = (r, v)" by force
  have step: "wr_all (w # ws) s = wr_all ws (wr r v s)"
    by (simp add: wr_all_def w)
  show ?case
  proof (cases "(q, x) \<in> set ws")
    case True
    then show ?thesis
      using Cons by (simp add: step)
  next
    case False
    then have "q = r" "x = v" "q \<notin> fst ` set ws" "reg_ok q"
      using Cons.prems w by auto
    then show ?thesis
      using Cons.prems(1) by (simp add: step rd_unwritten rd_same)
  qed
qed simp

end

text \<open>The registers but the command register: 16-byte aligned offsets in the register page.\<close>

definition apic_reg :: "u32 \<Rightarrow> bool" where
  "apic_reg r \<longleftrightarrow> unat r mod 16 = 0 \<and> r < 0x1000 \<and> r \<noteq> APIC_ICR_LOW"

definition apic_value :: "u32 \<Rightarrow> 'a apic_scheme \<Rightarrow> u32" where
  "apic_value r k = fst (apic_read r k)"

lemma reg_shift_inj:
  fixes r q :: u32
  assumes "unat r mod 16 = 0" "unat q mod 16 = 0" "n \<le> 4" "drop_bit n r = drop_bit n q"
  shows "r = q"
proof -
  have d: "(2 :: nat) ^ n dvd 16"
    using assms(3) le_imp_power_dvd [of n 4 "2 :: nat"] by simp
  then have "2 ^ n dvd unat r" "2 ^ n dvd unat q"
    using assms(1,2) dvd_trans by blast+
  moreover have "unat r div 2 ^ n = unat q div 2 ^ n"
    using arg_cong [OF assms(4), of unat] by (simp only: unat_drop_bit)
  ultimately have "unat r = unat q"
    by (metis dvd_div_mult_self)
  then show ?thesis
    by (simp add: word_unat_eq_iff)
qed

lemma mmio_addr_inj:
  assumes "mmio_addr i k = mmio_addr j k"
  shows "i = j"
proof -
  have "4 * (ucast i :: u64) = 4 * ucast j"
    using assms by (simp add: mmio_addr_def)
  then have "unat (4 * (ucast i :: u64)) = unat (4 * (ucast j :: u64))"
    by simp
  moreover have "unat (4 * (ucast i :: u64)) = 4 * unat i" for i :: u32
    using unsigned_less [of i, where 'a = nat] by (subst unat_mult_lt) (simp_all add: unat_ucast_32_64)
  ultimately show ?thesis
    by (simp add: word_unat_eq_iff)
qed

lemma apic_value_eq:
  assumes "apic_reg r"
  shows "apic_value r k = (if use_x2apic k then ucast (msr k (X2APIC_MSR_BASE + drop_bit 4 r))
    else mmio k (mmio_addr (drop_bit 2 r) k))"
proof -
  have "drop_bit 2 r \<noteq> drop_bit 2 APIC_ICR_LOW"
    using assms reg_shift_inj [of r APIC_ICR_LOW 2] by (auto simp: apic_reg_def APIC_ICR_LOW_def)
  then have "mmio_addr (drop_bit 2 r) k \<noteq> icr_low_addr k"
    using mmio_addr_inj unfolding icr_low_addr_def by metis
  then show ?thesis
    by (simp add: apic_value_def apic_read_def Let_def rdmsr_eq mmio_read_def)
qed

lemma ucast_ucast_32: "ucast (ucast v :: u64) = v" for v :: u32
  by (rule bit_word_eqI) (auto simp: bit_simps)

lemma apic_read_id:
  assumes "apic_reg r"
  shows "apic_read r k = (apic_value r k, k)"
proof -
  have "drop_bit 2 r \<noteq> drop_bit 2 APIC_ICR_LOW"
    using assms reg_shift_inj [of r APIC_ICR_LOW 2] by (auto simp: apic_reg_def APIC_ICR_LOW_def)
  then have "mmio_addr (drop_bit 2 r) k \<noteq> icr_low_addr k"
    using mmio_addr_inj unfolding icr_low_addr_def by metis
  then show ?thesis
    by (simp add: apic_value_def apic_read_def Let_def mmio_read_def)
qed

lemma apic_value_write:
  assumes "apic_reg r" "apic_reg q"
  shows "apic_value q (apic_write r v k) = (if q = r then v else apic_value q k)"
proof (cases "use_x2apic k")
  case True
  have "drop_bit 4 q = drop_bit 4 r \<longleftrightarrow> q = r"
    using assms reg_shift_inj [of q r 4] by (auto simp: apic_reg_def)
  then show ?thesis
    using True by (simp add: apic_value_eq [OF assms(2)] apic_write_def Let_def wrmsr_eq ucast_ucast_32)
next
  case False
  have "drop_bit 2 q = drop_bit 2 r \<longleftrightarrow> q = r"
    using assms reg_shift_inj [of q r 2] by (auto simp: apic_reg_def)
  then have eq: "mmio_addr (drop_bit 2 q) k = mmio_addr (drop_bit 2 r) k \<longleftrightarrow> q = r"
    using mmio_addr_inj by metis
  have "use_x2apic (mmio_write (drop_bit 2 r) v k) = False"
    using apic_write_same [of k r v] False by (simp add: apic_same_def apic_write_def)
  then show ?thesis
    using False eq by (simp add: apic_value_eq [OF assms(2)] apic_write_def mmio_write_sel)
qed

interpretation regs: register_file apic_value apic_write apic_reg
  by unfold_locales (simp_all add: apic_value_write)

text \<open>The two ways the timer code reaches a register are the same register.\<close>

lemma timer_reg_write_eq:
  assumes "msr_no = X2APIC_MSR_BASE + drop_bit 4 reg"
  shows "timer_reg_write msr_no reg v k = apic_write reg v k"
  by (simp add: timer_reg_write_def apic_write_def assms)

lemma debug_read_eq:
  assumes "msr_no = X2APIC_MSR_BASE + drop_bit 4 reg" "apic_reg reg"
  shows "debug_read slot msr_no reg k = k\<lparr>timer_init_debug := (timer_init_debug k)[slot := apic_value reg k]\<rparr>"
proof (cases "use_x2apic k")
  case True
  then show ?thesis
    using assms(1) by (simp add: debug_read_def apic_value_def apic_read_def Let_def)
next
  case False
  have "drop_bit 2 reg \<noteq> drop_bit 2 APIC_ICR_LOW"
    using assms(2) reg_shift_inj [of reg APIC_ICR_LOW 2] by (auto simp: apic_reg_def APIC_ICR_LOW_def)
  then have "mmio_addr (drop_bit 2 reg) k \<noteq> icr_low_addr k"
    using mmio_addr_inj unfolding icr_low_addr_def by metis
  then show ?thesis
    using False by (simp add: debug_read_def apic_value_def apic_read_def Let_def mmio_read_def)
qed

lemma apic_value_debug [simp]: "apic_value r (k\<lparr>timer_init_debug := d\<rparr>) = apic_value r k"
  by (simp add: apic_value_def apic_read_def Let_def rdmsr_def mmio_read_def icr_low_addr_def)

lemma apic_write_debug:
  "apic_write r v (k\<lparr>timer_init_debug := d\<rparr>) = (apic_write r v k)\<lparr>timer_init_debug := d\<rparr>"
  "timer_init_debug (apic_write r v k) = timer_init_debug k"
  by (simp_all add: apic_write_def Let_def mmio_write_def wrmsr_eq cpu_do_def icr_low_addr_def)

lemma timer_regs: "apic_reg APIC_TIMER_DCR" "apic_reg APIC_TIMER_LVT" "apic_reg APIC_TIMER_ICR"
  "X2APIC_TIMER_DCR = X2APIC_MSR_BASE + drop_bit 4 APIC_TIMER_DCR"
  "X2APIC_LVT_TIMER = X2APIC_MSR_BASE + drop_bit 4 APIC_TIMER_LVT"
  "X2APIC_TIMER_ICR = X2APIC_MSR_BASE + drop_bit 4 APIC_TIMER_ICR"
  "APIC_TIMER_DCR \<noteq> APIC_TIMER_LVT" "APIC_TIMER_DCR \<noteq> APIC_TIMER_ICR" "APIC_TIMER_LVT \<noteq> APIC_TIMER_ICR"
  by (simp_all add: apic_reg_def APIC_TIMER_DCR_def APIC_TIMER_LVT_def APIC_TIMER_ICR_def APIC_ICR_LOW_def
      X2APIC_TIMER_DCR_def X2APIC_LVT_TIMER_def X2APIC_TIMER_ICR_def X2APIC_MSR_BASE_def)

lemma lvt_value: "(APIC_TIMER_PERIODIC OR TIMER_VECTOR) AND NOT (push_bit 16 1) = 0x20020"
  by (simp add: APIC_TIMER_PERIODIC_def TIMER_VECTOR_def)

definition timer_writes :: "(u32 \<times> u32) list" where
  "timer_writes = [(APIC_TIMER_DCR, 3), (APIC_TIMER_LVT, 0x20020), (APIC_TIMER_ICR, 10000000)]"

lemma timer_init_eq:
  assumes "length (timer_init_debug k) = 4"
  shows "apic_timer_init k = (regs.wr_all timer_writes k)
    \<lparr>timer_init_debug := [apic_value APIC_TIMER_LVT k, 0x20020, 3, 10000000]\<rparr>"
proof -
  obtain a b c d where dbg: "timer_init_debug k = [a, b, c, d]"
    using assms(1) by (auto simp: numeral_eq_Suc length_Suc_conv)
  note w = timer_reg_write_eq [OF timer_regs(4)] timer_reg_write_eq [OF timer_regs(5)] timer_reg_write_eq [OF timer_regs(6)]
  note r = debug_read_eq [OF timer_regs(4,1)] debug_read_eq [OF timer_regs(5,2)] debug_read_eq [OF timer_regs(6,3)]
  show ?thesis
    unfolding apic_timer_init_def Let_def w lvt_value r timer_writes_def
    using timer_regs by (simp add: apic_write_debug apic_value_write regs.wr_all_def dbg)
qed

lemma timer_values:
  "apic_value APIC_TIMER_DCR (regs.wr_all timer_writes k) = 3" "apic_value APIC_TIMER_LVT (regs.wr_all timer_writes k) = 0x20020"
  "apic_value APIC_TIMER_ICR (regs.wr_all timer_writes k) = 10000000"
  "apic_reg r \<Longrightarrow> r \<notin> {APIC_TIMER_DCR, APIC_TIMER_LVT, APIC_TIMER_ICR} \<Longrightarrow> apic_value r (regs.wr_all timer_writes k) = apic_value r k"
  using timer_regs regs.rd_written [of timer_writes _ _ k] regs.rd_unwritten [of timer_writes _ k]
  by (simp_all add: timer_writes_def)

text \<open>C20: In both modes \<open>apic_timer_init\<close> leaves the timer periodic on vector 32, unmasked, divided
  by 16 and counting from 10000000; its debug array records the LVT as it was before and the three
  values read back; no other register has changed.\<close>

theorem timer_programmed:
  assumes "length (timer_init_debug k) = 4"
  defines "k' \<equiv> apic_timer_init k"
  shows "apic_value APIC_TIMER_DCR k' = 3 \<and> apic_value APIC_TIMER_LVT k' = 0x20020
    \<and> apic_value APIC_TIMER_ICR k' = 10000000
    \<and> timer_init_debug k' = [apic_value APIC_TIMER_LVT k, 0x20020, 3, 10000000]
    \<and> (\<forall>r. apic_reg r \<and> r \<notin> {APIC_TIMER_DCR, APIC_TIMER_LVT, APIC_TIMER_ICR} \<longrightarrow> apic_value r k' = apic_value r k)"
  unfolding k'_def timer_init_eq [OF assms(1)] by (simp add: timer_values)

section \<open>Waiting for the command register\<close>

lemma icr_read:
  assumes "\<not> use_x2apic k"
  shows "apic_read APIC_ICR_LOW k
    = (if icr_left k = 0 then (mmio k (icr_low_addr k) AND NOT (push_bit 12 1), k)
       else (mmio k (icr_low_addr k) OR push_bit 12 1, k\<lparr>icr_left := icr_left k - 1\<rparr>))"
  using assms by (simp add: apic_read_def mmio_read_def icr_low_addr_def)

lemma busy_bit: "(v OR push_bit 12 1) AND push_bit 12 1 = 0 \<longleftrightarrow> False" "(v AND NOT (push_bit 12 1)) AND push_bit 12 1 = 0"
  for v :: u32
proof -
  have "bit ((v OR push_bit 12 1) AND push_bit 12 1) 12"
    by (simp add: bit_simps)
  then show "(v OR push_bit 12 1) AND push_bit 12 1 = 0 \<longleftrightarrow> False"
    by (metis bit_0_eq bot_apply bot_bool_def)
  show "(v AND NOT (push_bit 12 1)) AND push_bit 12 1 = 0"
    by (rule bit_word_eqI) (auto simp: bit_simps)
qed

text \<open>The loop polls until the command is delivered, but at most \<open>timeout + 1\<close> times.\<close>

lemma wait_loop:
  assumes "\<not> use_x2apic k"
  shows "wait_icr_loop n k = k\<lparr>icr_left := icr_left k - Suc n,
    cpu_log := cpu_log k @ replicate (min (icr_left k) n) (Pauses 1)\<rparr>"
  using assms
proof (induction n arbitrary: k)
  case 0
  then show ?case by (simp add: icr_read)
next
  case (Suc n)
  show ?case
  proof (cases "icr_left k")
    case 0
    then show ?thesis
      using Suc.prems by (simp add: icr_read busy_bit del: push_bit_of_1)
  next
    case (Suc l)
    let ?k = "cpu_do (Pauses 1) (k\<lparr>icr_left := l\<rparr>)"
    have nz: "push_bit 12 (1 :: u32) \<noteq> 0"
      by simp
    have "wait_icr_loop (Suc n) k = wait_icr_loop n ?k"
      using Suc.prems Suc by (simp add: icr_read [OF Suc.prems] busy_bit nz Let_def del: push_bit_of_1)
    also have "\<dots> = ?k\<lparr>icr_left := icr_left ?k - Suc n, cpu_log := cpu_log ?k @ replicate (min (icr_left ?k) n) (Pauses 1)\<rparr>"
      using Suc.prems by (intro Suc.IH) simp
    finally show ?thesis
      by (simp add: Suc cpu_do_def)
  qed
qed

lemma wait_icr:
  "apic_wait_icr k = (if use_x2apic k then k else k\<lparr>icr_left := icr_left k - 1000001,
    cpu_log := cpu_log k @ replicate (min (icr_left k) 1000000) (Pauses 1)\<rparr>)"
proof -
  have "Suc 1000000 = 1000001" by simp
  then show ?thesis
    using wait_loop [of k 1000000] by (simp add: apic_wait_icr_def del: wait_icr_loop.simps)
qed

section \<open>The commands that the controller sees\<close>

text \<open>
  The log read as the controller reads it: \<open>p\<close> counts the \<open>pause\<close> instructions since the last
  command, \<open>h\<close> is the high half of the command register, \<open>out\<close> lists the commands sent, each with the
  pauses before it, the destination and the low half.  A write to the low half or to the MSR
  sends.
\<close>

fun icr_step :: "u64 \<Rightarrow> cpu_io \<Rightarrow> nat \<times> u32 \<times> (nat \<times> u32 \<times> u32) list \<Rightarrow> nat \<times> u32 \<times> (nat \<times> u32 \<times> u32) list" where
  "icr_step base (Pauses n) (p, h, out) = (p + unat n, h, out)"
| "icr_step base (WrMsr r v) (p, h, out) =
     (if r = X2APIC_ICR then (0, h, out @ [(p, ucast (drop_bit 32 v), ucast v)]) else (p, h, out))"
| "icr_step base (MmioWrite a v) (p, h, out) =
     (if a = base + 0x310 then (p, v, out)
      else if a = base + 0x300 then (0, h, out @ [(p, drop_bit 24 h, v)]) else (p, h, out))"
| "icr_step base _ s = s"

definition icr_run :: "u64 \<Rightarrow> cpu_io list \<Rightarrow> nat \<times> u32 \<times> (nat \<times> u32 \<times> u32) list \<Rightarrow> nat \<times> u32 \<times> (nat \<times> u32 \<times> u32) list" where
  "icr_run base l s = fold (icr_step base) l s"

lemma icr_run_simps [simp]: "icr_run base (a @ b) s = icr_run base b (icr_run base a s)"
  "icr_run base (io # l) s = icr_run base l (icr_step base io s)" "icr_run base [] s = s"
  by (simp_all add: icr_run_def)

lemma icr_run_pauses: "icr_run base (replicate n (Pauses v)) (p, h, out) = (p + n * unat v, h, out)"
  by (induction n arbitrary: p) (simp_all add: icr_run_def)

text \<open>The part of the log that \<open>f\<close> adds.\<close>

definition added :: "'a cpu_scheme \<Rightarrow> 'a cpu_scheme \<Rightarrow> cpu_io list" where
  "added k t = drop (length (cpu_log k)) (cpu_log t)"

definition extends :: "'a cpu_scheme \<Rightarrow> 'a cpu_scheme \<Rightarrow> bool" where
  "extends k t \<longleftrightarrow> cpu_log t = cpu_log k @ added k t"

lemma extendsI: "cpu_log t = cpu_log k @ l \<Longrightarrow> extends k t \<and> added k t = l"
  by (simp add: extends_def added_def)

lemma added_trans: "extends k t \<Longrightarrow> extends t u \<Longrightarrow> extends k u \<and> added k u = added k t @ added t u"
  by (metis append.assoc extendsI extends_def)

lemma send_ipi_effect:
  fixes k :: "'a apic_scheme" and flags :: u32
  assumes "use_x2apic k \<or> unat apic_id < 256"
  defines "k' \<equiv> send_ipi apic_id flags k"
  shows "apic_same k k' \<and> cpu_log k' = cpu_log k @ added k k'
    \<and> (\<forall>p h out. \<exists>q q' h'. icr_run (apic_base k) (added k k') (p, h, out) = (q', h', out @ [(p + q, apic_id, flags)]))
    \<and> (\<not> use_x2apic k \<and> icr_left k \<le> 1000001 \<and> (\<forall>n. icr_delay k n \<le> 1000001)
         \<longrightarrow> icr_left (apic_wait_icr k) = 0 \<and> icr_left k' = 0)"
proof (cases "use_x2apic k")
  case True
  let ?icr = "push_bit 32 (ucast apic_id) OR ucast flags :: u64"
  have d: "ucast (drop_bit 32 ?icr) = apic_id" "ucast ?icr = flags"
    by (rule bit_word_eqI, auto simp: bit_simps not_less dest: bit_imp_le_length)+
  have "k' = wrmsr X2APIC_ICR ?icr k"
    using True by (simp add: k'_def send_ipi_def Let_def)
  then show ?thesis
    using True d by (auto simp: added_def icr_run_def)
next
  case False
  let ?w = "apic_wait_icr k"
  let ?h = "mmio_write (drop_bit 2 APIC_ICR_HIGH) (push_bit 24 apic_id) ?w"
  let ?l = "mmio_write (drop_bit 2 APIC_ICR_LOW) flags ?h"
  let ?n = "min (icr_left k) 1000000" and ?m = "min (icr_left ?l) 1000000"
  have w: "apic_same k ?w"
    using False by (simp add: wait_icr apic_same_def)
  have h: "apic_same k ?h" and l: "apic_same k ?l"
    using w mmio_write_same apic_same_trans by blast+
  note use = w [THEN apic_sameD(1)] h [THEN apic_sameD(1)] l [THEN apic_sameD(1)]
  note addrs = w [THEN apic_sameD(4)] h [THEN apic_sameD(4)] w [THEN apic_sameD(5)] h [THEN apic_sameD(5)]
  have k': "k' = apic_wait_icr ?l"
    using False use(1,2) by (simp add: k'_def send_ipi_def Let_def apic_write_def)
  have addr: "mmio_addr (drop_bit 2 APIC_ICR_HIGH) k = apic_base k + 0x310" "mmio_addr (drop_bit 2 APIC_ICR_LOW) k = apic_base k + 0x300"
    by (simp_all add: mmio_addr_def APIC_ICR_HIGH_def APIC_ICR_LOW_def)
  have low: "icr_low_addr k = apic_base k + 0x300"
    by (simp add: icr_low_addr_def addr)
  have same: "apic_same k k'"
    unfolding k' wait_icr [of ?l] using use(3) l by (simp add: apic_same_def)
  have log: "cpu_log k' = cpu_log k @ (replicate ?n (Pauses 1) @ [MmioWrite (apic_base k + 0x310) (push_bit 24 apic_id),
      MmioWrite (apic_base k + 0x300) flags] @ replicate ?m (Pauses 1))"
    unfolding k' wait_icr [of ?l] using use(3) False by (simp add: mmio_write_sel(1) addrs addr) (simp add: wait_icr)
  have dest: "drop_bit 24 (push_bit 24 apic_id) = apic_id"
  proof (rule bit_word_eqI)
    fix n
    have "unat apic_id < 2 ^ 8"
      using assms(1) False by simp
    then show "bit (drop_bit 24 (push_bit 24 apic_id)) n = bit apic_id n"
      using bit_lt_pow2 [of apic_id 8 n] by (auto simp: bit_simps)
  qed
  have run: "icr_run (apic_base k) (added k k') (p, h, out) = (?m, push_bit 24 apic_id, out @ [(p + ?n, apic_id, flags)])" for p h out
  proof -
    show ?thesis
      using extendsI [OF log] by (simp add: icr_run_pauses dest)
  qed
  moreover have "icr_left (apic_wait_icr k) = 0 \<and> icr_left k' = 0" if "icr_left k \<le> 1000001" "\<forall>n. icr_delay k n \<le> 1000001"
  proof -
    have "icr_left ?l = icr_delay k (length (cpu_log ?h) + 1)"
      using h by (simp add: mmio_write_sel(4) [of _ _ ?h] addrs icr_low_addr_def [of k] apic_same_def)
    then have "icr_left ?l \<le> 1000001"
      using that(2) by simp
    then show ?thesis
      unfolding k' wait_icr [of ?l] using that(1) False use(3) by (simp add: wait_icr [of k])
  qed
  ultimately show ?thesis
    using same extendsI [OF log] log by auto
qed

text \<open>\<open>send_ipi\<close> sends exactly one command, with its destination and flags, in both modes (the
  xAPIC has 8 bits of destination); in xAPIC mode, when the device delivers within 1000001 polls the
  command register is idle before the command is written and again when \<open>send_ipi\<close> returns.\<close>

theorem send_ipi_sends:
  fixes k :: "'a apic_scheme" and flags :: u32
  assumes "use_x2apic k \<or> unat apic_id < 256"
  defines "k' \<equiv> send_ipi apic_id flags k"
  shows "apic_same k k' \<and> cpu_log k' = cpu_log k @ added k k'
    \<and> (\<forall>p h out. \<exists>q q' h'. icr_run (apic_base k) (added k k') (p, h, out) = (q', h', out @ [(p + q, apic_id, flags)]))
    \<and> (\<not> use_x2apic k \<and> icr_left k \<le> 1000001 \<and> (\<forall>n. icr_delay k n \<le> 1000001)
         \<longrightarrow> icr_left (apic_wait_icr k) = 0 \<and> icr_left k' = 0)"
  unfolding k'_def by (rule send_ipi_effect [OF assms(1)])

section \<open>The controllers after initialisation\<close>

text \<open>The value last written to a port.\<close>

fun out_step :: "u16 \<Rightarrow> port_io \<Rightarrow> u8 option \<Rightarrow> u8 option" where
  "out_step p (Out q v) r = (if q = p then Some v else r)"
| "out_step p (In q v) r = r"

definition last_out :: "u16 \<Rightarrow> console \<Rightarrow> u8 option" where
  "last_out p c = fold (out_step p) (ports c) None"

lemma last_out_outb: "last_out p (outb q v c) = (if q = p then Some v else last_out p c)"
  by (simp add: last_out_def outb_def Let_def)

lemma last_out_inb: "last_out p (snd (inb q c)) = last_out p c"
  by (simp add: last_out_def inb_def Let_def)

lemma last_out_wait: "last_out p (putc_wait c) = last_out p c"
proof (induction c rule: putc_wait.induct)
  case (1 c)
  obtain v c' where r: "inb (COM1 + 5) c = (v, c')"
    by force
  have c': "last_out p c' = last_out p c"
    using last_out_inb [of p "COM1 + 5" c] r by simp
  have "putc_wait c = (if v AND 0x20 = 0 then putc_wait c' else c')"
    by (subst putc_wait.simps) (simp only: r prod.case Let_def)
  then show ?case
    using "1.IH" [OF r [symmetric] refl] c' by simp
qed

lemma last_out_putc: "p \<noteq> COM1 \<Longrightarrow> last_out p (putc ch c) = last_out p c"
  by (simp add: putc_def last_out_outb last_out_wait)

lemma last_out_screen [simp]: "last_out p (c\<lparr>screen := v\<rparr>) = last_out p c"
  by (simp add: last_out_def)

lemma last_out_puts: "p \<noteq> COM1 \<Longrightarrow> last_out p (puts s c) = last_out p c"
  by (induction s arbitrary: c) (simp_all add: Let_def last_out_putc)

lemma last_out_emit: "p \<noteq> COM1 \<Longrightarrow> last_out p (emit m c) = last_out p c"
  by (cases m) (simp_all add: last_out_puts last_out_putc print_dec_def print_dec_64_def print_hex_def print_hex_64_def)

lemma last_out_say: "p \<noteq> COM1 \<Longrightarrow> last_out p (say ms c) = last_out p c"
  by (induction ms arbitrary: c) (simp_all add: say_def last_out_emit)

definition pic_masked :: "console \<Rightarrow> bool" where
  "pic_masked c \<longleftrightarrow> last_out 0x21 c = Some 0xFF \<and> last_out 0xA1 c = Some 0xFF"

lemma pic_masked_say [simp]: "pic_masked (say ms c) = pic_masked c"
  by (simp add: pic_masked_def last_out_say)

text \<open>What an initialised local APIC is: enabled in its mode, with the spurious vector 255, and
  accepting every priority.\<close>

definition apic_enabled :: "'a apic_scheme \<Rightarrow> bool" where
  "apic_enabled k \<longleftrightarrow> bit (msr k APIC_BASE_MSR) 11 \<and> (use_x2apic k \<longleftrightarrow> bit (msr k APIC_BASE_MSR) 10)
     \<and> apic_value APIC_SVR_REG k = 0x1FF \<and> apic_value APIC_TPR_REG k = 0"

definition has_x2apic :: "'a apic_scheme \<Rightarrow> bool" where
  "has_x2apic k \<longleftrightarrow> (case cpuid 1 k of (eax, ebx, ecx, edx) \<Rightarrow> bit ecx 21)"

lemma feature_bit: "drop_bit n x AND 1 \<noteq> 0 \<longleftrightarrow> bit x n" for x :: u32
  by (simp add: and_one_eq mod_2_eq_odd bit_iff_odd_drop_bit)

lemma enable_bits: "bit APIC_BASE_ENABLE n \<longleftrightarrow> n = 11" "bit X2APIC_ENABLE n \<longleftrightarrow> n = 10"
  unfolding APIC_BASE_ENABLE_def X2APIC_ENABLE_def bit_push_bit_iff bit_1_iff by auto

lemma enable_bit: "x AND APIC_BASE_ENABLE = 0 \<longleftrightarrow> \<not> bit x 11"
proof (cases "bit x 11")
  case True
  then have "bit (x AND APIC_BASE_ENABLE) 11"
    by (simp add: bit_and_iff enable_bits)
  then have "x AND APIC_BASE_ENABLE \<noteq> 0"
    by (metis bit_0_eq bot_apply bot_bool_def)
  with True show ?thesis by blast
next
  case False
  have "x AND APIC_BASE_ENABLE = 0"
    by (rule bit_word_eqI) (use False in \<open>auto simp: bit_and_iff enable_bits\<close>)
  with False show ?thesis by blast
qed

lemma enable_or: "bit x 11 \<Longrightarrow> x OR APIC_BASE_ENABLE = x"
  by (rule bit_word_eqI) (auto simp: bit_or_iff enable_bits)

lemma control_regs: "apic_reg APIC_SVR_REG" "apic_reg APIC_TPR_REG" "apic_reg APIC_ID_REG" "APIC_SVR_REG \<noteq> APIC_TPR_REG"
  "X2APIC_SVR = X2APIC_MSR_BASE + drop_bit 4 APIC_SVR_REG" "X2APIC_TPR = X2APIC_MSR_BASE + drop_bit 4 APIC_TPR_REG"
  "X2APIC_APICID = X2APIC_MSR_BASE + drop_bit 4 APIC_ID_REG" "APIC_ENABLE OR SPURIOUS_VECTOR = 0x1FF"
  "APIC_ID_REG \<noteq> APIC_SVR_REG" "APIC_ID_REG \<noteq> APIC_TPR_REG"
  by (simp_all add: apic_reg_def APIC_SVR_REG_def APIC_TPR_REG_def APIC_ID_REG_def APIC_ICR_LOW_def X2APIC_SVR_def X2APIC_TPR_def
      X2APIC_APICID_def X2APIC_MSR_BASE_def APIC_ENABLE_def SPURIOUS_VECTOR_def)

text \<open>A write to an x2APIC register by its MSR is the same register write.\<close>

lemma x2_write: "use_x2apic k \<Longrightarrow> m = X2APIC_MSR_BASE + drop_bit 4 r \<Longrightarrow> wrmsr m (ucast v) k = apic_write r v k"
  by (simp add: apic_write_def)

lemma apic_value_kprint [simp]: "apic_value r (kprint ms k) = apic_value r k"
  "apic_value r (k\<lparr>con := c\<rparr>) = apic_value r k"
  by (simp_all add: apic_value_def apic_read_def Let_def rdmsr_def mmio_read_def icr_low_addr_def mmio_addr_def kprint_def)

lemma apic_write_base_msr: "apic_reg r \<Longrightarrow> msr (apic_write r v k) APIC_BASE_MSR = msr k APIC_BASE_MSR"
proof -
  assume r: "apic_reg r"
  have "APIC_BASE_MSR \<noteq> X2APIC_MSR_BASE + drop_bit 4 r"
  proof
    assume "APIC_BASE_MSR = X2APIC_MSR_BASE + drop_bit 4 r"
    then have "unat APIC_BASE_MSR = unat (X2APIC_MSR_BASE + drop_bit 4 r)"
      by simp
    moreover have "unat (X2APIC_MSR_BASE + drop_bit 4 r) = 0x800 + unat r div 16"
      using r unat_mono [of r "0x1000"]
      by (subst unat_add_lt) (simp_all add: apic_reg_def X2APIC_MSR_BASE_def unat_drop_bit)
    ultimately show False
      by (simp add: APIC_BASE_MSR_def)
  qed
  then show ?thesis
    by (simp add: apic_write_def Let_def wrmsr_eq mmio_write_sel)
qed

text \<open>The two branches of \<open>apic_init\<close> after the console output.\<close>

definition apic_on :: "'a apic_scheme \<Rightarrow> 'a apic_scheme" where
  "apic_on k = apic_write APIC_TPR_REG 0 (apic_write APIC_SVR_REG 0x1FF k)"

lemma apic_on_same: "apic_same k (apic_on k)"
  unfolding apic_on_def using apic_write_same apic_same_trans by blast

lemma apic_on_enabled:
  assumes "bit (msr k APIC_BASE_MSR) 11" "use_x2apic k \<longleftrightarrow> bit (msr k APIC_BASE_MSR) 10"
  shows "apic_enabled (apic_on k)" "msr (apic_on k) APIC_BASE_MSR = msr k APIC_BASE_MSR" "apic_same k (apic_on k)"
    "icr_left (apic_on k) = icr_left k"
proof -
  show same: "apic_same k (apic_on k)"
    by (rule apic_on_same)
  show m: "msr (apic_on k) APIC_BASE_MSR = msr k APIC_BASE_MSR"
    by (simp add: apic_on_def apic_write_base_msr control_regs(1,2))
  show "apic_enabled (apic_on k)"
    using assms same by (simp add: apic_enabled_def m apic_same_def)
      (simp add: apic_on_def apic_value_write control_regs(1-4))
  have "drop_bit 2 r \<noteq> drop_bit 2 APIC_ICR_LOW" if "apic_reg r" for r
    using that reg_shift_inj [of r APIC_ICR_LOW 2] by (auto simp: apic_reg_def APIC_ICR_LOW_def)
  then have "icr_left (apic_write r v k) = icr_left k" if "apic_reg r" for r v and k :: "'a apic_scheme"
    using that mmio_addr_inj by (auto simp: apic_write_def Let_def mmio_write_sel icr_low_addr_def)
  then show "icr_left (apic_on k) = icr_left k"
    by (simp add: apic_on_def control_regs(1,2))
qed

lemma apic_base_update [simp]: "use_x2apic (k\<lparr>apic_base := a\<rparr>) = use_x2apic k" "msr (k\<lparr>apic_base := a\<rparr>) = msr k"
  by simp_all

lemma kprint_same_regs:
  "apic_enabled (kprint ms k) = apic_enabled k" "apic_enabled (k\<lparr>con := c\<rparr>) = apic_enabled k"
  by (simp_all add: apic_enabled_def)

lemma apic_init_effect:
  assumes "\<not> use_x2apic k" and "\<not> bit (msr k APIC_BASE_MSR) 10"
  shows "let k' = apic_init k in apic_enabled k' \<and> (use_x2apic k' \<longleftrightarrow> has_x2apic k) \<and> pic_masked (con k')
    \<and> mem k' = mem k \<and> icr_left k' = icr_left k
    \<and> (\<not> has_x2apic k \<longrightarrow> apic_base k' = msr k APIC_BASE_MSR AND 0xFFFFF000)"
proof -
  obtain a b c d where id: "cpuid 1 k = (a, b, c, d)"
    by (cases "cpuid 1 k")
  have pic: "pic_masked (con (disable_pic k))" for k :: "'a apic_scheme"
    by (simp add: disable_pic_def Let_def pic_masked_def last_out_say last_out_outb)
  have dp: "msr (disable_pic k) = msr k" "cpuid_value (disable_pic k) = cpuid_value k" "mem (disable_pic k) = mem k"
    "use_x2apic (disable_pic k) = use_x2apic k" "icr_left (disable_pic k) = icr_left k" for k :: "'a apic_scheme"
    by (simp_all add: disable_pic_def Let_def)
  define k0 where "k0 = disable_pic (kprint [S [newline_char], Ln ''[APIC] Initializing Local APIC...''] k)"
  have k0: "msr k0 = msr k" "mem k0 = mem k" "\<not> use_x2apic k0" "icr_left k0 = icr_left k" "pic_masked (con k0)" "cpuid 1 k0 = (a, b, c, d)"
    using assms(1) id by (simp_all add: k0_def dp pic cpuid_def)
  define e where "e = msr k APIC_BASE_MSR OR APIC_BASE_ENABLE"
  have e: "bit e 11" "bit (e OR X2APIC_ENABLE) 10" "bit (e OR X2APIC_ENABLE) 11" "\<not> bit e 10"
    using assms(2) by (simp_all add: e_def bit_or_iff enable_bits)
  show ?thesis
  proof (cases "bit c 21")
    case True
    define m0 where "m0 = kprint [Ln ''[APIC] x2APIC supported - enabling x2APIC mode''] k0"
    have m0: "msr m0 = msr k" "mem m0 = mem k" "icr_left m0 = icr_left k" "pic_masked (con m0)"
      using k0 by (simp_all add: m0_def)
    define m1 where "m1 = (if bit (msr k APIC_BASE_MSR) 11 then m0 else wrmsr APIC_BASE_MSR e m0)"
    define m2 where "m2 = (wrmsr APIC_BASE_MSR (e OR X2APIC_ENABLE) m1)\<lparr>use_x2apic := True\<rparr>"
    have m2: "msr m2 APIC_BASE_MSR = e OR X2APIC_ENABLE" "use_x2apic m2" "mem m2 = mem k" "icr_left m2 = icr_left k"
      "pic_masked (con m2)"
      using m0 by (simp_all add: m2_def m1_def)
    note on = apic_on_enabled [of m2, unfolded m2(1), OF e(3)]
    have w: "wrmsr X2APIC_TPR 0 (wrmsr X2APIC_SVR 0x1FF m2) = apic_on m2"
      using x2_write [OF m2(2) control_regs(5), of "0x1FF"] x2_write [OF _ control_regs(6), of "wrmsr X2APIC_SVR 0x1FF m2" "0"] m2(2)
      using apic_write_same [of m2 APIC_SVR_REG 511] by (simp add: apic_on_def apic_same_def)
    have m1: "m1 = (if msr k APIC_BASE_MSR AND APIC_BASE_ENABLE = 0 then wrmsr APIC_BASE_MSR e m0 else m0)"
      "e = (if msr k APIC_BASE_MSR AND APIC_BASE_ENABLE = 0 then msr k APIC_BASE_MSR OR APIC_BASE_ENABLE else msr k APIC_BASE_MSR)"
      by (simp_all add: m1_def enable_bit e_def enable_or)
    have "apic_init k = kprint [Ln ''[APIC] Local APIC initialized successfully!'']
        (kprint [Ln ''[APIC] x2APIC mode enabled (MSR-based)'', S ''[APIC] BSP APIC ID: '',
           D (ucast (rdmsr X2APIC_APICID (apic_on m2))), Ln ''''] (apic_on m2))"
      unfolding w [symmetric]
      unfolding apic_init_def Let_def k0_def [symmetric] k0(6) prod.case feature_bit rdmsr_eq [of APIC_BASE_MSR] m0_def [symmetric] m0(1)
        m2_def m1 control_regs(8) using True by (cases "msr k APIC_BASE_MSR AND APIC_BASE_ENABLE = 0") simp_all
    then show ?thesis
      using on m2 True id e(2) by (simp add: Let_def kprint_same_regs has_x2apic_def apic_same_def)
  next
    case False
    define m0 where "m0 = (kprint [Ln ''[APIC] Physical address: 0xFEE00000 (default)'']
      (kprint [Ln ''[APIC] x2APIC not available - using xAPIC mode''] k0))\<lparr>apic_base := msr k APIC_BASE_MSR AND 0xFFFFF000\<rparr>"
    have m0: "msr m0 = msr k" "mem m0 = mem k" "icr_left m0 = icr_left k" "pic_masked (con m0)" "\<not> use_x2apic m0"
      "apic_base m0 = msr k APIC_BASE_MSR AND 0xFFFFF000"
      using k0 by (simp_all add: m0_def)
    define m1 where "m1 = (if msr k APIC_BASE_MSR AND APIC_BASE_ENABLE = 0
      then wrmsr APIC_BASE_MSR e (kprint [Ln ''[APIC] Enabling APIC in MSR...''] m0) else m0)"
    define m2 where "m2 = kprint [Ln ''[APIC] Enabling APIC (SVR register)...''] m1"
    have m2: "msr m2 APIC_BASE_MSR = e" "\<not> use_x2apic m2" "mem m2 = mem k" "icr_left m2 = icr_left k"
      "pic_masked (con m2)" "apic_base m2 = msr k APIC_BASE_MSR AND 0xFFFFF000"
      using m0 by (simp_all add: m2_def m1_def enable_bit e_def enable_or)
    note on = apic_on_enabled [of m2, unfolded m2(1), OF e(1)]
    have use: "\<not> use_x2apic (apic_on m2)"
      using m2(2) by (simp add: apic_on_same [THEN apic_sameD(1)])
    have id': "apic_read APIC_ID_REG (apic_on m2) = (apic_value APIC_ID_REG (apic_on m2), apic_on m2)"
      using use control_regs(3) by (simp add: apic_read_id)
    have "apic_init k = kprint [Ln ''[APIC] Local APIC initialized successfully!'']
        ((kprint [S ''[APIC] BSP APIC ID: '', D (drop_bit 24 (apic_value APIC_ID_REG (apic_on m2))), Ln ''''] (apic_on m2))\<lparr>use_x2apic := False\<rparr>)"
      unfolding apic_init_def Let_def k0_def [symmetric] k0(6) prod.case feature_bit rdmsr_eq [of APIC_BASE_MSR]
      using False id' k0(1)
      by (cases "msr k APIC_BASE_MSR AND APIC_BASE_ENABLE = 0")
        (simp_all add: m0_def m1_def m2_def e_def apic_on_def control_regs(8) APIC_TPR_REG_def enable_bit enable_or)
    moreover have "k\<lparr>use_x2apic := False\<rparr> = k" if "\<not> use_x2apic k" for k :: "'a apic_scheme"
      using that by simp
    ultimately show ?thesis
      using on m2 False id use e by (simp add: Let_def kprint_same_regs has_x2apic_def apic_same_def)
  qed
qed

text \<open>\<open>apic_init\<close>, called with the mode flag clear as at boot, selects x2APIC exactly when
  CPUID reports it, leaves the local APIC enabled in that mode, with the spurious vector 255 and
  task priority 0, both legacy PICs masked, \<open>apic_base\<close> at the address in the base MSR in xAPIC
  mode, and nothing of memory changed.\<close>

theorem apic_init_enables:
  assumes "\<not> use_x2apic k" and "\<not> bit (msr k APIC_BASE_MSR) 10"
  shows "let k' = apic_init k in apic_enabled k' \<and> (use_x2apic k' \<longleftrightarrow> has_x2apic k) \<and> pic_masked (con k')
    \<and> mem k' = mem k \<and> icr_left k' = icr_left k
    \<and> (\<not> has_x2apic k \<longrightarrow> apic_base k' = msr k APIC_BASE_MSR AND 0xFFFFF000)"
  by (rule apic_init_effect [OF assms])

section \<open>A machine with a local APIC\<close>

definition apic_demo :: "u32 \<Rightarrow> apic" where
  "apic_demo ecx = vmm.extend (paging_demo\<lparr>cpuid_value := (\<lambda>_. (0, 0, ecx, 0)), msr := (\<lambda>_. 0)(0x1B := 0xFEE00900)\<rparr>)
     (apic.fields False 0xFEE00000 (\<lambda>_. 0) 3 (\<lambda>_. 2) [0, 0, 0, 0])"

lemma apic_demo_sel: "use_x2apic (apic_demo c) = False" "apic_base (apic_demo c) = 0xFEE00000"
  "msr (apic_demo c) = (\<lambda>_. 0)(0x1B := 0xFEE00900)" "cpuid_value (apic_demo c) = (\<lambda>_. (0, 0, c, 0))"
  "icr_left (apic_demo c) = 3" "icr_delay (apic_demo c) = (\<lambda>_. 2)" "timer_init_debug (apic_demo c) = [0, 0, 0, 0]"
  by (simp_all add: apic_demo_def vmm.defs apic.defs)

theorem timer_programmed_witness: "apic_value APIC_TIMER_LVT (apic_timer_init (apic_demo 0)) = 0x20020"
  using timer_programmed [of "apic_demo 0"] by (simp add: apic_demo_sel)

theorem send_ipi_sends_witness: "icr_left (send_ipi 1 0xC500 (apic_demo 0)) = 0"
  using send_ipi_sends [of "apic_demo 0" 1 "0xC500"] by (simp add: apic_demo_sel)

theorem apic_init_enables_witness: "apic_enabled (apic_init (apic_demo 0x200000)) \<and> use_x2apic (apic_init (apic_demo 0x200000))"
proof -
  have "has_x2apic (apic_demo 0x200000)"
    by (simp add: has_x2apic_def cpuid_def apic_demo_sel)
  then show ?thesis
    using apic_init_enables [of "apic_demo 0x200000"] by (simp add: apic_demo_sel APIC_BASE_MSR_def Let_def)
qed

end
