(* ===== verification/Idt.thy ===== *)
theory Idt
  imports Apic
begin

text \<open>
  The interrupt descriptor table of \<^verbatim>\<open>c/kernel/minimal_step9.c\<close>: the gates and
  \<open>idt_init\<close>, the exception stubs with the frame they build for \<open>exception_handler\<close>, and the timer
  interrupt with its end-of-interrupt.

  A stack is the list of its 64-bit words, the top first.  The stubs are assembly: each definition
  pushes, reads and pops the words that the instructions do.  \<open>Halts\<close> is a \<open>hlt\<close> loop, with the
  state it is entered in.
\<close>

datatype 's outcome = Returns 's | Halts 's

definition MAX_CPUS :: u32 where "MAX_CPUS = 16"

record idt_entry =
  offset_low :: u16
  selector :: u16
  ist :: u8
  type_attr :: u8
  offset_mid :: u16
  offset_high :: u32
  zero :: u32

record idt_state = apic +
  idt :: "idt_entry list"
  idtr_limit :: u16
  idtr_base :: u64
  exception_count :: u32
  timer_ticks :: "u64 list"
  global_timer_calls :: u64

section \<open>Gates\<close>

definition idt_set_gate :: "u8 \<Rightarrow> u64 \<Rightarrow> u16 \<Rightarrow> u8 \<Rightarrow> 'a idt_state_scheme \<Rightarrow> 'a idt_state_scheme" where
  "idt_set_gate num handler sel flags k =
     k\<lparr>idt := (idt k)[unat num :=
        \<lparr>offset_low = ucast (handler AND 0xFFFF), selector = sel, ist = 0, type_attr = flags,
         offset_mid = ucast (drop_bit 16 handler AND 0xFFFF),
         offset_high = ucast (drop_bit 32 handler AND 0xFFFFFFFF), zero = 0\<rparr>]\<rparr>"

definition idt_load :: "'a idt_state_scheme \<Rightarrow> 'a idt_state_scheme" where
  "idt_load k = cpu_do (Lidt (idtr_limit k) (idtr_base k)) k"

text \<open>The size of the table is \<open>256 * 16\<close> bytes.\<close>

definition idt_init :: "layout \<Rightarrow> 'a idt_state_scheme \<Rightarrow> 'a idt_state_scheme" where
  "idt_init ld k =
     (let k = for_up (0 :: u32) 256 (\<lambda>i. idt_set_gate (ucast i) (pure_iretq_handler_sym ld) 0x08 0x8E) k;
          k = for_up (0 :: u32) 32 (\<lambda>i. idt_set_gate (ucast i) (exception_stub_sym ld (unat i)) 0x08 0x8E) k;
          k = idt_set_gate (ucast TIMER_VECTOR) (timer_irq_stub_sym ld) 0x08 0x8E k;
          k = k\<lparr>idtr_limit := 256 * 16 - 1, idtr_base := idt_sym ld\<rparr>
      in idt_load k)"

section \<open>Exceptions\<close>

definition exception_names :: "string list" where
  "exception_names = [''Division By Zero'', ''Debug'', ''Non-Maskable Interrupt'', ''Breakpoint'', ''Overflow'',
     ''Bound Range Exceeded'', ''Invalid Opcode'', ''Device Not Available'', ''Double Fault'',
     ''Coprocessor Segment Overrun'', ''Invalid TSS'', ''Segment Not Present'', ''Stack-Segment Fault'',
     ''General Protection Fault'', ''Page Fault'', ''Reserved'', ''x87 Floating-Point Exception'',
     ''Alignment Check'', ''Machine Check'', ''SIMD Floating-Point Exception'', ''Virtualization Exception'',
     ''Control Protection Exception'', ''Reserved'', ''Reserved'', ''Reserved'', ''Reserved'', ''Reserved'',
     ''Reserved'', ''Hypervisor Injection Exception'', ''VMM Communication Exception'',
     ''Security Exception'', ''Reserved'']"

definition exception_handler :: "u64 \<Rightarrow> u64 \<Rightarrow> u64 \<Rightarrow> 'a idt_state_scheme \<Rightarrow> 'a idt_state_scheme outcome" where
  "exception_handler vec error_code rip k =
     (let k = k\<lparr>exception_count := exception_count k + 1\<rparr>;
          k = kprint [S ([newline_char] @ ''[EXCEPTION] '')] k;
          k = (if vec < 32 then kprint [S (exception_names ! unat vec)] k
               else if vec = 255 then kprint [S ''Spurious/Unhandled Interrupt''] k
               else kprint [S ''Unknown Exception''] k);
          k = kprint [S '' (Vector '', H_of vec, Ln '')''] k;
          k = kprint [S ''  Error Code: '', X error_code, Ln ''''] k;
          k = kprint [S ''  RIP: '', X rip, Ln ''''] k
      in if vec = 3 \<or> vec = 255 then Returns (kprint [Ln ''[INFO] Continuing execution...''] k)
         else Halts (kprint [Ln ''[HALT] System halted due to exception''] k))"

text \<open>The stubs: what they push before \<open>exception_common\<close>.\<close>

definition EXCEPTION_STUB_NOERR :: "u64 \<Rightarrow> u64 list \<Rightarrow> u64 list" where
  "EXCEPTION_STUB_NOERR num st = num # 0 # st"

definition EXCEPTION_STUB_ERR :: "u64 \<Rightarrow> u64 list \<Rightarrow> u64 list" where
  "EXCEPTION_STUB_ERR num st = num # st"

definition default_interrupt_stub :: "u64 list \<Rightarrow> u64 list" where
  "default_interrupt_stub st = 255 # 0 # st"

text \<open>\<open>exception_stubs[i]\<close>.\<close>

definition exception_stub :: "nat \<Rightarrow> u64 list \<Rightarrow> u64 list" where
  "exception_stub i =
     [EXCEPTION_STUB_NOERR 0, EXCEPTION_STUB_NOERR 1, EXCEPTION_STUB_NOERR 2, EXCEPTION_STUB_NOERR 3,
      EXCEPTION_STUB_NOERR 4, EXCEPTION_STUB_NOERR 5, EXCEPTION_STUB_NOERR 6, EXCEPTION_STUB_NOERR 7,
      EXCEPTION_STUB_ERR 8, EXCEPTION_STUB_NOERR 9, EXCEPTION_STUB_ERR 10, EXCEPTION_STUB_ERR 11,
      EXCEPTION_STUB_ERR 12, EXCEPTION_STUB_ERR 13, EXCEPTION_STUB_ERR 14, EXCEPTION_STUB_NOERR 15,
      EXCEPTION_STUB_NOERR 16, EXCEPTION_STUB_ERR 17, EXCEPTION_STUB_NOERR 18, EXCEPTION_STUB_NOERR 19,
      EXCEPTION_STUB_NOERR 20, EXCEPTION_STUB_ERR 21, EXCEPTION_STUB_NOERR 22, EXCEPTION_STUB_NOERR 23,
      EXCEPTION_STUB_NOERR 24, EXCEPTION_STUB_NOERR 25, EXCEPTION_STUB_NOERR 26, EXCEPTION_STUB_NOERR 27,
      EXCEPTION_STUB_NOERR 28, EXCEPTION_STUB_NOERR 29, EXCEPTION_STUB_ERR 30, EXCEPTION_STUB_NOERR 31] ! i"

text \<open>The fifteen registers in the order of the \<open>push\<close> instructions: RAX, RBX, RCX, RDX, RSI, RDI,
  RBP, R8 to R15.  The result is the registers and the stack that \<open>iretq\<close> sees: whatever the handler
  leaves in the registers, all fifteen are popped.\<close>

definition exception_common ::
  "u64 list \<Rightarrow> u64 list \<Rightarrow> 'a idt_state_scheme \<Rightarrow> (u64 list \<times> u64 list \<times> 'a idt_state_scheme) outcome" where
  "exception_common regs st k =
     (let st = rev regs @ st;
          rdi = st ! 15; rsi = st ! 16; rdx = st ! 17
      in case exception_handler rdi rsi rdx k of
           Halts k \<Rightarrow> Halts (regs, st, k)
         | Returns k \<Rightarrow>
             let regs = rev (take 15 st); st = drop 15 st; st = drop 2 st
             in Returns (regs, st, k))"

section \<open>The timer interrupt\<close>

definition send_eoi :: "'a idt_state_scheme \<Rightarrow> 'a idt_state_scheme" where
  "send_eoi k = (if use_x2apic k then wrmsr X2APIC_EOI 0 k else apic_write APIC_EOI_REG 0 k)"

definition timer_interrupt_handler :: "'a idt_state_scheme \<Rightarrow> 'a idt_state_scheme" where
  "timer_interrupt_handler k =
     (let k = k\<lparr>global_timer_calls := global_timer_calls k + 1\<rparr>;
          (apic_id, k) = (if use_x2apic k then (ucast (rdmsr X2APIC_APICID k), k)
                          else let (v, k) = apic_read APIC_ID_REG k in (drop_bit 24 v, k));
          k = (if apic_id < MAX_CPUS
               then k\<lparr>timer_ticks := (timer_ticks k)[unat apic_id := timer_ticks k ! unat apic_id + 1]\<rparr> else k)
      in send_eoi k)"

definition timer_irq_stub :: "u64 list \<Rightarrow> u64 list \<Rightarrow> 'a idt_state_scheme \<Rightarrow> u64 list \<times> u64 list \<times> 'a idt_state_scheme" where
  "timer_irq_stub regs st k =
     (let st = rev regs @ st;
          k = timer_interrupt_handler k;
          regs = rev (take 15 st)
      in (regs, drop 15 st, k))"

section \<open>The table after \<open>idt_init\<close>\<close>

definition make_gate :: "u64 \<Rightarrow> u16 \<Rightarrow> u8 \<Rightarrow> idt_entry" where
  "make_gate handler sel flags =
     \<lparr>offset_low = ucast handler, selector = sel, ist = 0, type_attr = flags,
      offset_mid = ucast (drop_bit 16 handler), offset_high = ucast (drop_bit 32 handler), zero = 0\<rparr>"

text \<open>The handler address that the processor assembles from a gate.\<close>

definition gate_handler :: "idt_entry \<Rightarrow> u64" where
  "gate_handler e = ucast (offset_low e) OR push_bit 16 (ucast (offset_mid e)) OR push_bit 32 (ucast (offset_high e))"

lemma gate_handler_make [simp]: "gate_handler (make_gate h s f) = h"
proof (rule bit_word_eqI)
  fix n :: nat
  consider "n < 16" | "16 \<le> n" "n < 32" | "32 \<le> n" by linarith
  then show "bit (gate_handler (make_gate h s f)) n = bit h n"
    by cases (auto simp: gate_handler_def make_gate_def bit_simps dest: bit_imp_le_length)
qed

lemma set_gate_eq: "idt_set_gate num h s f k = k\<lparr>idt := (idt k)[unat num := make_gate h s f]\<rparr>"
proof -
  have m: "(0xFFFF :: u64) = mask 16" "(0xFFFFFFFF :: u64) = mask 32"
    by (simp_all add: mask_eq_exp_minus_1)
  have "ucast (x AND mask 16) = (ucast x :: u16)" "ucast (x AND mask 32) = (ucast x :: u32)" for x :: u64
    by (rule bit_word_eqI, auto simp: bit_simps)+
  then show ?thesis
    by (simp only: idt_set_gate_def make_gate_def m)
qed

lemma map_upto_update:
  "x = f n \<Longrightarrow> (map (\<lambda>v. if v < n then f v else g v) [0..<m])[n := x] = map (\<lambda>v. if v < Suc n then f v else g v) [0..<m]"
  by (rule nth_equalityI) (auto simp: nth_list_update less_Suc_eq)

lemma gates_loop:
  assumes "n \<le> 256" "length (idt k) = 256"
  shows "for_up (0 :: u32) (of_nat n) (\<lambda>i. idt_set_gate (ucast i) (h (unat i)) s f) k
    = k\<lparr>idt := map (\<lambda>v. if v < n then make_gate (h v) s f else idt k ! v) [0..<256]\<rparr>"
proof -
  have "fold (\<lambda>v. idt_set_gate (ucast (of_nat v :: u32)) (h (unat (of_nat v :: u32))) s f) [0..<n] k
      = k\<lparr>idt := map (\<lambda>v. if v < n then make_gate (h v) s f else idt k ! v) [0..<256]\<rparr>"
    using assms
  proof (induction n)
    case 0
    have "map (\<lambda>v. idt k ! v) [0..<256] = idt k"
      using 0(2) map_nth [of "idt k"] by simp
    then show ?case by simp
  next
    case (Suc n)
    have u: "unat (ucast (of_nat n :: u32) :: u8) = n" "unat (of_nat n :: u32) = n"
      using Suc.prems(1) by (simp_all add: unsigned_ucast_eq unsigned_of_nat take_bit_nat_eq_self)
    show ?case
      using Suc by (simp add: set_gate_eq u map_upto_update)
  qed
  then show ?thesis
    using assms(1) by (simp add: for_up_nat_fold)
qed

definition vector_handler :: "layout \<Rightarrow> nat \<Rightarrow> u64" where
  "vector_handler ld v = (if v < 32 then exception_stub_sym ld v
     else if v = 32 then timer_irq_stub_sym ld else pure_iretq_handler_sym ld)"

lemma idt_init_eq:
  assumes "length (idt k) = 256"
  shows "idt_init ld k = cpu_do (Lidt 4095 (idt_sym ld))
    (k\<lparr>idt := map (\<lambda>v. make_gate (vector_handler ld v) 8 0x8E) [0..<256], idtr_limit := 4095, idtr_base := idt_sym ld\<rparr>)"
proof -
  let ?k1 = "for_up (0 :: u32) 256 (\<lambda>i. idt_set_gate (ucast i) (pure_iretq_handler_sym ld) 8 0x8E) k"
  have k1: "?k1 = k\<lparr>idt := map (\<lambda>v. make_gate (pure_iretq_handler_sym ld) 8 0x8E) [0..<256]\<rparr>"
    using gates_loop [of 256 k "\<lambda>_. pure_iretq_handler_sym ld"] assms by (simp cong: map_cong)
  have k2: "for_up (0 :: u32) 32 (\<lambda>i. idt_set_gate (ucast i) (exception_stub_sym ld (unat i)) 8 0x8E) ?k1
      = k\<lparr>idt := map (\<lambda>v. make_gate (if v < 32 then exception_stub_sym ld v else pure_iretq_handler_sym ld) 8 0x8E) [0..<256]\<rparr>"
    using gates_loop [of 32 ?k1 "exception_stub_sym ld"] by (auto simp: k1 intro!: nth_equalityI)
  have tv: "unat (ucast TIMER_VECTOR :: u8) = 32"
    by (simp add: TIMER_VECTOR_def)
  have "(map (\<lambda>v. make_gate (if v < 32 then exception_stub_sym ld v else pure_iretq_handler_sym ld) 8 0x8E) [0..<256])
      [32 := make_gate (timer_irq_stub_sym ld) 8 0x8E] = map (\<lambda>v. make_gate (vector_handler ld v) 8 0x8E) [0..<256]"
    by (rule nth_equalityI) (auto simp: vector_handler_def nth_list_update)
  then show ?thesis
    unfolding idt_init_def Let_def idt_load_def k2 by (simp add: set_gate_eq tv cpu_do_def)
qed

text \<open>C21: After \<open>idt_init\<close> the processor finds, for each of the 256 vectors, a present interrupt gate
  with the code selector 8 and no stack switch, leading to the vector's exception stub below 32,
  to the timer stub at 32 and to the bare \<open>iretq\<close> handler above; the table register covers exactly
  the 256 gates.\<close>

theorem idt_init_dispatch:
  assumes "length (idt k) = 256"
  shows "let k' = idt_init ld k in
      length (idt k') = 256 \<and> (\<forall>v<256. idt k' ! v = make_gate (vector_handler ld v) 8 0x8E
        \<and> gate_handler (idt k' ! v) = vector_handler ld v)
      \<and> cpu_log k' = cpu_log k @ [Lidt 4095 (idt_sym ld)] \<and> unat (idtr_limit k') + 1 = 16 * length (idt k')
      \<and> con k' = con k \<and> mem k' = mem k"
  by (simp add: idt_init_eq [OF assms] Let_def cpu_do_def)

section \<open>Exceptions reach their handler\<close>

text \<open>The vectors for which the processor pushes an error code.\<close>

definition pushes_error :: "nat \<Rightarrow> bool" where
  "pushes_error v \<longleftrightarrow> v \<in> {8, 10, 11, 12, 13, 14, 17, 21, 29, 30}"

definition cpu_frame :: "nat \<Rightarrow> u64 \<Rightarrow> u64 list \<Rightarrow> u64 list" where
  "cpu_frame v err frame = (if pushes_error v then err # frame else frame)"

lemma exception_stub_table:
  assumes "v < 32"
  shows "exception_stub v = (if pushes_error v \<and> v \<noteq> 29 then EXCEPTION_STUB_ERR (of_nat v) else EXCEPTION_STUB_NOERR (of_nat v))"
proof -
  have "v \<in> set [0..<32]"
    using assms by simp
  moreover have "\<forall>v\<in>set [0..<32]. exception_stub v
      = (if pushes_error v \<and> v \<noteq> 29 then EXCEPTION_STUB_ERR (of_nat v) else EXCEPTION_STUB_NOERR (of_nat v))"
    by (simp add: exception_stub_def pushes_error_def upt_rec)
  ultimately show ?thesis by blast
qed

lemma exception_common_eq:
  assumes "length regs = 15"
  shows "exception_common regs (v # e # rip # rest) k = (case exception_handler v e rip k of
     Halts k \<Rightarrow> Halts (regs, rev regs @ v # e # rip # rest, k) | Returns k \<Rightarrow> Returns (regs, rip # rest, k))"
  using assms by (simp add: exception_common_def Let_def nth_append numeral_eq_Suc split: outcome.splits)


text \<open>The stub of vector 29 (VMM communication exception), for which the processor pushes an
  error code, pushes a second one: the handler is told error code 0 and takes the error code for
  the RIP.\<close>

theorem vc_frame_misread:
  assumes "length regs = 15"
  shows "exception_common regs (exception_stub 29 (cpu_frame 29 err (rip # frame))) k =
    (case exception_handler 29 0 err k of
       Returns k' \<Rightarrow> Returns (regs, err # rip # frame, k') | Halts k' \<Rightarrow> Halts (regs, rev regs @ 29 # 0 # err # rip # frame, k'))"
  by (simp add: exception_stub_table cpu_frame_def pushes_error_def EXCEPTION_STUB_NOERR_def
      exception_common_eq [OF assms] Let_def outcome.case_distrib split: outcome.splits)

text \<open>The handler stops the machine for every vector but the breakpoint and the spurious one, and the
  table of names has one for every exception vector.\<close>

lemma exception_handler_halts:
  "(\<exists>k'. exception_handler v e r k = Halts k' \<and> exception_count k' = exception_count k + 1) \<longleftrightarrow> v \<noteq> 3 \<and> v \<noteq> 255"
  by (simp add: exception_handler_def Let_def kprint_def)

lemma exception_names_length: "length exception_names = 32"
  by (simp add: exception_names_def)

section \<open>Timer ticks\<close>

definition own_apic_id :: "'a apic_scheme \<Rightarrow> u32" where
  "own_apic_id k = (if use_x2apic k then apic_value APIC_ID_REG k else drop_bit 24 (apic_value APIC_ID_REG k))"

definition eoi_io :: "'a apic_scheme \<Rightarrow> cpu_io" where
  "eoi_io k = (if use_x2apic k then WrMsr X2APIC_EOI 0 else MmioWrite (mmio_addr (drop_bit 2 APIC_EOI_REG) k) 0)"

lemma eoi_reg: "apic_reg APIC_EOI_REG" "APIC_ID_REG \<noteq> APIC_EOI_REG" "X2APIC_EOI = X2APIC_MSR_BASE + drop_bit 4 APIC_EOI_REG"
  by (simp_all add: apic_reg_def APIC_EOI_REG_def APIC_ID_REG_def APIC_ICR_LOW_def X2APIC_EOI_def X2APIC_MSR_BASE_def)

lemma send_eoi_eq: "send_eoi k = apic_write APIC_EOI_REG 0 k"
  using x2_write [OF _ eoi_reg(3), of k 0] by (simp add: send_eoi_def)

definition tick :: "'a idt_state_scheme \<Rightarrow> u64 list" where
  "tick k = (if own_apic_id k < MAX_CPUS
     then (timer_ticks k)[unat (own_apic_id k) := timer_ticks k ! unat (own_apic_id k) + 1] else timer_ticks k)"

lemma apic_read_more: "snd (apic_read APIC_ID_REG k) = k"
  by (simp add: apic_read_id control_regs(3))

lemma timer_handler_eq:
  "timer_interrupt_handler k
    = apic_write APIC_EOI_REG 0 (k\<lparr>global_timer_calls := global_timer_calls k + 1, timer_ticks := tick k\<rparr>)"
proof -
  let ?k = "k\<lparr>global_timer_calls := global_timer_calls k + 1\<rparr>"
  have v: "apic_value APIC_ID_REG ?k = apic_value APIC_ID_REG k"
    by (simp add: apic_value_eq control_regs(3) mmio_addr_def)
  have "(if use_x2apic ?k then (ucast (rdmsr X2APIC_APICID ?k), ?k)
      else let (v, k) = apic_read APIC_ID_REG ?k in (drop_bit 24 v, k)) = (own_apic_id k, ?k)"
    using v by (simp add: apic_read_id control_regs(3) own_apic_id_def Let_def)
      (simp add: apic_value_eq control_regs(3,7) rdmsr_eq)
  then show ?thesis
    unfolding timer_interrupt_handler_def Let_def by (simp add: tick_def send_eoi_eq)
qed

lemma idt_more_write: "apic.more (apic_write r v k) = apic.more k"
  using apic_write_same [of k r v] by (simp add: apic_same_def)

lemma timer_fields_write [simp]:
  "timer_ticks (apic_write r v k) = timer_ticks k" "global_timer_calls (apic_write r v k) = global_timer_calls k"
  "idt (apic_write r v k) = idt k" "exception_count (apic_write r v k) = exception_count k"
  by (simp_all add: apic_write_def Let_def wrmsr_eq cpu_do_def mmio_write_def)

lemma timer_step:
  "timer_ticks (timer_interrupt_handler k) = tick k" "global_timer_calls (timer_interrupt_handler k) = global_timer_calls k + 1"
  "cpu_log (timer_interrupt_handler k) = cpu_log k @ [eoi_io k]" "own_apic_id (timer_interrupt_handler k) = own_apic_id k"
  "eoi_io (timer_interrupt_handler k) = eoi_io k" "mem (timer_interrupt_handler k) = mem k"
  "con (timer_interrupt_handler k) = con k" "length (tick k) = length (timer_ticks k)"
proof -
  let ?k = "k\<lparr>global_timer_calls := global_timer_calls k + 1, timer_ticks := tick k\<rparr>"
  note same = apic_sameD [OF apic_write_same [of ?k APIC_EOI_REG 0]]
  have v: "apic_value APIC_ID_REG ?k = apic_value APIC_ID_REG k"
    by (simp add: apic_value_eq control_regs(3) mmio_addr_def)
  show "timer_ticks (timer_interrupt_handler k) = tick k" "global_timer_calls (timer_interrupt_handler k) = global_timer_calls k + 1"
    by (simp_all add: timer_handler_eq)
  show "cpu_log (timer_interrupt_handler k) = cpu_log k @ [eoi_io k]"
    by (simp add: timer_handler_eq apic_write_def Let_def mmio_write_sel eoi_io_def eoi_reg(3))
      (simp add: mmio_addr_def)
  show "own_apic_id (timer_interrupt_handler k) = own_apic_id k"
    unfolding timer_handler_eq own_apic_id_def using same(1) v
    by (simp add: apic_value_write eoi_reg control_regs(3))
  show "eoi_io (timer_interrupt_handler k) = eoi_io k"
    unfolding timer_handler_eq eoi_io_def same(1,4) by (simp add: mmio_addr_def)
  show "mem (timer_interrupt_handler k) = mem k" "con (timer_interrupt_handler k) = con k"
    unfolding timer_handler_eq same(6,7) by simp_all
  show "length (tick k) = length (timer_ticks k)"
    by (simp add: tick_def)
qed

text \<open>C23: After \<open>n\<close> timer interrupts the counter of the interrupted processor has grown by exactly
  \<open>n\<close> (modulo \<open>2 ^ 64\<close>; a processor whose APIC identifier is 16 or more is not counted), no other
  counter has changed, \<open>global_timer_calls\<close> has grown by \<open>n\<close>, exactly \<open>n\<close> end-of-interrupts were
  sent, and each time the stub gave the interrupted code its registers and stack back.\<close>

theorem timer_ticks_counted:
  fixes k :: "'a idt_state_scheme" and n :: nat
  assumes "length (timer_ticks k) = 16"
  defines "k' \<equiv> (timer_interrupt_handler ^^ n) k" and "i \<equiv> unat (own_apic_id k)"
  shows "timer_ticks k' = (if i < 16 then (timer_ticks k)[i := timer_ticks k ! i + of_nat n] else timer_ticks k)
    \<and> global_timer_calls k' = global_timer_calls k + of_nat n
    \<and> cpu_log k' = cpu_log k @ replicate n (eoi_io k) \<and> mem k' = mem k \<and> con k' = con k
    \<and> (\<forall>regs st. length regs = 15 \<longrightarrow> timer_irq_stub regs st k' = (regs, st, timer_interrupt_handler k'))"
proof -
  have lt: "own_apic_id k < MAX_CPUS \<longleftrightarrow> i < 16"
    by (simp add: MAX_CPUS_def word_less_nat_alt i_def)
  have "own_apic_id k' = own_apic_id k \<and> eoi_io k' = eoi_io k \<and> length (timer_ticks k') = 16
    \<and> timer_ticks k' = (if i < 16 then (timer_ticks k)[i := timer_ticks k ! i + of_nat n] else timer_ticks k)
    \<and> global_timer_calls k' = global_timer_calls k + of_nat n
    \<and> cpu_log k' = cpu_log k @ replicate n (eoi_io k) \<and> mem k' = mem k \<and> con k' = con k"
    unfolding k'_def
  proof (induction n)
    case 0
    then show ?case
      using assms(1) by simp
  next
    case (Suc n)
    let ?t = "(timer_interrupt_handler ^^ n) k"
    have "tick ?t = (if i < 16 then (timer_ticks k)[i := timer_ticks k ! i + of_nat (Suc n)] else timer_ticks k)"
      using Suc assms(1) lt by (simp add: tick_def i_def [symmetric] ac_simps)
    then show ?case
      using Suc assms(1) by (simp add: timer_step replicate_append_same add.commute)
  qed
  then show ?thesis
    by (simp add: timer_irq_stub_def Let_def)
qed

section \<open>Witnesses\<close>

definition idt_demo :: idt_state where
  "idt_demo = apic.extend (apic_demo 0) (idt_state.fields
     (replicate 256 (make_gate 0 0 0)) 0 0 0 (replicate 16 0) 0)"

theorem idt_init_dispatch_witness:
  "gate_handler (idt (idt_init small_layout idt_demo) ! 14) = 0x1020E0"
  using idt_init_dispatch [of idt_demo small_layout]
  by (simp add: idt_demo_def apic.defs idt_state.defs Let_def vector_handler_def small_layout_def)


theorem vc_frame_misread_witness:
  "\<exists>k'. exception_common (replicate 15 7) (exception_stub 29 (cpu_frame 29 5 [0x100000])) idt_demo
     = Halts (replicate 15 7, replicate 15 7 @ [29, 0, 5, 0x100000], k')"
proof -
  have "\<exists>k'. exception_handler 29 0 5 idt_demo = Halts k'"
    by (simp add: exception_handler_def Let_def)
  then show ?thesis
    using vc_frame_misread [of "replicate 15 7" 5 "0x100000" "[]" idt_demo] by auto
qed

theorem timer_ticks_counted_witness: "timer_ticks ((timer_interrupt_handler ^^ 5) idt_demo) ! 0 = 5"
proof -
  have "own_apic_id idt_demo = 0"
    by (simp add: own_apic_id_def apic_value_eq control_regs(3) idt_demo_def apic_demo_def vmm.defs apic.defs idt_state.defs)
  moreover have "timer_ticks idt_demo = replicate 16 0"
    by (simp add: idt_demo_def apic.defs idt_state.defs)
  ultimately show ?thesis
    using timer_ticks_counted [of idt_demo 5] by simp
qed

end
