(* ===== verification/Acpi.thy ===== *)
theory Acpi
  imports Idt
begin

text \<open>
  The ACPI tables of \<^verbatim>\<open>c/kernel/minimal_step9.c\<close>: the checksum, the search for the root
  pointer in the BIOS area, the search for the MADT in the root table, and the list of
  processors in the MADT.

  The tables are bytes of memory.  The MADT loop advances by the length byte of each entry and need
  not end: \<open>madt_loop\<close> is a partial function, and \<open>acpi_parse_madt\<close> is \<open>None\<close> where the loop of
  the code never stops.
\<close>

record acpi = idt_state +
  cpu_apic_ids :: "u8 list"
  cpu_count :: u32

definition ACPI_SEARCH_START :: u64 where "ACPI_SEARCH_START = 0x000E0000"
definition ACPI_SEARCH_END :: u64 where "ACPI_SEARCH_END = 0x000FFFFF"

section \<open>Tables\<close>

text \<open>The fields of a packed structure at \<open>p\<close>.\<close>

definition rsdp_revision :: "memory \<Rightarrow> u64 \<Rightarrow> u8" where "rsdp_revision m p = m (p + 15)"
definition rsdp_rsdt_address :: "memory \<Rightarrow> u64 \<Rightarrow> u32" where "rsdp_rsdt_address m p = load32 m (p + 16)"
definition rsdp_xsdt_address :: "memory \<Rightarrow> u64 \<Rightarrow> u64" where "rsdp_xsdt_address m p = load64 m (p + 24)"
definition sdt_length :: "memory \<Rightarrow> u64 \<Rightarrow> u32" where "sdt_length m p = load32 m (p + 4)"
definition lapic_apic_id :: "memory \<Rightarrow> u64 \<Rightarrow> u8" where "lapic_apic_id m p = m (p + 3)"
definition lapic_flags :: "memory \<Rightarrow> u64 \<Rightarrow> u32" where "lapic_flags m p = load32 m (p + 4)"

section \<open>Operations\<close>

text \<open>\<open>for (int i = 0; i < length; i++) sum += p[i];\<close> with a signed length: no iteration when it is
  negative.\<close>

fun checksum_loop :: "nat \<Rightarrow> memory \<Rightarrow> u64 \<Rightarrow> u8 \<Rightarrow> u8" where
  "checksum_loop 0 m p acc = acc"
| "checksum_loop (Suc n) m p acc = checksum_loop n m (p + 1) (acc + m p)"

definition acpi_checksum :: "memory \<Rightarrow> u64 \<Rightarrow> u32 \<Rightarrow> bool" where
  "acpi_checksum m p len = (checksum_loop (nat (sint len)) m p 0 = 0)"

definition rsdp_signature :: "memory \<Rightarrow> u64 \<Rightarrow> bool" where
  "rsdp_signature m p \<longleftrightarrow> m p = byte_of CHR ''R'' \<and> m (p + 1) = byte_of CHR ''S'' \<and> m (p + 2) = byte_of CHR ''D''
     \<and> m (p + 3) = byte_of CHR '' '' \<and> m (p + 4) = byte_of CHR ''P'' \<and> m (p + 5) = byte_of CHR ''T''
     \<and> m (p + 6) = byte_of CHR ''R'' \<and> m (p + 7) = byte_of CHR '' ''"

text \<open>The loop over \<open>ptr\<close> in steps of 16.\<close>

function find_rsdp_loop :: "memory \<Rightarrow> u64 \<Rightarrow> u64 option" where
  "find_rsdp_loop m ptr =
     (if ptr < ACPI_SEARCH_END then
        if rsdp_signature m ptr \<and> acpi_checksum m ptr 20 then Some ptr else find_rsdp_loop m (ptr + 16)
      else None)"
  by pat_completeness auto
termination
proof (relation "measure (\<lambda>(m, ptr). unat ACPI_SEARCH_END - unat ptr)")
  fix m :: memory and ptr :: u64
  assume lt: "ptr < ACPI_SEARCH_END"
  then have "unat ptr < unat ACPI_SEARCH_END"
    by (rule unat_mono)
  moreover from this have "unat (ptr + 16) = unat ptr + 16"
    by (subst unat_add_lt) (simp_all add: ACPI_SEARCH_END_def)
  ultimately show "((m, ptr + 16), m, ptr) \<in> measure (\<lambda>(m, ptr). unat ACPI_SEARCH_END - unat ptr)"
    by simp
qed simp

declare find_rsdp_loop.simps [simp del]

definition acpi_find_rsdp :: "memory \<Rightarrow> u64" where
  "acpi_find_rsdp m = (case find_rsdp_loop m ACPI_SEARCH_START of Some p \<Rightarrow> p | None \<Rightarrow> 0)"

definition madt_signature :: "memory \<Rightarrow> u64 \<Rightarrow> bool" where
  "madt_signature m p \<longleftrightarrow> m p = byte_of CHR ''A'' \<and> m (p + 1) = byte_of CHR ''P'' \<and> m (p + 2) = byte_of CHR ''I''
     \<and> m (p + 3) = byte_of CHR ''C''"

text \<open>\<open>entries\<close> is a 64-bit unsigned quotient converted to a signed \<open>int\<close>: for a table shorter
  than its header the difference wraps and the \<open>int\<close> is negative, so the loop has no iteration.\<close>

definition root_table :: "memory \<Rightarrow> u64 \<Rightarrow> u64" where
  "root_table m rsdp =
     (if 2 \<le> rsdp_revision m rsdp \<and> rsdp_xsdt_address m rsdp \<noteq> 0 then rsdp_xsdt_address m rsdp
      else ucast (rsdp_rsdt_address m rsdp))"

definition acpi_find_madt :: "memory \<Rightarrow> u64 \<Rightarrow> u64" where
  "acpi_find_madt m rsdp =
     (let rsdt = root_table m rsdp in
      if \<not> acpi_checksum m rsdt (sdt_length m rsdt) then 0
      else
        let entries = ucast ((ucast (sdt_length m rsdt) - 36 :: u64) div 4) :: u32;
            entry_ptr = rsdt + 36
        in if sint entries \<le> 0 then 0
           else case find_up 0 entries (\<lambda>i. madt_signature m (ucast (load32 m (entry_ptr + 4 * ucast i)))) of
             Some i \<Rightarrow> ucast (load32 m (entry_ptr + 4 * ucast i))
           | None \<Rightarrow> 0)"

text \<open>One entry of the MADT: a processor that is enabled is reported, entered in \<open>cpu_apic_ids\<close>
  while there is room, and counted.\<close>

definition madt_entry :: "u64 \<Rightarrow> u32 \<Rightarrow> 'a acpi_scheme \<Rightarrow> u32 \<times> 'a acpi_scheme" where
  "madt_entry ptr count k =
     (if mem k ptr = 0 then
        if lapic_flags (mem k) ptr AND 1 \<noteq> 0 then
          let k = kprint [S ''[ACPI] CPU '', D count, S '' detected (APIC ID '', D_of (lapic_apic_id (mem k) ptr), Ln '')''] k;
              k = (if sint count < 16 then k\<lparr>cpu_apic_ids := (cpu_apic_ids k)[unat count := lapic_apic_id (mem k) ptr]\<rparr> else k)
          in (count + 1, k)
        else (count, k)
      else (count, k))"

partial_function (option) madt_loop :: "u64 \<Rightarrow> u64 \<Rightarrow> u32 \<Rightarrow> 'a acpi_scheme \<Rightarrow> (u32 \<times> 'a acpi_scheme) option" where
  "madt_loop ptr end_ptr count k =
     (if ptr < end_ptr then
        let len = ucast (mem k (ptr + 1)) :: u64; (count, k) = madt_entry ptr count k
        in madt_loop (ptr + len) end_ptr count k
      else Some (count, k))"

definition acpi_parse_madt :: "u64 \<Rightarrow> 'a acpi_scheme \<Rightarrow> (u32 \<times> 'a acpi_scheme) option" where
  "acpi_parse_madt madt k =
     (let ptr = madt + 44; end_ptr = madt + ucast (sdt_length (mem k) madt)
      in madt_loop ptr end_ptr 0 k)"

section \<open>The checksum\<close>

lemma checksum_loop_sum: "checksum_loop n m p acc = acc + (\<Sum>i<n. m (p + of_nat i))"
proof (induction n arbitrary: p acc)
  case (Suc n)
  have "(\<Sum>i<Suc n. m (p + of_nat i)) = m p + (\<Sum>i<n. m (p + 1 + of_nat i))"
    by (subst sum.lessThan_Suc_shift) (simp add: ac_simps)
  then show ?case
    by (simp add: Suc add.assoc)
qed simp

definition bytes_sum_zero :: "memory \<Rightarrow> u64 \<Rightarrow> nat \<Rightarrow> bool" where
  "bytes_sum_zero m p n \<longleftrightarrow> (\<Sum>i<n. m (p + of_nat i)) = 0"

lemma acpi_checksum_eq: "acpi_checksum m p len \<longleftrightarrow> bytes_sum_zero m p (nat (sint len))"
  by (simp add: acpi_checksum_def checksum_loop_sum bytes_sum_zero_def)

section \<open>The root pointer\<close>

definition is_rsdp :: "memory \<Rightarrow> u64 \<Rightarrow> bool" where
  "is_rsdp m p \<longleftrightarrow> rsdp_signature m p \<and> bytes_sum_zero m p 20"

lemma is_rsdp_eq: "rsdp_signature m p \<and> acpi_checksum m p 20 \<longleftrightarrow> is_rsdp m p"
  by (simp add: is_rsdp_def acpi_checksum_eq)

text \<open>The candidates: \<open>0xE0000 + 16 * j\<close> for \<open>j < 8192\<close>.\<close>

definition rsdp_candidate :: "nat \<Rightarrow> u64" where
  "rsdp_candidate j = 0xE0000 + 16 * of_nat j"

lemma unat_candidate: "j \<le> 8192 \<Longrightarrow> unat (rsdp_candidate j) = 0xE0000 + 16 * j"
  by (simp add: rsdp_candidate_def unat_add_lt unat_mult_lt unat_of_nat_lt)

lemma find_rsdp_loop_candidates:
  assumes "j \<le> 8192"
  shows "find_rsdp_loop m (rsdp_candidate j) = map_option rsdp_candidate (find (\<lambda>i. is_rsdp m (rsdp_candidate i)) [j..<8192])"
  using assms
proof (induction "8192 - j" arbitrary: j)
  case 0
  then have "j = 8192" by simp
  then show ?case
    using unat_candidate [of 8192]
    by (subst find_rsdp_loop.simps) (simp add: ACPI_SEARCH_END_def word_less_nat_alt)
next
  case (Suc n)
  then have lt: "rsdp_candidate j < ACPI_SEARCH_END" and j: "j < 8192"
    using unat_candidate [of j] by (simp_all add: ACPI_SEARCH_END_def word_less_nat_alt)
  have step: "rsdp_candidate j + 16 = rsdp_candidate (Suc j)"
    by (simp add: rsdp_candidate_def algebra_simps)
  have "find_rsdp_loop m (rsdp_candidate (Suc j))
      = map_option rsdp_candidate (find (\<lambda>i. is_rsdp m (rsdp_candidate i)) [Suc j..<8192])"
    using Suc by (intro Suc.hyps(1)) simp_all
  moreover have "[j..<8192] = j # [Suc j..<8192]"
    using j by (simp add: upt_conv_Cons)
  ultimately show ?case
    using lt by (subst find_rsdp_loop.simps) (simp add: is_rsdp_eq step)
qed

text \<open>\<open>acpi_find_rsdp\<close> returns the lowest 16-byte aligned address from \<open>0xE0000\<close> to \<open>0xFFFF0\<close>
  with the signature \<open>RSD PTR\<close> and twenty bytes that sum to 0, or 0 when there is none.\<close>

theorem find_rsdp_first:
  "acpi_find_rsdp m = (case find (\<lambda>j. is_rsdp m (rsdp_candidate j)) [0..<8192] of Some j \<Rightarrow> rsdp_candidate j | None \<Rightarrow> 0)
   \<and> (acpi_find_rsdp m = 0 \<longleftrightarrow> \<not> (\<exists>j<8192. is_rsdp m (rsdp_candidate j)))"
proof -
  have eq: "acpi_find_rsdp m = (case find (\<lambda>j. is_rsdp m (rsdp_candidate j)) [0..<8192] of Some j \<Rightarrow> rsdp_candidate j | None \<Rightarrow> 0)"
    using find_rsdp_loop_candidates [of 0 m]
    by (simp add: acpi_find_rsdp_def ACPI_SEARCH_START_def rsdp_candidate_def split: option.splits)
  have nz: "rsdp_candidate j \<noteq> 0" if "j < 8192" for j
    using unat_candidate [of j] that by (metis less_imp_le add_is_0 unat_0 zero_neq_numeral)
  have "acpi_find_rsdp m = 0 \<longleftrightarrow> find (\<lambda>j. is_rsdp m (rsdp_candidate j)) [0..<8192] = None"
  proof (cases "find (\<lambda>j. is_rsdp m (rsdp_candidate j)) [0..<8192]")
    case (Some j)
    then have "j < 8192"
      by (auto simp: find_Some_iff)
    then show ?thesis
      unfolding eq Some using nz by simp
  qed (simp add: eq)
  then show ?thesis
    using eq by (auto simp: find_None_iff)
qed

section \<open>The MADT in the root table\<close>

lemma find_up_find_from:
  fixes i hi :: "'a::len word"
  shows "map_option unat (find_up i hi (\<lambda>i. P (unat i))) = find P [unat i..<unat hi]"
proof (induction i hi "\<lambda>i :: 'a word. P (unat i)" rule: find_up.induct)
  case (1 i hi)
  show ?case
  proof (cases "i < hi")
    case True
    then have "[unat i..<unat hi] = unat i # [unat (i + 1)..<unat hi]"
      by (simp add: unat_inc [OF True] upt_rec unat_mono)
    then show ?thesis
      using "1.hyps" True by (subst find_up.simps) simp
  next
    case False
    then show ?thesis
      by (subst find_up.simps) (simp add: word_less_nat_alt)
  qed
qed

lemma find_up_find: "map_option unat (find_up 0 hi (\<lambda>i. P (unat i))) = find P [0..<unat hi]"
  using find_up_find_from [of 0 hi P] by simp

text \<open>The pointers of the root table, as the code reads them: 32 bits each.\<close>

definition root_entry :: "memory \<Rightarrow> u64 \<Rightarrow> nat \<Rightarrow> u64" where
  "root_entry m rsdt i = ucast (load32 m (rsdt + 36 + 4 * of_nat i))"

definition root_entries :: "memory \<Rightarrow> u64 \<Rightarrow> nat" where
  "root_entries m rsdt = (unat (sdt_length m rsdt) - 36) div 4"

lemma root_entry_count:
  fixes len :: u32
  defines "e \<equiv> ucast ((ucast len - 36 :: u64) div 4) :: u32"
  shows "36 \<le> unat len \<Longrightarrow> 0 \<le> sint e \<and> unat e = (unat len - 36) div 4"
    and "unat len < 36 \<Longrightarrow> sint e < 0"
proof -
  have sub: "unat (ucast len - 36 :: u64) = (if 36 \<le> unat len then unat len - 36 else 2 ^ 64 + unat len - 36)"
    using unat_sub_if_size [of "ucast len :: u64" 36] by (simp add: word_size unat_ucast_32_64)
  have u: "unat e = (unat (ucast len - 36 :: u64) div 4) mod 2 ^ 32"
    by (simp add: e_def unsigned_ucast_eq take_bit_eq_mod unat_div)
  have len: "unat len < 2 ^ 32"
    using unsigned_less [of len, where 'a = nat] by simp
  show "36 \<le> unat len \<Longrightarrow> 0 \<le> sint e \<and> unat e = (unat len - 36) div 4"
    using len by (simp add: u sub sint32)
  assume "unat len < 36"
  then have "unat e = ((2 ^ 64 + unat len - 36) div 4) mod 2 ^ 32"
    by (simp add: u sub)
  also have "(2 ^ 64 + unat len - 36) div 4 = (2 ^ 30 - 1) * 2 ^ 32 + (2 ^ 32 - 9 + unat len div 4)"
    using \<open>unat len < 36\<close> by simp
  also have "\<dots> mod 2 ^ 32 = (2 ^ 32 - 9 + unat len div 4) mod 2 ^ 32"
    by (rule mod_mult_self3)
  also have "\<dots> = 2 ^ 32 - 9 + unat len div 4"
    using \<open>unat len < 36\<close> by (intro mod_less) simp
  finally show "sint e < 0"
    using \<open>unat len < 36\<close> by (simp add: sint32)
qed

text \<open>\<open>acpi_find_madt\<close> looks in the XSDT when the root pointer has revision 2 or more and gives
  one, else in the RSDT; it returns 0 when the bytes of that table do not sum to 0, and otherwise
  the first of its pointers, read as 32-bit words, to a table with the signature \<open>APIC\<close>, or 0.\<close>

theorem find_madt_first:
  "let t = root_table m rsdp; i = find (\<lambda>i. madt_signature m (root_entry m t i)) [0..<root_entries m t] in
   acpi_find_madt m rsdp = (if bytes_sum_zero m t (nat (sint (sdt_length m t)))
     then case i of Some j \<Rightarrow> root_entry m t j | None \<Rightarrow> 0 else 0)"
proof -
  define t where "t = root_table m rsdp"
  define e where "e = (ucast ((ucast (sdt_length m t) - 36 :: u64) div 4) :: u32)"
  let ?P = "\<lambda>i. madt_signature m (root_entry m t i)"
  have ptr: "(ucast (load32 m (t + 36 + 4 * ucast i)) :: u64) = root_entry m t (unat i)" for i :: u32
    by (simp add: root_entry_def)
  have "(if sint e \<le> 0 then 0 else case find_up 0 e (\<lambda>i. madt_signature m (ucast (load32 m (t + 36 + 4 * ucast i)))) of
      Some i \<Rightarrow> ucast (load32 m (t + 36 + 4 * ucast i)) | None \<Rightarrow> 0)
    = (case find ?P [0..<root_entries m t] of Some j \<Rightarrow> root_entry m t j | None \<Rightarrow> 0)"
  proof (cases "36 \<le> unat (sdt_length m t)")
    case False
    then show ?thesis
      using root_entry_count(2) [of "sdt_length m t"] by (simp add: e_def root_entries_def)
  next
    case True
    have e: "0 \<le> sint e" "unat e = root_entries m t"
      using root_entry_count(1) [OF True] by (simp_all add: e_def root_entries_def)
    have z: "find_up 0 e P = None" if "sint e \<le> 0" for P
    proof -
      have "e = 0"
        using that e(1) uint_lt2p [of e] by (simp add: sint32 uint_0_iff split: if_splits)
      then show ?thesis
        by (simp add: find_up_None)
    qed
    have f: "map_option unat (find_up 0 e (\<lambda>i. ?P (unat i))) = find ?P [0..<root_entries m t]"
      unfolding e(2) [symmetric] by (rule find_up_find)
    show ?thesis
      unfolding f [symmetric] using z by (cases "find_up 0 e (\<lambda>i. ?P (unat i))") (auto simp: ptr)
  qed
  then show ?thesis
    unfolding acpi_find_madt_def Let_def acpi_checksum_eq t_def [symmetric] e_def [symmetric] by simp
qed

section \<open>The processors of the MADT\<close>

lemma madt_entry_mem [simp]: "mem (snd (madt_entry ptr count k)) = mem k"
  by (simp add: madt_entry_def Let_def)

text \<open>The addresses of the entries that the loop visits.\<close>

inductive madt_list :: "memory \<Rightarrow> u64 \<Rightarrow> u64 \<Rightarrow> u64 list \<Rightarrow> bool" for m end_ptr where
  madt_end: "\<not> p < end_ptr \<Longrightarrow> madt_list m end_ptr p []"
| madt_next: "p < end_ptr \<Longrightarrow> madt_list m end_ptr (p + ucast (m (p + 1))) ps \<Longrightarrow> madt_list m end_ptr p (p # ps)"

inductive madt_reach :: "memory \<Rightarrow> u64 \<Rightarrow> u64 \<Rightarrow> u64 \<Rightarrow> bool" for m end_ptr where
  reach_start: "madt_reach m end_ptr p p"
| reach_next: "p < end_ptr \<Longrightarrow> madt_reach m end_ptr (p + ucast (m (p + 1))) q \<Longrightarrow> madt_reach m end_ptr p q"

inductive_cases madt_list_Nil: "madt_list m e p []"
inductive_cases madt_list_Cons: "madt_list m e p (q # ps)"

definition enabled_ids :: "memory \<Rightarrow> u64 list \<Rightarrow> u8 list" where
  "enabled_ids m ps = map (lapic_apic_id m) (filter (\<lambda>p. m p = 0 \<and> lapic_flags m p AND 1 \<noteq> 0) ps)"

lemma madt_entry_enabled:
  assumes "length (cpu_apic_ids k) = 16" "unat count < 2 ^ 31"
  shows "\<exists>k'. madt_entry p count k = (count + of_nat (length (enabled_ids (mem k) [p])), k') \<and> mem k' = mem k
    \<and> length (cpu_apic_ids k') = 16
    \<and> (\<forall>i<16. cpu_apic_ids k' ! i = (case enabled_ids (mem k) [p] of
          a # _ \<Rightarrow> if i = unat count then a else cpu_apic_ids k ! i | [] \<Rightarrow> cpu_apic_ids k ! i))"
proof -
  have "sint count = int (unat count)"
    unfolding sint32 using assms(2) by (simp only: if_True)
  then have "sint count < 16 \<longleftrightarrow> unat count < 16"
    using of_nat_less_iff [of "unat count" 16, where 'a = int] by (simp only: of_nat_numeral)
  then show ?thesis
    using assms(1) by (auto simp: madt_entry_def enabled_ids_def Let_def kprint_def nth_list_update)
qed

lemma madt_loop_list:
  assumes "madt_list m end_ptr p ps" "mem k = m" "length (cpu_apic_ids k) = 16"
    and "unat count + length (enabled_ids m ps) < 2 ^ 31"
  shows "\<exists>k'. madt_loop p end_ptr count k = Some (count + of_nat (length (enabled_ids m ps)), k') \<and> mem k' = m
    \<and> length (cpu_apic_ids k') = 16
    \<and> (\<forall>i<16. cpu_apic_ids k' ! i = (if unat count \<le> i \<and> i < unat count + length (enabled_ids m ps)
         then enabled_ids m ps ! (i - unat count) else cpu_apic_ids k ! i))"
  using assms
proof (induction p ps arbitrary: k count rule: madt_list.induct)
  case (madt_end p)
  then show ?case
    by (subst madt_loop.simps) (auto simp: enabled_ids_def)
next
  case (madt_next p ps)
  let ?one = "enabled_ids m [p]" and ?rest = "enabled_ids m ps"
  have split: "enabled_ids m (p # ps) = ?one @ ?rest"
    by (simp add: enabled_ids_def)
  have one: "?one = [] \<or> ?one = [lapic_apic_id m p]"
    by (simp add: enabled_ids_def)
  have bound: "unat count + length ?one + length ?rest < 2 ^ 31"
    using madt_next.prems(3) by (simp add: split)
  obtain k1 where k1: "madt_entry p count k = (count + of_nat (length ?one), k1)" "mem k1 = m" "length (cpu_apic_ids k1) = 16"
    "\<forall>i<16. cpu_apic_ids k1 ! i = (case ?one of a # _ \<Rightarrow> if i = unat count then a else cpu_apic_ids k ! i | [] \<Rightarrow> cpu_apic_ids k ! i)"
    using madt_entry_enabled [OF madt_next.prems(2), of count p] bound madt_next.prems(1) by auto
  have c1: "unat (count + of_nat (length ?one)) = unat count + length ?one"
    using bound by (intro unat_add_const_lt) simp
  obtain k' where k': "madt_loop (p + ucast (m (p + 1))) end_ptr (count + of_nat (length ?one)) k1
      = Some (count + of_nat (length ?one) + of_nat (length ?rest), k')" "mem k' = m" "length (cpu_apic_ids k') = 16"
    "\<forall>i<16. cpu_apic_ids k' ! i = (if unat count + length ?one \<le> i \<and> i < unat count + length ?one + length ?rest
         then ?rest ! (i - (unat count + length ?one)) else cpu_apic_ids k1 ! i)"
    using madt_next.IH [OF k1(2,3), of "count + of_nat (length ?one)"] bound unfolding c1 by auto
  have "madt_loop p end_ptr count k = Some (count + of_nat (length (?one @ ?rest)), k')"
    using madt_next.hyps(1) k1(1) k'(1) madt_next.prems(1) by (subst madt_loop.simps) (simp add: add.assoc)
  moreover have "\<forall>i<16. cpu_apic_ids k' ! i = (if unat count \<le> i \<and> i < unat count + length (?one @ ?rest)
         then (?one @ ?rest) ! (i - unat count) else cpu_apic_ids k ! i)"
    using k1(4) k'(4) one by (auto simp: nth_append nth_Cons')
  ultimately show ?case
    unfolding split using k'(2,3) by blast
qed

text \<open>C24: On a MADT whose entries lead from the header past its end, \<open>acpi_parse_madt\<close> returns, with
  the number of enabled local APICs, whatever that number is; their identifiers, in table order, are
  in \<open>cpu_apic_ids\<close>, the first sixteen of them only, and the other slots and the memory are as before.\<close>

theorem parse_madt_lists:
  assumes "madt_list (mem k) (madt + ucast (sdt_length (mem k) madt)) (madt + 44) ps"
    and "length (cpu_apic_ids k) = 16" and "length (enabled_ids (mem k) ps) < 2 ^ 31"
  defines "ids \<equiv> enabled_ids (mem k) ps"
  shows "\<exists>k'. acpi_parse_madt madt k = Some (of_nat (length ids), k') \<and> mem k' = mem k
    \<and> cpu_apic_ids k' = take 16 ids @ drop (length ids) (cpu_apic_ids k)"
proof -
  obtain k' where k': "acpi_parse_madt madt k = Some (of_nat (length ids), k')" "mem k' = mem k" "length (cpu_apic_ids k') = 16"
    "\<forall>i<16. cpu_apic_ids k' ! i = (if i < length ids then ids ! i else cpu_apic_ids k ! i)"
    using madt_loop_list [OF assms(1) refl assms(2), of 0] assms(3) by (auto simp: acpi_parse_madt_def Let_def ids_def)
  have "cpu_apic_ids k' = take 16 ids @ drop (length ids) (cpu_apic_ids k)"
    using k'(3,4) assms(2) by (intro nth_equalityI) (auto simp: nth_append)
  then show ?thesis
    using k' by blast
qed

lemma reach_trans: "madt_reach m e p q \<Longrightarrow> q < e \<Longrightarrow> madt_reach m e p (q + ucast (m (q + 1)))"
  by (induction rule: madt_reach.induct) (auto intro: madt_reach.intros)

text \<open>A value of the loop shows that no entry on the way has length 0.\<close>

lemma madt_loop_Some:
  assumes "madt_loop p end_ptr count k = Some r" "madt_reach (mem k) end_ptr p q" "q < end_ptr"
  shows "mem k (q + 1) \<noteq> 0"
  using assms
proof (induction arbitrary: q rule: madt_loop.raw_induct [rotated 1, consumes 1])
  case (1 loop p end_ptr count k r)
  show ?case
  proof (cases "p < end_ptr")
    case True
    let ?p = "p + ucast (mem k (p + 1))"
    obtain c k1 where e: "madt_entry p count k = (c, k1)" by fastforce
    then have m: "mem k1 = mem k"
      using madt_entry_mem [of p count k] by simp
    have l: "loop ?p end_ptr c k1 = Some r"
      using "1"(2) True e by (simp add: Let_def)
    note IH = "1"(1) [OF l]
    from "1"(3) show ?thesis
    proof cases
      case reach_start
      show ?thesis
      proof
        assume z: "mem k (q + 1) = 0"
        then have "?p = q"
          using reach_start by simp
        then have "mem k1 (q + 1) \<noteq> 0"
          using IH [of q] "1"(4) by (simp add: madt_reach.reach_start)
        then show False
          using z m by simp
      qed
    next
      case reach_next
      then show ?thesis
        using IH [of q] "1"(4) m by simp
    qed
  next
    case False
    from "1"(3) show ?thesis
      using False "1"(4) by cases simp_all
  qed
qed

lemma madt_list_exists:
  assumes "\<And>q. madt_reach m e p q \<Longrightarrow> q < e \<Longrightarrow> m (q + 1) \<noteq> 0" "unat e + 255 < 2 ^ 64"
  shows "\<exists>ps. madt_list m e p ps"
  using assms(1)
proof (induction "unat e - unat p" arbitrary: p rule: less_induct)
  case less
  show ?case
  proof (cases "p < e")
    case True
    let ?l = "ucast (m (p + 1)) :: u64"
    have "unat ?l = unat (m (p + 1))"
      by (simp add: unsigned_ucast_eq take_bit_nat_eq_self order.strict_trans [OF unsigned_less [of "m (p + 1)", where 'a = nat]])
    moreover have "m (p + 1) \<noteq> 0"
      using less.prems True by (simp add: madt_reach.reach_start)
    ultimately have l: "0 < unat ?l" "unat ?l \<le> 255"
      using unsigned_less [of "m (p + 1)", where 'a = nat] by (simp_all add: unat_eq_0 [symmetric] del: unat_eq_0) 
    have u: "unat (p + ?l) = unat p + unat ?l"
      using unat_mono [OF True] l(2) assms(2) by (intro unat_add_lt) simp
    have "\<exists>ps. madt_list m e (p + ?l) ps"
    proof (rule less.hyps)
      show "unat e - unat (p + ?l) < unat e - unat p"
        using unat_mono [OF True] l u by simp
      show "\<And>q. madt_reach m e (p + ?l) q \<Longrightarrow> q < e \<Longrightarrow> m (q + 1) \<noteq> 0"
        using less.prems True by (blast intro: madt_reach.reach_next)
    qed
    then show ?thesis
      using True by (blast intro: madt_next)
  next
    case False
    then show ?thesis
      by (blast intro: madt_end)
  qed
qed

lemma madt_loop_returns:
  "madt_list m e p ps \<Longrightarrow> mem k = m \<Longrightarrow> \<exists>r. madt_loop p e count k = Some r"
proof (induction p ps arbitrary: k count rule: madt_list.induct)
  case (madt_end p)
  then show ?case
    by (subst madt_loop.simps) simp
next
  case (madt_next p ps)
  obtain c k1 where e: "madt_entry p count k = (c, k1)" by fastforce
  then have "mem k1 = m"
    using madt_entry_mem [of p count k] madt_next.prems by simp
  then show ?case
    using madt_next.IH [of k1 c] madt_next.hyps(1) madt_next.prems e by (subst madt_loop.simps) simp
qed

text \<open>C25: \<open>acpi_parse_madt\<close> returns exactly when no entry that it reaches has the length byte 0: such
  an entry is a table on which the boot hangs.\<close>

theorem parse_madt_returns_iff:
  assumes "unat (madt + ucast (sdt_length (mem k) madt)) + 255 < 2 ^ 64"
  defines "e \<equiv> madt + ucast (sdt_length (mem k) madt)"
  shows "acpi_parse_madt madt k \<noteq> None
    \<longleftrightarrow> (\<forall>p. madt_reach (mem k) e (madt + 44) p \<and> p < e \<longrightarrow> mem k (p + 1) \<noteq> 0)"
proof
  assume "acpi_parse_madt madt k \<noteq> None"
  then obtain r where "madt_loop (madt + 44) e 0 k = Some r"
    by (auto simp: acpi_parse_madt_def Let_def e_def)
  then show "\<forall>p. madt_reach (mem k) e (madt + 44) p \<and> p < e \<longrightarrow> mem k (p + 1) \<noteq> 0"
    using madt_loop_Some by blast
next
  assume "\<forall>p. madt_reach (mem k) e (madt + 44) p \<and> p < e \<longrightarrow> mem k (p + 1) \<noteq> 0"
  then obtain ps where "madt_list (mem k) e (madt + 44) ps"
    using madt_list_exists [of "mem k" e "madt + 44"] assms by blast
  then show "acpi_parse_madt madt k \<noteq> None"
    using madt_loop_returns [OF _ refl, of k e "madt + 44" ps 0] by (auto simp: acpi_parse_madt_def Let_def e_def)
qed

section \<open>Witnesses\<close>

text \<open>A MADT at \<open>0x7000\<close> of 68 bytes: an enabled local APIC with identifier 5, a disabled one, and an
  entry of another type.\<close>

definition madt_bytes :: memory where
  "madt_bytes = (\<lambda>_. 0)(0x7004 := 68, 0x702D := 8, 0x702F := 5, 0x7030 := 1, 0x7035 := 8, 0x7037 := 6,
     0x703C := 1, 0x703D := 8)"

definition madt_demo :: "u8 \<Rightarrow> acpi" where
  "madt_demo len = idt_state.extend (idt_demo\<lparr>mem := madt_bytes(0x702D := len)\<rparr>) (acpi.fields (replicate 16 0) 0)"

lemma madt_demo_sel: "mem (madt_demo n) = madt_bytes(0x702D := n)" "cpu_apic_ids (madt_demo n) = replicate 16 0"
  by (simp_all add: madt_demo_def idt_state.defs acpi.defs)

lemma madt_demo_end: "sdt_length (madt_bytes(0x702D := 8)) 0x7000 = 68" "sdt_length (madt_bytes(0x702D := 0)) 0x7000 = 68"
  by (code_simp, code_simp)

lemma madt_demo_list: "madt_list (madt_bytes(0x702D := 8)) 0x7044 0x702C [0x702C, 0x7034, 0x703C]"
proof -
  have "madt_list (madt_bytes(0x702D := 8)) 0x7044 0x7044 []"
    by (rule madt_end) simp
  then have "madt_list (madt_bytes(0x702D := 8)) 0x7044 0x703C [0x703C]"
    by (intro madt_next) (simp_all add: madt_bytes_def)
  then have "madt_list (madt_bytes(0x702D := 8)) 0x7044 0x7034 [0x7034, 0x703C]"
    by (intro madt_next) (simp_all add: madt_bytes_def)
  then show ?thesis
    by (intro madt_next) (simp_all add: madt_bytes_def)
qed

lemma madt_demo_ids: "enabled_ids (madt_bytes(0x702D := 8)) [0x702C, 0x7034, 0x703C] = [5]"
  by code_simp

theorem parse_madt_lists_witness:
  "\<exists>k'. acpi_parse_madt 0x7000 (madt_demo 8) = Some (1, k') \<and> cpu_apic_ids k' = 5 # replicate 15 0"
proof -
  have "\<exists>k'. acpi_parse_madt 0x7000 (madt_demo 8) = Some (of_nat (length [5 :: u8]), k') \<and> mem k' = mem (madt_demo 8)
      \<and> cpu_apic_ids k' = take 16 [5] @ drop (length [5 :: u8]) (replicate 16 0)"
    using parse_madt_lists [of "madt_demo 8" "0x7000" "[0x702C, 0x7034, 0x703C]"] madt_demo_list
    unfolding madt_demo_sel madt_demo_ids by (simp add: madt_demo_end)
  then show ?thesis by auto
qed

theorem parse_madt_returns_iff_witness: "acpi_parse_madt 0x7000 (madt_demo 0) = None"
proof -
  have "madt_reach (madt_bytes(0x702D := 0)) 0x7044 0x702C 0x702C"
    by (rule reach_start)
  moreover have "(madt_bytes(0x702D := 0)) (0x702C + 1) = 0" "(0x702C :: u64) < 0x7044"
    by (simp_all add: madt_bytes_def)
  ultimately show ?thesis
    using parse_madt_returns_iff [of "0x7000" "madt_demo 0"] by (fastforce simp: madt_demo_sel madt_demo_end)
qed

end
