(* ===== verification/Smp.thy ===== *)
theory Smp
  imports Acpi
begin

text \<open>
  Starting the other processors, of \<^verbatim>\<open>c/kernel/minimal_step9.c\<close>: \<open>setup_trampoline\<close> copies
  the real-mode code to \<open>0x8000\<close> and patches its last three words, \<open>boot_ap\<close> gives a processor its
  stack and sends INIT, INIT deassert and two start-up interrupts, \<open>boot_all_aps\<close> does so for each,
  and \<open>ap_entry\<close> is what a started processor does before the tests.

  The symbols of the linker and \<open>ap_stacks\<close> are in \<open>layout\<close>.  An index outside \<open>cpu_apic_ids\<close> or
  \<open>ap_stacks\<close> is the fault \<open>OutOfBounds\<close>.
\<close>

record smp = acpi +
  cpus_online :: u32

definition AP_STACK_SIZE :: u64 where "AP_STACK_SIZE = 8192"

definition wbinvd :: "'a cpu_scheme \<Rightarrow> 'a cpu_scheme" where
  "wbinvd k = cpu_do Wbinvd k"

section \<open>Operations\<close>

definition trampoline_size :: "layout \<Rightarrow> u64" where
  "trampoline_size ld = trampoline_end ld - trampoline_start ld"

definition setup_trampoline :: "layout \<Rightarrow> 'a smp_scheme \<Rightarrow> 'a smp_scheme" where
  "setup_trampoline ld k =
     (let k = kprint [S [newline_char], Ln ''[SMP] Setting up trampoline...''] k;
          size = trampoline_size ld;
          k = kprint [S ''[SMP] Trampoline size: '', D_of size, Ln '' bytes''] k;
          k = k\<lparr>mem := memcpy 0x8000 (trampoline_start ld) (unat size) (mem k)\<rparr>;
          k = kprint [Ln ''[SMP] Trampoline copied to 0x8000''] k;
          cr3_ptr = 0x8000 + size - 24;
          stack_ptr = 0x8000 + size - 16;
          entry_ptr = 0x8000 + size - 8;
          k = k\<lparr>mem := store64 cr3_ptr (cr3 k) (mem k)\<rparr>;
          k = k\<lparr>mem := store64 stack_ptr 0 (mem k)\<rparr>;
          k = k\<lparr>mem := store64 entry_ptr (ap_entry_sym ld) (mem k)\<rparr>;
          k = wbinvd k
      in kprint [Ln ''[SMP] Trampoline configured''] k)"

text \<open>\<open>&ap_stacks[cpu_idx][AP_STACK_SIZE]\<close>: the end of the processor's stack.\<close>

definition ap_stack_top :: "layout \<Rightarrow> u32 \<Rightarrow> u64" where
  "ap_stack_top ld cpu_idx = ap_stacks_sym ld + (ucast cpu_idx + 1) * AP_STACK_SIZE"

definition boot_ap :: "layout \<Rightarrow> u32 \<Rightarrow> 'a smp_scheme \<Rightarrow> fault + 'a smp_scheme" where
  "boot_ap ld cpu_idx k =
     (if cpu_idx = 0 then Inr k
      else if sint (cpu_count k) \<le> sint cpu_idx then Inr k
      else if \<not> cpu_idx < MAX_CPUS then Inl OutOfBounds
      else
        let apic_id = ucast (cpu_apic_ids k ! unat cpu_idx) :: u32;
            start_eip = 0x8000 :: u64;
            stack_ptr = 0x8000 + trampoline_size ld - 16;
            k = k\<lparr>mem := store64 stack_ptr (ap_stack_top ld cpu_idx) (mem k)\<rparr>;
            k = wbinvd k;
            k = send_ipi apic_id (APIC_INT_LEVELTRIG OR APIC_INT_ASSERT OR APIC_DM_INIT) k;
            k = apic_wait_icr k;
            k = mdelay 10 k;
            k = send_ipi apic_id (APIC_INT_LEVELTRIG OR APIC_DM_INIT) k;
            k = apic_wait_icr k;
            k = send_ipi apic_id (APIC_DM_STARTUP OR ucast (drop_bit 12 start_eip)) k;
            k = apic_wait_icr k;
            k = udelay 200 k;
            k = send_ipi apic_id (APIC_DM_STARTUP OR ucast (drop_bit 12 start_eip)) k;
            k = apic_wait_icr k
        in Inr (udelay 200 k))"

definition boot_all_aps :: "layout \<Rightarrow> 'a smp_scheme \<Rightarrow> fault + 'a smp_scheme" where
  "boot_all_aps ld k =
     (let k = k\<lparr>cpus_online := 1\<rparr>;
          r = (if sint (cpu_count k) \<le> 1 then Inr k
               else for_up 1 (cpu_count k) (\<lambda>i r. case r of Inl f \<Rightarrow> Inl f | Inr k \<Rightarrow> boot_ap ld i k) (Inr k))
      in case r of Inl f \<Rightarrow> Inl f | Inr k \<Rightarrow> Inr (cpu_do (Pauses 1000000) k))"

text \<open>What a started processor does up to the tests: it takes the next number, loads the table, turns
  its APIC on in the mode of the first processor, enables interrupts and starts its timer.  The
  registers are its own: \<open>k\<close> is the state as this processor sees it.\<close>

definition ap_enable_apic :: "'a smp_scheme \<Rightarrow> 'a smp_scheme" where
  "ap_enable_apic k =
     (if use_x2apic k then
        let apic_msr = rdmsr APIC_BASE_MSR k;
            (apic_msr, k) =
              (if apic_msr AND APIC_BASE_ENABLE = 0 then
                 let apic_msr = apic_msr OR APIC_BASE_ENABLE in (apic_msr, wrmsr APIC_BASE_MSR apic_msr k)
               else (apic_msr, k));
            apic_msr = apic_msr OR X2APIC_ENABLE;
            k = wrmsr APIC_BASE_MSR apic_msr k;
            k = wrmsr X2APIC_SVR (ucast (APIC_ENABLE OR SPURIOUS_VECTOR)) k
        in wrmsr X2APIC_TPR 0 k
      else
        let apic_msr = rdmsr APIC_BASE_MSR k;
            k = (if apic_msr AND APIC_BASE_ENABLE = 0 then wrmsr APIC_BASE_MSR (apic_msr OR APIC_BASE_ENABLE) k else k);
            k = apic_write APIC_SVR_REG (APIC_ENABLE OR SPURIOUS_VECTOR) k
        in apic_write 0x80 0 k)"

definition ap_entry :: "'a smp_scheme \<Rightarrow> u32 \<times> 'a smp_scheme" where
  "ap_entry k =
     (let my_id = cpus_online k;
          k = k\<lparr>cpus_online := cpus_online k + 1\<rparr>;
          k = idt_load k;
          k = ap_enable_apic k;
          k = cpu_do (Pauses 100000) k;
          k = cpu_do Sti k
      in (my_id, apic_timer_init k))"

section \<open>The trampoline\<close>

text \<open>Byte \<open>i\<close> of the copy of the trampoline.\<close>

definition tramp :: "nat \<Rightarrow> u64" where
  "tramp i = 0x8000 + of_nat i"

text \<open>Where the trampoline goes: room for its three words, and no overlap of source and destination.\<close>

definition trampoline_ok :: "layout \<Rightarrow> bool" where
  "trampoline_ok ld \<longleftrightarrow> 24 \<le> unat (trampoline_size ld) \<and> unat (trampoline_size ld) \<le> 0x8000
     \<and> (\<forall>i j. i < unat (trampoline_size ld) \<and> j < unat (trampoline_size ld)
          \<longrightarrow> trampoline_start ld + of_nat i \<noteq> tramp j)"

text \<open>The patched trampoline: the code, then CR3, the stack and the entry point.\<close>

definition trampoline_holds :: "layout \<Rightarrow> memory \<Rightarrow> memory \<Rightarrow> u64 \<Rightarrow> u64 \<Rightarrow> bool" where
  "trampoline_holds ld src m cr stack \<longleftrightarrow>
     (let n = unat (trampoline_size ld) in
        (\<forall>i<n - 24. m (tramp i) = src (trampoline_start ld + of_nat i))
        \<and> load64 m (tramp (n - 24)) = cr \<and> load64 m (tramp (n - 16)) = stack
        \<and> load64 m (tramp (n - 8)) = ap_entry_sym ld)"

lemma in_range_tramp:
  "a < 2 ^ 62 \<Longrightarrow> b < 2 ^ 62 \<Longrightarrow> n \<le> 2 ^ 62 \<Longrightarrow> in_range (tramp b) n (tramp a) \<longleftrightarrow> b \<le> a \<and> a < b + n"
  using unat_offset_diff [of a b "0x8000"] by (auto simp: in_range_def tramp_def)

lemma disjoint_tramp:
  "a + n \<le> b \<or> b + k \<le> a \<Longrightarrow> a + n \<le> 2 ^ 63 \<Longrightarrow> b + k \<le> 2 ^ 63 \<Longrightarrow> disjoint_ranges (tramp a) n (tramp b) k"
  unfolding tramp_def by (rule disjoint_offsets)

lemma tramp_addrs:
  assumes "trampoline_ok ld"
  shows "0x8000 + trampoline_size ld - 24 = tramp (unat (trampoline_size ld) - 24)"
    "0x8000 + trampoline_size ld - 16 = tramp (unat (trampoline_size ld) - 16)"
    "0x8000 + trampoline_size ld - 8 = tramp (unat (trampoline_size ld) - 8)"
  using assms by (simp_all add: trampoline_ok_def tramp_def of_nat_diff)

text \<open>A store to one of the three words leaves the code and the other two.\<close>

lemma trampoline_store:
  assumes ok: "trampoline_ok ld"
  defines "n \<equiv> unat (trampoline_size ld)"
  assumes d: "d \<in> {24, 16, 8}"
  shows "i < n - 24 \<Longrightarrow> store64 (tramp (n - d)) v m (tramp i) = m (tramp i)"
    and "e \<in> {24, 16, 8} \<Longrightarrow> load64 (store64 (tramp (n - d)) v m) (tramp (n - e))
      = (if e = d then v else load64 m (tramp (n - e)))"
proof -
  have n: "24 \<le> n" "n \<le> 0x8000"
    using ok by (simp_all add: trampoline_ok_def n_def)
  show "i < n - 24 \<Longrightarrow> store64 (tramp (n - d)) v m (tramp i) = m (tramp i)"
  proof -
    assume i: "i < n - 24"
    then have "\<not> in_range (tramp (n - d)) 8 (tramp i)"
      using d n in_range_tramp [of i "n - d" 8] by auto
    then show ?thesis
      by (simp add: store64_def store_le_other)
  qed
  assume e: "e \<in> {24, 16, 8}"
  show "load64 (store64 (tramp (n - d)) v m) (tramp (n - e)) = (if e = d then v else load64 m (tramp (n - e)))"
  proof (cases "e = d")
    case False
    then have "n - e + 8 \<le> n - d \<or> n - d + 8 \<le> n - e"
      using d e n by auto
    then have "disjoint_ranges (tramp (n - e)) 8 (tramp (n - d)) 8"
      using n by (intro disjoint_tramp) auto
    then show ?thesis
      using False by (simp add: load64_store64_disjoint)
  qed simp
qed

text \<open>C26: \<open>setup_trampoline\<close> leaves at \<open>0x8000\<close> the trampoline's code byte for byte, followed by the
  current CR3, an empty stack slot and the address of \<open>ap_entry\<close>, and then writes the caches back.\<close>

theorem setup_trampoline_ready:
  assumes "trampoline_ok ld"
  shows "trampoline_holds ld (mem k) (mem (setup_trampoline ld k)) (cr3 k) 0
    \<and> cpu_log (setup_trampoline ld k) = cpu_log k @ [Wbinvd]"
proof -
  define n where "n = unat (trampoline_size ld)"
  have n: "24 \<le> n" "n \<le> 0x8000"
    using assms by (simp_all add: trampoline_ok_def n_def)
  define m where "m = memcpy 0x8000 (trampoline_start ld) n (mem k)"
  have m: "m (tramp i) = mem k (trampoline_start ld + of_nat i)" if "i < n" for i
    unfolding m_def tramp_def using assms that n by (intro memcpy_nth) (auto simp: trampoline_ok_def n_def tramp_def)
  have eq: "mem (setup_trampoline ld k) = store64 (tramp (n - 8)) (ap_entry_sym ld)
      (store64 (tramp (n - 16)) 0 (store64 (tramp (n - 24)) (cr3 k) m))"
    unfolding setup_trampoline_def Let_def tramp_addrs [OF assms] by (simp add: wbinvd_def n_def m_def)
  note st = trampoline_store [OF assms, folded n_def]
  have "trampoline_holds ld (mem k) (mem (setup_trampoline ld k)) (cr3 k) 0"
    unfolding trampoline_holds_def Let_def n_def [symmetric] eq using m by (simp add: st)
  moreover have "cpu_log (setup_trampoline ld k) = cpu_log k @ [Wbinvd]"
    by (simp add: setup_trampoline_def Let_def wbinvd_def)
  ultimately show ?thesis ..
qed

section \<open>The boot sequence of a processor\<close>

text \<open>\<open>goes k t\<close>: the state \<open>t\<close> comes after \<open>k\<close>, with the same controller and the same variables of
  the later components; \<open>run\<close> is what the controller sees in between.\<close>

definition goes :: "'a apic_scheme \<Rightarrow> 'a apic_scheme \<Rightarrow> bool" where
  "goes k t \<longleftrightarrow> use_x2apic t = use_x2apic k \<and> apic_base t = apic_base k \<and> apic.more t = apic.more k \<and> extends k t"

definition run :: "'a apic_scheme \<Rightarrow> 'a apic_scheme \<Rightarrow> nat \<times> u32 \<times> (nat \<times> u32 \<times> u32) list \<Rightarrow> nat \<times> u32 \<times> (nat \<times> u32 \<times> u32) list" where
  "run k t s = icr_run (apic_base k) (added k t) s"

lemma goes_trans:
  assumes "goes k t" "goes t u"
  shows "goes k u" "run k u s = run t u (run k t s)"
  using assms added_trans [of k t u] by (simp_all add: goes_def run_def)

lemma more_fields:
  fixes k t :: "'a apic_scheme"
  assumes "cpu.more t = cpu.more k"
  shows "use_x2apic t = use_x2apic k" "apic_base t = apic_base k" "apic.more t = apic.more k"
  using assms by (cases k, cases t, simp)+

lemma goes_delay:
  fixes k :: "'a apic_scheme"
  shows "goes k (mdelay n k)" "run k (mdelay n k) (p, h, out) = (p + unat n * 10000, h, out)" "mem (mdelay n k) = mem k"
  "goes k (udelay n k)" "run k (udelay n k) (p, h, out) = (p + unat (n * 10), h, out)" "mem (udelay n k) = mem k"
proof -
  have m: "extends k (mdelay n k)" "added k (mdelay n k) = replicate (unat n) (Pauses 10000)"
    using extendsI [OF mdelay_sel(1) [of n k]] by simp_all
  have u: "extends k (udelay n k)" "added k (udelay n k) = [Pauses (n * 10)]"
    using extendsI [OF udelay_sel(1) [of n k]] by simp_all
  show "goes k (mdelay n k)"
    using m(1) more_fields [OF mdelay_sel(5) [of n k]] by (simp add: goes_def)
  show "goes k (udelay n k)"
    using u(1) more_fields [of "udelay n k" k] by (simp add: goes_def)
  show "run k (mdelay n k) (p, h, out) = (p + unat n * 10000, h, out)"
    "run k (udelay n k) (p, h, out) = (p + unat (n * 10), h, out)"
    by (simp_all add: run_def m u icr_run_pauses)
  show "mem (mdelay n k) = mem k" "mem (udelay n k) = mem k"
    by (simp_all add: mdelay_sel)
qed

lemma goes_wait: "goes k (apic_wait_icr k)" "\<exists>n. run k (apic_wait_icr k) (p, h, out) = (p + n, h, out)"
  "mem (apic_wait_icr k) = mem k"
proof -
  have log: "\<exists>n. cpu_log (apic_wait_icr k) = cpu_log k @ replicate n (Pauses 1)"
  proof (cases "use_x2apic k")
    case True
    then show ?thesis
      by (intro exI [of _ 0]) (simp add: wait_icr)
  qed (auto simp: wait_icr)
  then obtain n where n: "extends k (apic_wait_icr k)" "added k (apic_wait_icr k) = replicate n (Pauses 1)"
    using extendsI by blast
  show "goes k (apic_wait_icr k)" "mem (apic_wait_icr k) = mem k"
    using n(1) by (simp_all add: goes_def wait_icr)
  show "\<exists>n. run k (apic_wait_icr k) (p, h, out) = (p + n, h, out)"
    by (intro exI [of _ n]) (simp add: run_def n(2) icr_run_pauses)
qed

lemma goes_command:
  assumes "unat i < 256"
  shows "goes k (apic_wait_icr (send_ipi i f k))" "mem (apic_wait_icr (send_ipi i f k)) = mem k"
    "\<exists>a q h'. run k (apic_wait_icr (send_ipi i f k)) (p, h, out) = (q, h', out @ [(p + a, i, f)])"
proof -
  let ?t = "send_ipi i f k"
  have e: "apic_same k ?t" "cpu_log ?t = cpu_log k @ added k ?t"
    "\<exists>a q h'. icr_run (apic_base k) (added k ?t) (p, h, out) = (q, h', out @ [(p + a, i, f)])"
    using send_ipi_effect [of k i f] assms by blast+
  have g: "goes k ?t"
    using e(1,2) by (simp add: goes_def apic_same_def extends_def)
  show "goes k (apic_wait_icr ?t)" "mem (apic_wait_icr ?t) = mem k"
    using goes_trans(1) [OF g goes_wait(1)] goes_wait(3) [of ?t] e(1) by (simp_all add: apic_same_def)
  obtain a q h' where r: "run k ?t (p, h, out) = (q, h', out @ [(p + a, i, f)])"
    using e(3) by (auto simp: run_def)
  obtain n where "run ?t (apic_wait_icr ?t) (q, h', out @ [(p + a, i, f)]) = (q + n, h', out @ [(p + a, i, f)])"
    using goes_wait(2) by blast
  then show "\<exists>a q h'. run k (apic_wait_icr ?t) (p, h, out) = (q, h', out @ [(p + a, i, f)])"
    using goes_trans(2) [OF g goes_wait(1)] r by auto
qed

text \<open>The INIT, INIT deassert and start-up commands to a processor: level-triggered assert of INIT,
  its deassert, and twice the start-up vector 8 (the page of \<open>0x8000\<close>).\<close>

definition start_commands :: "u32 \<Rightarrow> (u32 \<times> u32) list" where
  "start_commands i = [(i, 0xC500), (i, 0x8500), (i, 0x608), (i, 0x608)]"

lemma command_values:
  "APIC_INT_LEVELTRIG OR APIC_INT_ASSERT OR APIC_DM_INIT = 0xC500" "APIC_INT_LEVELTRIG OR APIC_DM_INIT = 0x8500"
  "APIC_DM_STARTUP OR ucast (drop_bit 12 (0x8000 :: u64)) = 0x608"
  by (simp_all add: APIC_INT_LEVELTRIG_def APIC_INT_ASSERT_def APIC_DM_INIT_def APIC_DM_STARTUP_def)

lemma start_sequence:
  fixes k :: "'a smp_scheme"
  assumes "unat i < 256"
  defines "k1 \<equiv> apic_wait_icr (send_ipi i 0xC500 k)"
  defines "k2 \<equiv> mdelay 10 k1"
  defines "k3 \<equiv> apic_wait_icr (send_ipi i 0x8500 k2)"
  defines "k4 \<equiv> apic_wait_icr (send_ipi i 0x608 k3)"
  defines "k5 \<equiv> udelay 200 k4"
  defines "k6 \<equiv> apic_wait_icr (send_ipi i 0x608 k5)"
  defines "k7 \<equiv> udelay 200 k6"
  shows "goes k k7" "mem k7 = mem k"
    "\<exists>q1 q2 q3 q4 q h'. run k k7 (p, h, out) = (q, h', out @ [(q1, i, 0xC500), (q2, i, 0x8500), (q3, i, 0x608), (q4, i, 0x608)])
      \<and> 100000 \<le> q2 \<and> 2000 \<le> q4"
proof -
  note cmd = goes_command [OF assms(1)]
  have g1: "goes k k1" and g2: "goes k1 k2" and g3: "goes k2 k3" and g4: "goes k3 k4" and g5: "goes k4 k5"
    and g6: "goes k5 k6" and g7: "goes k6 k7"
    unfolding k1_def k2_def k3_def k4_def k5_def k6_def k7_def by (rule cmd(1) goes_delay(1) goes_delay(4))+
  note t2 = goes_trans [OF g1 g2] and t3 = goes_trans [OF goes_trans(1) [OF g1 g2] g3]
  note t4 = goes_trans [OF t3(1) g4]
  note t5 = goes_trans [OF t4(1) g5]
  note t6 = goes_trans [OF t5(1) g6]
  note t7 = goes_trans [OF t6(1) g7]
  show "goes k k7" by (rule t7(1))
  show "mem k7 = mem k"
    by (simp add: k1_def k2_def k3_def k4_def k5_def k6_def k7_def cmd(2) goes_delay(3,6) del: udelay_sel)
  obtain a1 q1 h1 where r1: "run k k1 (p, h, out) = (q1, h1, out @ [(p + a1, i, 0xC500)])"
    unfolding k1_def using cmd(3) by blast
  have r2: "run k1 k2 s = (fst s + 100000, snd s)" for s
    using goes_delay(2) [of k1 10] by (cases s) (simp add: k2_def)
  obtain a3 q3 h3 where r3: "run k2 k3 (q1 + 100000, h1, out @ [(p + a1, i, 0xC500)])
      = (q3, h3, (out @ [(p + a1, i, 0xC500)]) @ [(q1 + 100000 + a3, i, 0x8500)])"
    unfolding k3_def using cmd(3) by blast
  obtain a4 q4 h4 where r4: "run k3 k4 (q3, h3, (out @ [(p + a1, i, 0xC500)]) @ [(q1 + 100000 + a3, i, 0x8500)])
      = (q4, h4, ((out @ [(p + a1, i, 0xC500)]) @ [(q1 + 100000 + a3, i, 0x8500)]) @ [(q3 + a4, i, 0x608)])"
    unfolding k4_def using cmd(3) by blast
  have r5: "run k4 k5 s = (fst s + 2000, snd s)" "run k6 k7 s = (fst s + 2000, snd s)" for s
    using goes_delay(5) [of k4 200] goes_delay(5) [of k6 200] by (cases s, simp add: k5_def k7_def)+
  obtain a6 q6 h6 where r6: "run k5 k6 (q4 + 2000, h4, ((out @ [(p + a1, i, 0xC500)]) @ [(q1 + 100000 + a3, i, 0x8500)]) @ [(q3 + a4, i, 0x608)])
      = (q6, h6, (((out @ [(p + a1, i, 0xC500)]) @ [(q1 + 100000 + a3, i, 0x8500)]) @ [(q3 + a4, i, 0x608)]) @ [(q4 + 2000 + a6, i, 0x608)])"
    unfolding k6_def using cmd(3) by blast
  have "run k k7 (p, h, out) = (q6 + 2000, h6, (((out @ [(p + a1, i, 0xC500)]) @ [(q1 + 100000 + a3, i, 0x8500)]) @ [(q3 + a4, i, 0x608)]) @ [(q4 + 2000 + a6, i, 0x608)])"
    unfolding t7(2) t6(2) t5(2) t4(2) t3(2) t2(2) r1 r2 fst_conv snd_conv r3 r4 r5(1) r6 r5(2) by (rule refl)
  then show "\<exists>q1 q2 q3 q4 q h'. run k k7 (p, h, out) = (q, h', out @ [(q1, i, 0xC500), (q2, i, 0x8500), (q3, i, 0x608), (q4, i, 0x608)])
      \<and> 100000 \<le> q2 \<and> 2000 \<le> q4"
    by (intro exI [of _ "p + a1"] exI [of _ "q1 + 100000 + a3"] exI [of _ "q3 + a4"] exI [of _ "q4 + 2000 + a6"]
        exI [of _ "q6 + 2000"] exI [of _ h6]) simp
qed

lemma smp_more_fields:
  fixes k t :: "'a smp_scheme"
  assumes "apic.more t = apic.more k"
  shows "cpu_count t = cpu_count k" "cpu_apic_ids t = cpu_apic_ids k"
  using assms by (cases k, cases t, simp)+

lemma boot_ap_start:
  fixes k :: "'a smp_scheme"
  assumes "cpu_idx \<noteq> 0" "sint cpu_idx < sint (cpu_count k)" "unat cpu_idx < 16"
  shows "\<exists>k'. boot_ap ld cpu_idx k = Inr k' \<and> goes k k'
    \<and> mem k' = store64 (0x8000 + trampoline_size ld - 16) (ap_stack_top ld cpu_idx) (mem k)
    \<and> (\<forall>p h out. \<exists>q1 q2 q3 q4 q h'. run k k' (p, h, out)
         = (q, h', out @ [(q1, ucast (cpu_apic_ids k ! unat cpu_idx), 0xC500), (q2, ucast (cpu_apic_ids k ! unat cpu_idx), 0x8500),
              (q3, ucast (cpu_apic_ids k ! unat cpu_idx), 0x608), (q4, ucast (cpu_apic_ids k ! unat cpu_idx), 0x608)])
         \<and> 100000 \<le> q2 \<and> 2000 \<le> q4)"
proof -
  let ?i = "ucast (cpu_apic_ids k ! unat cpu_idx) :: u32"
  let ?k0 = "wbinvd (k\<lparr>mem := store64 (0x8000 + trampoline_size ld - 16) (ap_stack_top ld cpu_idx) (mem k)\<rparr>)"
  have lt: "cpu_idx < MAX_CPUS"
    using assms(3) by (simp add: MAX_CPUS_def word_less_nat_alt)
  have "unat ?i = unat (cpu_apic_ids k ! unat cpu_idx)"
    using unsigned_less [of "cpu_apic_ids k ! unat cpu_idx", where 'a = nat]
    by (simp add: unsigned_ucast_eq take_bit_nat_eq_self)
  then have i: "unat ?i < 256"
    using unsigned_less [of "cpu_apic_ids k ! unat cpu_idx", where 'a = nat] by simp
  have log: "cpu_log ?k0 = cpu_log k @ [Wbinvd]"
    by (simp add: wbinvd_def)
  have g: "goes k ?k0"
    using extendsI [OF log] by (simp add: goes_def) (simp add: wbinvd_def)
  have r: "run k ?k0 (p, h, out) = (p, h, out)" for p h out
    using extendsI [OF log] by (simp add: run_def)
  note seq = start_sequence [OF i, of ?k0]
  have "boot_ap ld cpu_idx k = Inr (udelay 200 (apic_wait_icr (send_ipi ?i 0x608 (udelay 200 (apic_wait_icr (send_ipi ?i 0x608
      (apic_wait_icr (send_ipi ?i 0x8500 (mdelay 10 (apic_wait_icr (send_ipi ?i 0xC500 ?k0)))))))))))"
    using assms(1,2) lt unfolding boot_ap_def Let_def command_values by (simp only: if_False not_le) simp
  moreover have "mem ?k0 = store64 (0x8000 + trampoline_size ld - 16) (ap_stack_top ld cpu_idx) (mem k)"
    by (simp add: wbinvd_def)
  ultimately show ?thesis
    using goes_trans(1) [OF g seq(1)] goes_trans(2) [OF g seq(1)] r seq(2,3) by auto
qed

text \<open>\<open>boot_ap\<close> on an application processor patches the trampoline with the end of that
  processor's own stack, leaving the code, CR3 and the entry point, and then sends it exactly INIT, at
  least 10 ms of pauses later the INIT deassert, the start-up vector 8, and at least 200 us later the
  start-up again.\<close>

theorem boot_ap_sequence:
  fixes k :: "'a smp_scheme"
  assumes "cpu_idx \<noteq> 0" and "sint cpu_idx < sint (cpu_count k)" and "unat cpu_idx < 16"
    and "trampoline_ok ld" and "trampoline_holds ld src (mem k) cr st"
  defines "i \<equiv> ucast (cpu_apic_ids k ! unat cpu_idx)"
  shows "\<exists>k'. boot_ap ld cpu_idx k = Inr k' \<and> trampoline_holds ld src (mem k') cr (ap_stack_top ld cpu_idx)
    \<and> cpu_log k' = cpu_log k @ added k k'
    \<and> (\<forall>p h out. \<exists>q1 q2 q3 q4 q h'. icr_run (apic_base k) (added k k') (p, h, out)
         = (q, h', out @ [(q1, i, 0xC500), (q2, i, 0x8500), (q3, i, 0x608), (q4, i, 0x608)]) \<and> 100000 \<le> q2 \<and> 2000 \<le> q4)"
proof -
  obtain k' where k': "boot_ap ld cpu_idx k = Inr k'" "goes k k'"
    "mem k' = store64 (0x8000 + trampoline_size ld - 16) (ap_stack_top ld cpu_idx) (mem k)"
    "\<forall>p h out. \<exists>q1 q2 q3 q4 q h'. run k k' (p, h, out)
         = (q, h', out @ [(q1, i, 0xC500), (q2, i, 0x8500), (q3, i, 0x608), (q4, i, 0x608)]) \<and> 100000 \<le> q2 \<and> 2000 \<le> q4"
    using boot_ap_start [OF assms(1-3), of ld] unfolding i_def by blast
  have "trampoline_holds ld src (mem k') cr (ap_stack_top ld cpu_idx)"
    using assms(5) unfolding trampoline_holds_def Let_def k'(3) tramp_addrs(2) [OF assms(4)]
    by (simp add: trampoline_store [OF assms(4)])
  then show ?thesis
    using k' by (auto simp: goes_def extends_def run_def)
qed

lemma sint_less_unat:
  fixes i j :: u32
  assumes "unat i < 2 ^ 31" "unat j < 2 ^ 31"
  shows "sint i < sint j \<longleftrightarrow> unat i < unat j"
  unfolding sint32 using assms by (simp only: if_True of_nat_less_iff)

lemma sint_gt:
  fixes e :: u32
  assumes "int m < sint e"
  shows "m < unat e" "unat e < 2 ^ 31" "sint e = int (unat e)"
proof -
  define n where "n = unat e"
  have "sint e = (if n < 2 ^ 31 then int n else int n - 2 ^ 32)"
    by (simp only: sint32 n_def)
  moreover have "n < 2 ^ 32"
    using unsigned_less [of e, where 'a = nat] by (simp add: n_def)
  ultimately have "m < n \<and> n < 2 ^ 31 \<and> sint e = int n"
    using assms by (simp split: if_splits)
  then show "m < unat e" "unat e < 2 ^ 31" "sint e = int (unat e)"
    unfolding n_def by blast+
qed

definition booted_upto :: "'a smp_scheme \<Rightarrow> nat \<Rightarrow> 'a smp_scheme \<Rightarrow> bool" where
  "booted_upto k j t \<longleftrightarrow> goes k t \<and> (\<forall>p h out. \<exists>q h' cmds. run k t (p, h, out) = (q, h', out @ cmds)
     \<and> map snd cmds = concat (map (\<lambda>i. start_commands (ucast (cpu_apic_ids k ! i))) [1..<j]))"

lemma booted_upto_step:
  assumes b: "booted_upto k (unat i) t" and i: "i \<noteq> 0" "sint i < sint (cpu_count k)" "unat i < 16"
  shows "\<exists>t'. boot_ap ld i t = Inr t' \<and> booted_upto k (unat i + 1) t'"
proof -
  have g: "goes k t"
    using b by (simp add: booted_upto_def)
  have "apic.more t = apic.more k"
    using g by (simp add: goes_def)
  note same = smp_more_fields [OF this]
  let ?i = "ucast (cpu_apic_ids k ! unat i) :: u32"
  obtain t' where t': "boot_ap ld i t = Inr t'" "goes t t'"
    "\<forall>p h out. \<exists>q1 q2 q3 q4 q h'. run t t' (p, h, out)
         = (q, h', out @ [(q1, ?i, 0xC500), (q2, ?i, 0x8500), (q3, ?i, 0x608), (q4, ?i, 0x608)]) \<and> 100000 \<le> q2 \<and> 2000 \<le> q4"
    using boot_ap_start [OF i(1) _ i(3), of t ld] i(2) unfolding same by blast
  have "\<exists>q h' cmds. run k t' (p, h, out) = (q, h', out @ cmds)
      \<and> map snd cmds = concat (map (\<lambda>i. start_commands (ucast (cpu_apic_ids k ! i))) [1..<unat i + 1])" for p h out
  proof -
    obtain q h1 cmds where r: "run k t (p, h, out) = (q, h1, out @ cmds)"
      "map snd cmds = concat (map (\<lambda>i. start_commands (ucast (cpu_apic_ids k ! i))) [1..<unat i])"
      using b unfolding booted_upto_def by blast
    obtain q1 q2 q3 q4 q' h' where r': "run t t' (q, h1, out @ cmds)
        = (q', h', (out @ cmds) @ [(q1, ?i, 0xC500), (q2, ?i, 0x8500), (q3, ?i, 0x608), (q4, ?i, 0x608)])"
      using t'(3) by blast
    have "[1..<unat i + 1] = [1..<unat i] @ [unat i]"
      using i(1) by (simp add: unat_gt_0 Suc_le_eq)
    then show ?thesis
      using goes_trans(2) [OF g t'(2), of "(p, h, out)"] r r' by (simp add: start_commands_def)
  qed
  then show ?thesis
    using t'(1) goes_trans(1) [OF g t'(2)] by (auto simp: booted_upto_def)
qed

lemma boot_all_effect:
  fixes k :: "'a smp_scheme"
  assumes "cpu_count k = of_nat n" and "1 \<le> n" and "n \<le> 16"
  shows "\<exists>k'. boot_all_aps ld k = Inr k' \<and> apic.more k' = apic.more (k\<lparr>cpus_online := 1\<rparr>) \<and> cpu_log k' = cpu_log k @ added k k'
    \<and> (\<forall>p h out. \<exists>q h' cmds. icr_run (apic_base k) (added k k') (p, h, out) = (q, h', out @ cmds)
         \<and> map snd cmds = concat (map (\<lambda>i. start_commands (ucast (cpu_apic_ids k ! i))) [1..<n]))"
proof -
  let ?k = "k\<lparr>cpus_online := 1\<rparr>"
  have un: "unat (of_nat n :: u32) = n"
    using assms(3) by (intro unat_of_nat_lt) simp
  have s: "sint (i :: u32) = int (unat i)" if "unat i \<le> 16" for i
    using that by (simp add: sint32)
  let ?body = "\<lambda>i (r :: fault + 'a smp_scheme). case r of Inl f \<Rightarrow> Inl f | Inr k \<Rightarrow> boot_ap ld i k"
  have "\<exists>t. for_up 1 (of_nat n) ?body (Inr ?k) = Inr t \<and> booted_upto ?k n t"
  proof -
    have "\<exists>t. for_up 1 (of_nat n) ?body (Inr ?k) = Inr t \<and> booted_upto ?k (unat (of_nat n :: u32)) t"
    proof (rule for_up_inv [where P = "\<lambda>j r. \<exists>t. r = Inr t \<and> booted_upto ?k (unat j) t"])
      show "\<exists>t. Inr ?k = (Inr t :: fault + 'a smp_scheme) \<and> booted_upto ?k (unat (1 :: u32)) t"
        by (simp add: booted_upto_def goes_def run_def extends_def added_def)
      show "1 \<le> (of_nat n :: u32)"
        using assms(2) un by (simp add: word_le_nat_alt)
      fix j :: u32 and r :: "fault + 'a smp_scheme"
      assume j: "1 \<le> j" "j < of_nat n" and "\<exists>t. r = Inr t \<and> booted_upto ?k (unat j) t"
      then obtain t where t: "r = Inr t" "booted_upto ?k (unat j) t" by blast
      have ju: "unat j < n" "1 \<le> unat j"
        using unat_mono [OF j(2)] j(1) un by (simp_all add: word_le_nat_alt)
      have "j \<noteq> 0" "sint j < sint (cpu_count ?k)" "unat j < 16"
        using ju assms(1,3) un by (auto simp: sint_less_unat)
      from booted_upto_step [OF t(2) this, of ld]
      show "\<exists>t. ?body j r = Inr t \<and> booted_upto ?k (unat (j + 1)) t"
        using t(1) unat_inc [OF j(2)] by auto
    qed
    then show ?thesis by (simp add: un)
  qed
  then obtain t where t: "for_up 1 (of_nat n) ?body (Inr ?k) = Inr t" "booted_upto ?k n t" by blast
  have g: "goes ?k t"
    using t(2) by (simp add: booted_upto_def)
  define k' where "k' = cpu_do (Pauses 1000000) t"
  have "boot_all_aps ld k = Inr k'"
  proof (cases "n = 1")
    case True
    then have "for_up 1 (of_nat n) ?body (Inr ?k) = Inr ?k" by simp
    then have "t = ?k"
      using t(1) by simp
    then show ?thesis
      using True assms(1) by (simp add: boot_all_aps_def Let_def k'_def)
  next
    case False
    then have "\<not> sint (cpu_count k) \<le> 1"
      using assms un s [of "of_nat n"] by simp
    then show ?thesis
      using t(1) assms(1) by (simp add: boot_all_aps_def Let_def k'_def)
  qed
  moreover have log: "cpu_log k' = cpu_log k @ (added ?k t @ [Pauses 1000000])"
    using g by (simp add: k'_def goes_def extends_def)
  moreover have "\<exists>q h' cmds. icr_run (apic_base k) (added k k') (p, h, out) = (q, h', out @ cmds)
         \<and> map snd cmds = concat (map (\<lambda>i. start_commands (ucast (cpu_apic_ids k ! i))) [1..<n])" for p h out
  proof -
    obtain q h' cmds where "run ?k t (p, h, out) = (q, h', out @ cmds)"
      "map snd cmds = concat (map (\<lambda>i. start_commands (ucast (cpu_apic_ids ?k ! i))) [1..<n])"
      using t(2) unfolding booted_upto_def by blast
    then show ?thesis
      using extendsI [OF log] by (simp add: run_def)
  qed
  moreover have "apic.more k' = apic.more ?k"
    using g by (simp add: k'_def goes_def)
  ultimately show ?thesis
    using extendsI [OF log] by auto
qed

text \<open>C27: With \<open>n\<close> processors, at most 16, \<open>boot_all_aps\<close> sends the start sequence to each
  application processor once, in the order of the MADT, and to no one else.\<close>

theorem boot_all_aps_commands:
  fixes k :: "'a smp_scheme"
  assumes "cpu_count k = of_nat n" and "1 \<le> n" and "n \<le> 16"
  shows "\<exists>k'. boot_all_aps ld k = Inr k' \<and> cpu_log k' = cpu_log k @ added k k'
    \<and> (\<forall>p h out. \<exists>q h' cmds. icr_run (apic_base k) (added k k') (p, h, out) = (q, h', out @ cmds)
         \<and> map snd cmds = concat (map (\<lambda>i. start_commands (ucast (cpu_apic_ids k ! i))) [1..<n]))"
  using boot_all_effect [OF assms, of ld] by blast

lemma boot_all_overflow:
  fixes k :: "'a smp_scheme"
  assumes "16 < sint (cpu_count k)"
  shows "boot_all_aps ld k = Inl OutOfBounds"
proof -
  let ?k = "k\<lparr>cpus_online := 1\<rparr>"
  let ?body = "\<lambda>i (r :: fault + 'a smp_scheme). case r of Inl f \<Rightarrow> Inl f | Inr k \<Rightarrow> boot_ap ld i k"
  have c: "16 < unat (cpu_count k)" "unat (cpu_count k) < 2 ^ 31" "sint (cpu_count k) = int (unat (cpu_count k))"
    using sint_gt [of 16 "cpu_count k"] assms by simp_all
  define P where "P j r \<longleftrightarrow> (if unat j \<le> 16 then \<exists>t. r = Inr t \<and> cpu_count t = cpu_count k else r = Inl OutOfBounds)"
    for j :: u32 and r :: "fault + 'a smp_scheme"
  have "P (cpu_count k) (for_up 1 (cpu_count k) ?body (Inr ?k))"
  proof (rule for_up_inv)
    show "P 1 (Inr ?k)"
      by (simp add: P_def)
    show "1 \<le> cpu_count k"
      using c by (simp add: word_le_nat_alt)
    fix j :: u32 and r :: "fault + 'a smp_scheme"
    assume j: "1 \<le> j" "j < cpu_count k" and r: "P j r"
    have ju: "unat j < unat (cpu_count k)" "1 \<le> unat j" "unat (j + 1) = unat j + 1"
      using unat_mono [OF j(2)] j(1) unat_inc [OF j(2)] by (simp_all add: word_le_nat_alt)
    have lt: "sint j < sint (cpu_count k)"
      using ju c(2) by (simp add: sint_less_unat)
    have nz: "j \<noteq> 0"
      using ju(2) by auto
    show "P (j + 1) (?body j r)"
    proof (cases "unat j \<le> 16")
      case True
      then obtain t where t: "r = Inr t" "cpu_count t = cpu_count k"
        using r by (auto simp: P_def)
      show ?thesis
      proof (cases "unat j < 16")
        case True
        have "sint j < sint (cpu_count t)"
          using lt t(2) by simp
        then obtain t' where "boot_ap ld j t = Inr t'" "goes t t'"
          using boot_ap_start [OF nz _ True, of t ld] by blast
        then show ?thesis
          using True t ju smp_more_fields(1) [of t' t] by (simp add: P_def goes_def)
      next
        case False
        then have "\<not> j < MAX_CPUS" "\<not> sint (cpu_count t) \<le> sint j"
          using lt t(2) by (simp_all add: MAX_CPUS_def word_less_nat_alt)
        then have "boot_ap ld j t = Inl OutOfBounds"
          using nz by (simp add: boot_ap_def)
        then show ?thesis
          using False t ju by (simp add: P_def)
      qed
    next
      case False
      then show ?thesis
        using r ju by (simp add: P_def)
    qed
  qed
  then show ?thesis
    using c assms by (simp add: P_def boot_all_aps_def Let_def)
qed

text \<open>C28: A MADT with more than 16 enabled processors makes \<open>boot_all_aps\<close> read past
  \<open>cpu_apic_ids\<close> and use a stack past \<open>ap_stacks\<close>.\<close>

theorem boot_all_aps_overflow:
  fixes k :: "'a smp_scheme"
  assumes "16 < sint (cpu_count k)"
  shows "boot_all_aps ld k = Inl OutOfBounds"
  using assms by (rule boot_all_overflow)

section \<open>A started processor\<close>

lemma ap_enable_eq:
  assumes "use_x2apic k \<or> \<not> bit (msr k APIC_BASE_MSR) 10"
  shows "\<exists>k1. ap_enable_apic k = apic_on k1 \<and> bit (msr k1 APIC_BASE_MSR) 11 \<and> (use_x2apic k1 \<longleftrightarrow> bit (msr k1 APIC_BASE_MSR) 10)
    \<and> use_x2apic k1 = use_x2apic k \<and> apic.more k1 = apic.more k \<and> timer_init_debug k1 = timer_init_debug k"
proof (cases "use_x2apic k")
  case True
  define e where "e = msr k APIC_BASE_MSR OR APIC_BASE_ENABLE"
  define k0 where "k0 = (if msr k APIC_BASE_MSR AND APIC_BASE_ENABLE = 0 then wrmsr APIC_BASE_MSR e k else k)"
  let ?k1 = "wrmsr APIC_BASE_MSR (e OR X2APIC_ENABLE) k0"
  have x: "use_x2apic ?k1" "use_x2apic (apic_write APIC_SVR_REG 0x1FF ?k1)"
    using True apic_write_same [of ?k1 APIC_SVR_REG "0x1FF"] by (simp_all add: k0_def apic_same_def)
  have "ap_enable_apic k = wrmsr X2APIC_TPR 0 (wrmsr X2APIC_SVR (ucast (APIC_ENABLE OR SPURIOUS_VECTOR)) ?k1)"
    using True by (simp add: ap_enable_apic_def Let_def rdmsr_eq k0_def e_def enable_bit enable_or)
  also have "\<dots> = apic_on ?k1"
    using x2_write [OF x(1) control_regs(5), of "0x1FF"] x2_write [OF x(2) control_regs(6), of 0]
    unfolding apic_on_def control_regs(8) by simp
  finally show ?thesis
    using True by (intro exI [of _ ?k1]) (simp add: e_def bit_or_iff enable_bits k0_def)
next
  case False
  define e where "e = msr k APIC_BASE_MSR OR APIC_BASE_ENABLE"
  define k1 where "k1 = (if msr k APIC_BASE_MSR AND APIC_BASE_ENABLE = 0 then wrmsr APIC_BASE_MSR e k else k)"
  have "ap_enable_apic k = apic_on k1"
    using False unfolding ap_enable_apic_def Let_def rdmsr_eq control_regs(8) apic_on_def k1_def e_def by (simp add: APIC_TPR_REG_def)
  then show ?thesis
    using False assms by (intro exI [of _ k1]) (simp add: k1_def e_def bit_or_iff enable_bits enable_bit)
qed


section \<open>Witnesses\<close>

definition smp_layout :: layout where
  "smp_layout = small_layout\<lparr>trampoline_start := 0x200000, trampoline_end := 0x200100, ap_entry_sym := 0x101000, ap_stacks_sym := 0x300000\<rparr>"

definition smp_demo :: "u32 \<Rightarrow> smp" where
  "smp_demo n = acpi.extend ((madt_demo 8)\<lparr>cpu_apic_ids := [0, 5, 6, 7, 0, 0, 0, 0, 0, 0, 0, 0, 0, 0, 0, 0], cpu_count := n\<rparr>) (smp.fields 1)"

lemma smp_demo_sel: "cpu_count (smp_demo n) = n" "use_x2apic (smp_demo n) = False" "length (timer_init_debug (smp_demo n)) = 4"
  "cpu_apic_ids (smp_demo n) = [0, 5, 6, 7, 0, 0, 0, 0, 0, 0, 0, 0, 0, 0, 0, 0]" "cpus_online (smp_demo n) = 1"
  "msr (smp_demo n) = (\<lambda>_. 0)(0x1B := 0xFEE00900)"
  by (simp_all add: smp_demo_def acpi.defs smp.defs madt_demo_def idt_state.defs idt_demo_def apic.defs apic_demo_def vmm.defs)

lemma smp_layout_ok: "trampoline_ok smp_layout"
proof -
  have n: "unat (trampoline_size smp_layout) = 0x100"
    by (simp add: trampoline_size_def smp_layout_def)
  have "trampoline_start smp_layout + of_nat i \<noteq> tramp j" if "i < 0x100" "j < 0x100" for i j
  proof
    assume eq: "trampoline_start smp_layout + of_nat i = tramp j"
    have "trampoline_start smp_layout = 0x200000"
      by (simp add: smp_layout_def)
    with eq have "unat (0x200000 + of_nat i :: u64) = unat (0x8000 + of_nat j :: u64)"
      unfolding tramp_def by metis
    moreover have "unat (0x200000 + of_nat i :: u64) = 0x200000 + i" "unat (0x8000 + of_nat j :: u64) = 0x8000 + j"
      using that by (simp_all add: unat_add_const_lt)
    ultimately show False
      using that by simp
  qed
  then show ?thesis
    unfolding trampoline_ok_def n by auto
qed

theorem setup_trampoline_ready_witness:
  "trampoline_holds smp_layout (mem (smp_demo 4)) (mem (setup_trampoline smp_layout (smp_demo 4))) (cr3 (smp_demo 4)) 0"
  using setup_trampoline_ready [OF smp_layout_ok] by blast

lemma trampoline_holds_self:
  "trampoline_holds ld (\<lambda>a. m (tramp (unat (a - trampoline_start ld)))) m (load64 m (tramp (unat (trampoline_size ld) - 24)))
     (load64 m (tramp (unat (trampoline_size ld) - 16)))"
  if "load64 m (tramp (unat (trampoline_size ld) - 8)) = ap_entry_sym ld" "trampoline_ok ld" for m
proof -
  have "unat (of_nat i :: u64) = i" if "i < unat (trampoline_size ld) - 24" for i
  proof -
    have "unat (trampoline_size ld) \<le> 0x8000"
      using \<open>trampoline_ok ld\<close> by (simp add: trampoline_ok_def)
    then show ?thesis
      using that by (intro unat_of_nat_lt) simp
  qed
  then show ?thesis
    using that(1) by (simp add: trampoline_holds_def Let_def)
qed

theorem boot_ap_sequence_witness:
  "\<exists>k'. boot_ap smp_layout 2 ((smp_demo 4)\<lparr>mem := store64 (tramp 0xF8) 0x101000 (\<lambda>_. 0)\<rparr>) = Inr k'
     \<and> load64 (mem k') (tramp 0xF0) = 0x306000"
proof -
  let ?k = "(smp_demo 4)\<lparr>mem := store64 (tramp 0xF8) 0x101000 (\<lambda>_. 0)\<rparr>"
  have n: "unat (trampoline_size smp_layout) = 0x100" "ap_entry_sym smp_layout = 0x101000"
    by (simp_all add: trampoline_size_def smp_layout_def)
  have "sint (2 :: u32) < sint (cpu_count ?k)" "unat (2 :: u32) < 16"
    by (simp_all add: smp_demo_sel sint_less_unat)
  then obtain k' where "boot_ap smp_layout 2 ?k = Inr k'"
    "trampoline_holds smp_layout (\<lambda>a. mem ?k (tramp (unat (a - trampoline_start smp_layout)))) (mem k')
       (load64 (mem ?k) (tramp (unat (trampoline_size smp_layout) - 24))) (ap_stack_top smp_layout 2)"
    using boot_ap_sequence [of 2 ?k smp_layout, OF _ _ _ smp_layout_ok trampoline_holds_self [OF _ smp_layout_ok]]
    by (auto simp: n)
  moreover have "ap_stack_top smp_layout 2 = 0x306000"
    by (simp add: ap_stack_top_def smp_layout_def AP_STACK_SIZE_def)
  ultimately show ?thesis
    by (auto simp: trampoline_holds_def n Let_def)
qed

theorem boot_all_aps_commands_witness: "\<exists>k'. boot_all_aps smp_layout (smp_demo 4) = Inr k'"
  using boot_all_aps_commands [of "smp_demo 4" 4 smp_layout] by (auto simp: smp_demo_sel)

theorem boot_all_aps_overflow_witness: "boot_all_aps smp_layout (smp_demo 17) = Inl OutOfBounds"
  using boot_all_aps_overflow [of "smp_demo 17" smp_layout] by (simp add: smp_demo_sel)


end
