(* ===== verification/Interleaving.thy ===== *)
theory Interleaving
  imports Prelude
begin

text \<open>
  What the runs of several processors share: the barrier, the parallel tests and the calls of the old
  kernel are each a step function of a processor and the states that interleaved steps reach.

  Locale \<open>interleaving\<close> is that alone, \<open>progressing\<close> adds an amount of work that some processor can
  reduce as long as the goal is not reached, and \<open>ranked\<close> an amount of progress for each processor with
  a bound.  A schedule is the list of the processors that take the steps.
\<close>

locale interleaving =
  fixes run :: "'s \<Rightarrow> bool" and step :: "nat \<Rightarrow> 's \<Rightarrow> 's" and n :: nat
  assumes run_next: "run s \<Longrightarrow> i < n \<Longrightarrow> run (step i s)"
begin

lemma run_schedule: "run s \<Longrightarrow> list_all (\<lambda>i. i < n) sched \<Longrightarrow> run (fold step sched s)"
  by (induction sched arbitrary: s) (auto intro: run_next)

end

locale progressing = interleaving +
  fixes keep goal :: "'s \<Rightarrow> bool" and work :: "'s \<Rightarrow> nat"
  assumes advance: "run s \<Longrightarrow> keep s \<Longrightarrow> \<not> goal s \<Longrightarrow> \<exists>i<n. keep (step i s) \<and> work (step i s) < work s"
begin

lemma schedule_exists:
  assumes "run s" "keep s"
  obtains sched where "list_all (\<lambda>i. i < n) sched" "run (fold step sched s)" "keep (fold step sched s)" "goal (fold step sched s)"
  using assms
proof (induction "work s" arbitrary: s thesis rule: less_induct)
  case less
  show ?case
  proof (cases "goal s")
    case True
    then show ?thesis
      using less.prems(1) [of "[]"] less.prems(2,3) by simp
  next
    case False
    then obtain i where i: "i < n" "keep (step i s)" "work (step i s) < work s"
      using advance [OF less.prems(2,3)] by blast
    obtain sched where "list_all (\<lambda>i. i < n) sched" "run (fold step sched (step i s))" "keep (fold step sched (step i s))"
      "goal (fold step sched (step i s))"
      using less.hyps [OF i(3) _ run_next [OF less.prems(2) i(1)] i(2)] by blast
    then show ?thesis
      using less.prems(1) [of "i # sched"] i(1) by simp
  qed
qed

end

text \<open>A step that leads one processor on and leaves the others where they are reduces what all of them
  together have left.\<close>

lemma sum_left_decreases:
  fixes n :: nat
  assumes "j < n" "r j < b" "r j < r' j" "\<And>i. i \<noteq> j \<Longrightarrow> r' i = r i"
  shows "(\<Sum>i<n. b - r' i) < (\<Sum>i<n. b - r i :: nat)"
proof (rule sum_strict_mono_ex1)
  show "\<forall>i\<in>{..<n}. b - r' i \<le> b - r i"
  proof
    show "b - r' i \<le> b - r i" for i
      using assms(3,4) by (cases "i = j") simp_all
  qed
  show "\<exists>i\<in>{..<n}. b - r' i < b - r i"
    using assms(1-3) by (intro bexI [of _ j]) auto
qed simp

locale ranked = interleaving +
  fixes keep goal :: "'s \<Rightarrow> bool" and rank :: "'s \<Rightarrow> nat \<Rightarrow> nat" and bound :: nat
  assumes leads_on: "run s \<Longrightarrow> keep s \<Longrightarrow> \<not> goal s \<Longrightarrow> \<exists>j<n. keep (step j s) \<and> rank s j < bound
    \<and> rank s j < rank (step j s) j \<and> (\<forall>i. i \<noteq> j \<longrightarrow> rank (step j s) i = rank s i)"

sublocale ranked \<subseteq> progressing run step n keep goal "\<lambda>s. \<Sum>i<n. bound - rank s i"
proof
  fix s
  assume "run s" "keep s" "\<not> goal s"
  then obtain j where "j < n" "keep (step j s)" "rank s j < bound" "rank s j < rank (step j s) j"
    "\<And>i. i \<noteq> j \<Longrightarrow> rank (step j s) i = rank s i"
    using leads_on by blast
  then show "\<exists>i<n. keep (step i s) \<and> (\<Sum>ia<n. bound - rank (step i s) ia) < (\<Sum>i<n. bound - rank s i)"
    using sum_left_decreases [of j n "rank s" bound "rank (step j s)"] by blast
qed

text \<open>A schedule of processor 0 alone.\<close>

lemma only_processor_0: "list_all (\<lambda>i. i < 1) sched \<Longrightarrow> fold f sched s = (f 0 ^^ length sched) s" for sched :: "nat list"
  by (induction sched arbitrary: s) (simp_all add: funpow_swap1)

end
