(* ===== verification/Barrier.thy ===== *)
theory Barrier
  imports Interleaving
begin

text \<open>
  The sense-reversing barrier of \<^verbatim>\<open>c/kernel/minimal_step9.c\<close> (\<open>barrier_wait\<close>) run by several
  CPUs at once.  \<open>barrier_step\<close> is one atomic access of one CPU to the shared variables
  \<open>barrier_count\<close> and \<open>barrier_sense\<close>, in the order of the code; \<open>barrier_run\<close> interleaves the
  steps of the CPUs in any order, each calling \<open>barrier_wait\<close> again and again, as the tests
  of the kernel do.
  The sequentially consistent atomics of the source are single steps; the two plain accesses
  (the read of \<open>barrier_sense\<close> and the reset of \<open>barrier_count\<close>) are steps of their own, which
  on x86 are atomic and ordered before the atomic operation that follows them.
\<close>

section \<open>One CPU\<close>

text \<open>Where a CPU is in \<open>barrier_wait\<close>; the argument is the local \<open>my_sense\<close>.\<close>

datatype barrier_pc =
    Outside
  | SenseRead u32
  | Spinning u32
  | LastArrived u32
  | CountReset u32

text \<open>\<open>arrivals\<close> and \<open>passed\<close> count, per CPU, the barriers arrived at and left.\<close>

record barrier =
  barrier_count :: u32
  barrier_sense :: u32
  bpc :: "nat \<Rightarrow> barrier_pc"
  arrivals :: "nat \<Rightarrow> nat"
  passed :: "nat \<Rightarrow> nat"

definition leave_barrier :: "nat \<Rightarrow> 'a barrier_scheme \<Rightarrow> 'a barrier_scheme" where
  "leave_barrier i s = s\<lparr>bpc := (bpc s)(i := Outside), passed := (passed s)(i := passed s i + 1)\<rparr>"

definition barrier_step :: "u32 \<Rightarrow> nat \<Rightarrow> 'a barrier_scheme \<Rightarrow> 'a barrier_scheme" where
  "barrier_step cpu_count i s =
     (case bpc s i of
        Outside \<Rightarrow> s\<lparr>bpc := (bpc s)(i := SenseRead (barrier_sense s))\<rparr>
      | SenseRead my_sense \<Rightarrow>
          (let arrived = barrier_count s + 1;
               s = s\<lparr>barrier_count := arrived, arrivals := (arrivals s)(i := arrivals s i + 1)\<rparr>
           in if arrived = cpu_count then s\<lparr>bpc := (bpc s)(i := LastArrived my_sense)\<rparr>
              else s\<lparr>bpc := (bpc s)(i := Spinning my_sense)\<rparr>)
      | LastArrived my_sense \<Rightarrow> s\<lparr>barrier_count := 0, bpc := (bpc s)(i := CountReset my_sense)\<rparr>
      | CountReset my_sense \<Rightarrow>
          leave_barrier i (s\<lparr>barrier_sense := (if my_sense = 0 then 1 else 0)\<rparr>)
      | Spinning my_sense \<Rightarrow> if barrier_sense s = my_sense then s else leave_barrier i s)"

section \<open>Several CPUs\<close>

definition barrier_init :: barrier where
  "barrier_init = \<lparr>barrier_count = 0, barrier_sense = 0, bpc = (\<lambda>i. Outside),
     arrivals = (\<lambda>i. 0), passed = (\<lambda>i. 0)\<rparr>"

inductive barrier_run :: "u32 \<Rightarrow> nat \<Rightarrow> barrier \<Rightarrow> bool" for cpu_count :: u32 and cpus :: nat where
  start: "barrier_run cpu_count cpus barrier_init"
| step: "barrier_run cpu_count cpus s \<Longrightarrow> i < cpus \<Longrightarrow> barrier_run cpu_count cpus (barrier_step cpu_count i s)"

text \<open>The CPUs that are counted in \<open>barrier_count\<close>.\<close>

definition counted :: "nat \<Rightarrow> 'a barrier_scheme \<Rightarrow> nat set" where
  "counted n s = {i. i < n \<and> (bpc s i = Spinning (barrier_sense s) \<or> bpc s i = LastArrived (barrier_sense s))}"

definition other_sense :: "u32 \<Rightarrow> u32" where
  "other_sense m = (if m = 0 then 1 else 0)"

text \<open>What holds of CPU \<open>i\<close> when \<open>g\<close> barriers have been opened.\<close>

definition cpu_ok :: "nat \<Rightarrow> nat \<Rightarrow> 'a barrier_scheme \<Rightarrow> bool" where
  "cpu_ok g i s =
     (case bpc s i of
        Outside \<Rightarrow> passed s i = g \<and> arrivals s i = g
      | SenseRead m \<Rightarrow> m = barrier_sense s \<and> passed s i = g \<and> arrivals s i = g
      | Spinning m \<Rightarrow>
          (if m = barrier_sense s then passed s i = g \<and> arrivals s i = g + 1
           else passed s i + 1 = g \<and> arrivals s i = g)
      | LastArrived m \<Rightarrow> m = barrier_sense s \<and> passed s i = g \<and> arrivals s i = g + 1
      | CountReset m \<Rightarrow> m = barrier_sense s \<and> passed s i = g \<and> arrivals s i = g + 1)"

text \<open>The invariant for \<open>n\<close> CPUs: either the last CPU has reset the count and everybody else spins
  on the current sense, or the count is the number of counted CPUs and reaches \<open>n\<close> exactly when
  one of them is the last.\<close>

definition barrier_inv :: "nat \<Rightarrow> nat \<Rightarrow> 'a barrier_scheme \<Rightarrow> bool" where
  "barrier_inv n g s \<longleftrightarrow> (\<forall>i<n. cpu_ok g i s) \<and> barrier_sense s = (if even g then 0 else 1) \<and>
     ((\<exists>i<n. bpc s i = CountReset (barrier_sense s) \<and> barrier_count s = 0 \<and>
         (\<forall>j<n. j \<noteq> i \<longrightarrow> bpc s j = Spinning (barrier_sense s)))
      \<or> (\<exists>i<n. bpc s i = LastArrived (barrier_sense s) \<and>
         (\<forall>j<n. j \<noteq> i \<longrightarrow> bpc s j = Spinning (barrier_sense s)))
      \<or> ((\<forall>i<n. \<forall>m. bpc s i \<noteq> CountReset m \<and> bpc s i \<noteq> LastArrived m)
         \<and> unat (barrier_count s) = card (counted n s) \<and> card (counted n s) < n))"

lemma barrier_inv_init: "0 < n \<Longrightarrow> barrier_inv n 0 barrier_init"
  by (simp add: barrier_inv_def barrier_init_def cpu_ok_def counted_def)

section \<open>The invariant is kept\<close>

lemma step_other [simp]:
  "j \<noteq> i \<Longrightarrow> bpc (barrier_step c i s) j = bpc s j"
  "j \<noteq> i \<Longrightarrow> arrivals (barrier_step c i s) j = arrivals s j"
  "j \<noteq> i \<Longrightarrow> passed (barrier_step c i s) j = passed s j"
  by (auto simp: barrier_step_def leave_barrier_def Let_def split: barrier_pc.splits)

lemma counted_lt: "counted n s \<subseteq> {..<n}" "finite (counted n s)"
  by (auto simp: counted_def)

lemma cpu_ok_cong:
  assumes "cpu_ok g j s" "bpc t j = bpc s j" "arrivals t j = arrivals s j" "passed t j = passed s j"
    and "barrier_sense t = barrier_sense s"
  shows "cpu_ok g j t"
  using assms(1) unfolding cpu_ok_def assms(2-5) .

text \<open>The three situations of the invariant.\<close>

definition resetting :: "nat \<Rightarrow> nat \<Rightarrow> 'a barrier_scheme \<Rightarrow> bool" where
  "resetting n i s \<longleftrightarrow> i < n \<and> bpc s i = CountReset (barrier_sense s) \<and> barrier_count s = 0
     \<and> (\<forall>j<n. j \<noteq> i \<longrightarrow> bpc s j = Spinning (barrier_sense s))"

definition completed :: "nat \<Rightarrow> nat \<Rightarrow> 'a barrier_scheme \<Rightarrow> bool" where
  "completed n i s \<longleftrightarrow> i < n \<and> bpc s i = LastArrived (barrier_sense s)
     \<and> (\<forall>j<n. j \<noteq> i \<longrightarrow> bpc s j = Spinning (barrier_sense s))"

definition counting :: "nat \<Rightarrow> 'a barrier_scheme \<Rightarrow> bool" where
  "counting n s \<longleftrightarrow> (\<forall>i<n. \<forall>m. bpc s i \<noteq> CountReset m \<and> bpc s i \<noteq> LastArrived m)
     \<and> unat (barrier_count s) = card (counted n s) \<and> card (counted n s) < n"

lemma barrier_inv_iff:
  "barrier_inv n g s \<longleftrightarrow> (\<forall>i<n. cpu_ok g i s) \<and> barrier_sense s = (if even g then 0 else 1)
     \<and> ((\<exists>i. resetting n i s) \<or> (\<exists>i. completed n i s) \<or> counting n s)"
  unfolding barrier_inv_def resetting_def completed_def counting_def by blast

lemma barrier_invI:
  assumes "\<And>j. j < n \<Longrightarrow> cpu_ok g j s" "barrier_sense s = (if even g then 0 else 1)"
    and "resetting n i s \<or> completed n i s \<or> counting n s"
  shows "barrier_inv n g s"
  using assms unfolding barrier_inv_iff by blast

lemma barrier_invD:
  assumes "barrier_inv n g s"
  shows "j < n \<Longrightarrow> cpu_ok g j s" "barrier_sense s = (if even g then 0 else 1)"
    "(\<exists>i. resetting n i s) \<or> (\<exists>i. completed n i s) \<or> counting n s"
  using assms unfolding barrier_inv_iff by blast+

lemma resetting_pc: "resetting n i s \<Longrightarrow> j < n \<Longrightarrow>
    bpc s j = (if j = i then CountReset (barrier_sense s) else Spinning (barrier_sense s))"
  by (simp add: resetting_def)

lemma completed_pc: "completed n i s \<Longrightarrow> j < n \<Longrightarrow>
    bpc s j = (if j = i then LastArrived (barrier_sense s) else Spinning (barrier_sense s))"
  by (simp add: completed_def)

text \<open>While some CPU is at a place that is not counted, nobody is last.\<close>

lemma inv_counting:
  assumes "barrier_inv n g s" "i < n"
    and "bpc s i = Outside \<or> bpc s i = SenseRead m \<or> (bpc s i = Spinning m \<and> m \<noteq> barrier_sense s)"
  shows "counting n s"
proof -
  have "\<not> resetting n j s" "\<not> completed n j s" for j
    using resetting_pc [of n j s i] completed_pc [of n j s i] assms(2,3) by (auto split: if_splits)
  then show ?thesis
    using barrier_invD(3) [OF assms(1)] by blast
qed

lemma inv_outside:
  assumes inv: "barrier_inv n g s" and i: "i < n" and pc: "bpc s i = Outside"
  shows "barrier_inv n g (barrier_step c i s)"
proof -
  let ?t = "s\<lparr>bpc := (bpc s)(i := SenseRead (barrier_sense s))\<rparr>"
  have t: "barrier_step c i s = ?t"
    by (simp add: barrier_step_def pc)
  have counting: "counting n s"
    using inv_counting [OF inv i] pc by simp
  have "counted n ?t = counted n s"
    using pc by (auto simp: counted_def)
  with counting have "counting n ?t"
    by (simp add: counting_def)
  moreover have "cpu_ok g j ?t" if "j < n" for j
  proof (cases "j = i")
    case True
    have "cpu_ok g i s" by (rule barrier_invD(1) [OF inv i])
    then show ?thesis by (simp add: cpu_ok_def pc True)
  next
    case False
    then show ?thesis by (intro cpu_ok_cong [OF barrier_invD(1) [OF inv that]]) simp_all
  qed
  ultimately show ?thesis
    unfolding t using barrier_invD(2) [OF inv] by (intro barrier_invI) simp_all
qed

lemma inv_leave:
  assumes inv: "barrier_inv n g s" and i: "i < n" and pc: "bpc s i = Spinning m" "m \<noteq> barrier_sense s"
  shows "barrier_inv n g (leave_barrier i s)"
proof -
  let ?t = "leave_barrier i s"
  have counting: "counting n s"
    using inv_counting [OF inv i] pc by simp
  have "counted n ?t = counted n s"
    using pc by (auto simp: counted_def leave_barrier_def)
  with counting have "counting n ?t"
    by (simp add: counting_def leave_barrier_def)
  moreover have "cpu_ok g j ?t" if "j < n" for j
  proof (cases "j = i")
    case True
    have "cpu_ok g i s" by (rule barrier_invD(1) [OF inv i])
    then show ?thesis by (simp add: cpu_ok_def pc True leave_barrier_def)
  next
    case False
    then show ?thesis
      by (intro cpu_ok_cong [OF barrier_invD(1) [OF inv that]]) (simp_all add: leave_barrier_def)
  qed
  ultimately show ?thesis
    using barrier_invD(2) [OF inv] by (intro barrier_invI) (simp_all add: leave_barrier_def)
qed

lemma inv_arrive:
  assumes inv: "barrier_inv n g s" and i: "i < n" and pc: "bpc s i = SenseRead m" and n: "n < 2 ^ 32"
  shows "barrier_inv n g (barrier_step (of_nat n) i s)"
proof -
  have oki: "cpu_ok g i s"
    by (rule barrier_invD(1) [OF inv i])
  then have m: "m = barrier_sense s"
    by (simp add: cpu_ok_def pc)
  have counting: "counting n s"
    using inv_counting [OF inv i] pc by simp
  have notin: "i \<notin> counted n s"
    using pc by (simp add: counted_def)
  have cnt: "unat (barrier_count s + 1) = card (counted n s) + 1"
    using counting n by (subst unat_add_lt) (simp_all add: counting_def)
  have last: "barrier_count s + 1 = of_nat n \<longleftrightarrow> card (counted n s) + 1 = n"
    unfolding word_unat_eq_iff cnt using unat_of_nat_lt [of n, where 'a = 32] n by simp
  define pc' where "pc' = (if card (counted n s) + 1 = n then LastArrived m else Spinning m)"
  let ?t = "s\<lparr>barrier_count := barrier_count s + 1, arrivals := (arrivals s)(i := arrivals s i + 1),
    bpc := (bpc s)(i := pc')\<rparr>"
  have t: "barrier_step (of_nat n) i s = ?t"
    using last by (simp add: barrier_step_def pc Let_def pc'_def)
  have "cpu_ok g j ?t" if "j < n" for j
  proof (cases "j = i")
    case True
    then show ?thesis using oki by (simp add: cpu_ok_def pc pc'_def m)
  next
    case False
    then show ?thesis by (intro cpu_ok_cong [OF barrier_invD(1) [OF inv that]]) simp_all
  qed
  moreover have "completed n i ?t \<or> counting n ?t"
  proof (cases "card (counted n s) + 1 = n")
    case True
    have "card (insert i (counted n s)) = card (counted n s) + 1"
      using notin counted_lt(2) [of n s] by simp
    then have "card (insert i (counted n s)) = card {..<n}"
      using True by simp
    then have all: "insert i (counted n s) = {..<n}"
      using i counted_lt(1) [of n s] by (intro card_subset_eq) auto
    have "bpc s j = Spinning (barrier_sense s)" if "j < n" "j \<noteq> i" for j
    proof -
      have "j \<in> counted n s"
        using all that by auto
      then show ?thesis
        using counting that(1) by (auto simp: counted_def counting_def)
    qed
    then show ?thesis
      using i m True by (simp add: completed_def pc'_def)
  next
    case False
    then have "counted n ?t = insert i (counted n s)"
      using i m by (auto simp: counted_def pc'_def)
    then have card: "card (counted n ?t) = card (counted n s) + 1"
      using notin counted_lt(2) [of n s] by simp
    then show ?thesis
      using counting False cnt by (simp add: counting_def pc'_def)
  qed
  ultimately show ?thesis
    unfolding t using barrier_invD(2) [OF inv] by (intro barrier_invI [of n g _ i]) simp_all
qed

lemma inv_reset:
  assumes inv: "barrier_inv n g s" and i: "i < n" and pc: "bpc s i = LastArrived m"
  shows "barrier_inv n g (barrier_step c i s)"
proof -
  have oki: "cpu_ok g i s"
    by (rule barrier_invD(1) [OF inv i])
  then have m: "m = barrier_sense s"
    by (simp add: cpu_ok_def pc)
  let ?t = "s\<lparr>barrier_count := 0, bpc := (bpc s)(i := CountReset m)\<rparr>"
  have t: "barrier_step c i s = ?t"
    by (simp add: barrier_step_def pc)
  have "\<not> resetting n j s" "\<not> counting n s" for j
    using resetting_pc [of n j s i] i pc by (auto simp: counting_def split: if_splits)
  then obtain j where j: "completed n j s"
    using barrier_invD(3) [OF inv] by blast
  then have "j = i"
    using completed_pc [OF j i] pc by (auto split: if_splits)
  then have "resetting n i ?t"
    using j m by (simp add: resetting_def completed_def)
  moreover have "cpu_ok g j ?t" if "j < n" for j
  proof (cases "j = i")
    case True
    then show ?thesis using oki by (simp add: cpu_ok_def pc m)
  next
    case False
    then show ?thesis by (intro cpu_ok_cong [OF barrier_invD(1) [OF inv that]]) simp_all
  qed
  ultimately show ?thesis
    unfolding t using barrier_invD(2) [OF inv] by (intro barrier_invI [of n g _ i]) simp_all
qed

lemma inv_flip:
  assumes inv: "barrier_inv n g s" and i: "i < n" and pc: "bpc s i = CountReset m"
  shows "barrier_inv n (g + 1) (barrier_step c i s)"
proof -
  have oki: "cpu_ok g i s"
    by (rule barrier_invD(1) [OF inv i])
  then have m: "m = barrier_sense s"
    by (simp add: cpu_ok_def pc)
  let ?t = "barrier_step c i s"
  have t: "?t = leave_barrier i (s\<lparr>barrier_sense := (if m = 0 then 1 else 0)\<rparr>)"
    by (simp add: barrier_step_def pc)
  have "\<not> completed n j s" "\<not> counting n s" for j
    using completed_pc [of n j s i] i pc by (auto simp: counting_def split: if_splits)
  then obtain j where j: "resetting n j s"
    using barrier_invD(3) [OF inv] by blast
  then have "j = i"
    using resetting_pc [OF j i] pc by (auto split: if_splits)
  then have spin: "\<And>j. j < n \<Longrightarrow> j \<noteq> i \<Longrightarrow> bpc s j = Spinning m" and zero: "barrier_count s = 0"
    using j m by (simp_all add: resetting_def)
  have sense: "barrier_sense s = (if even g then 0 else 1)"
    by (rule barrier_invD(2) [OF inv])
  have new: "barrier_sense ?t = (if even (g + 1) then 0 else 1)" "barrier_sense ?t \<noteq> m"
    by (simp_all add: t leave_barrier_def m sense)
  have pcs: "bpc ?t j = (if j = i then Outside else Spinning m)" if "j < n" for j
    using spin that by (simp add: t leave_barrier_def)
  have "cpu_ok (g + 1) j ?t" if "j < n" for j
  proof (cases "j = i")
    case True
    then show ?thesis using oki by (simp add: cpu_ok_def t leave_barrier_def pc)
  next
    case False
    have "cpu_ok g j s" by (rule barrier_invD(1) [OF inv that])
    then have "passed s j = g" "arrivals s j = g + 1"
      using spin [OF that False] m by (simp_all add: cpu_ok_def)
    then show ?thesis
      using False new(2) pcs [OF that] by (simp add: cpu_ok_def)
  qed
  moreover have "counting n ?t"
  proof -
    have "counted n ?t = {}"
      using new(2) pcs by (auto simp: counted_def split: if_splits)
    then show ?thesis
      using zero i pcs by (simp add: counting_def) (simp add: t leave_barrier_def)
  qed
  ultimately show ?thesis
    using new(1) by (intro barrier_invI) simp_all
qed

lemma barrier_inv_step:
  assumes inv: "barrier_inv n g s" and i: "i < n" and n: "n < 2 ^ 32"
  shows "\<exists>g'. barrier_inv n g' (barrier_step (of_nat n) i s)"
proof (cases "bpc s i")
  case Outside
  then show ?thesis using inv_outside [OF inv i] by blast
next
  case (SenseRead m)
  then show ?thesis using inv_arrive [OF inv i _ n] by blast
next
  case (Spinning m)
  show ?thesis
  proof (cases "m = barrier_sense s")
    case True
    then have "barrier_step (of_nat n) i s = s"
      by (simp add: barrier_step_def Spinning)
    then show ?thesis using inv by auto
  next
    case False
    then have "barrier_step (of_nat n) i s = leave_barrier i s"
      by (simp add: barrier_step_def Spinning)
    then show ?thesis using inv_leave [OF inv i Spinning False] by auto
  qed
next
  case (LastArrived m)
  then show ?thesis using inv_reset [OF inv i] by blast
next
  case (CountReset m)
  then show ?thesis using inv_flip [OF inv i] by blast
qed

lemma barrier_run_inv:
  assumes "barrier_run c n s" "c = of_nat n" "0 < n" "n < 2 ^ 32"
  shows "\<exists>g. barrier_inv n g s"
  using assms
proof (induction rule: barrier_run.induct)
  case start
  then show ?case using barrier_inv_init by blast
next
  case (step s i)
  then show ?case using barrier_inv_step by blast
qed

lemma cpu_ok_bounds:
  assumes "cpu_ok g i s"
  shows "passed s i \<le> g" "g \<le> passed s i + 1" "g \<le> arrivals s i" "arrivals s i \<le> g + 1"
  using assms by (auto simp: cpu_ok_def split: barrier_pc.splits if_splits)

text \<open>C14: The barrier synchronises: when \<open>cpu_count\<close> CPUs run, in every reachable state of every
  interleaving no CPU has left its \<open>k\<close>-th barrier before every CPU has arrived at its \<open>k\<close>-th, and
  no CPU is more than one barrier ahead of another.\<close>

theorem barrier_synchronises:
  assumes "barrier_run (of_nat n) n s" and "0 < n" and "n < 2 ^ 32" and "i < n" and "j < n"
  shows "passed s i \<le> arrivals s j \<and> passed s i \<le> passed s j + 1 \<and> arrivals s i \<le> passed s i + 1"
proof -
  obtain g where g: "barrier_inv n g s"
    using barrier_run_inv [OF assms(1) refl assms(2,3)] ..
  have i: "cpu_ok g i s" and j: "cpu_ok g j s"
    using g assms(4,5) by (simp_all add: barrier_inv_def)
  have "arrivals s i \<le> passed s i + 1"
    using i by (auto simp: cpu_ok_def split: barrier_pc.splits if_splits)
  then show ?thesis
    using cpu_ok_bounds [OF i] cpu_ok_bounds [OF j] by linarith
qed

section \<open>Progress\<close>

text \<open>A CPU can do something else than spin.\<close>

lemma step_changes:
  "bpc s i \<noteq> Spinning (barrier_sense s) \<Longrightarrow> bpc (barrier_step c i s) i \<noteq> bpc s i"
  by (auto simp: barrier_step_def leave_barrier_def Let_def split: barrier_pc.splits)

lemma not_all_spinning:
  assumes inv: "barrier_inv n g s" and n: "0 < n"
  shows "\<exists>i<n. bpc s i \<noteq> Spinning (barrier_sense s)"
proof (rule ccontr)
  assume "\<not> ?thesis"
  then have all: "\<And>i. i < n \<Longrightarrow> bpc s i = Spinning (barrier_sense s)"
    by blast
  have "\<not> resetting n i s" "\<not> completed n i s" for i
    using all by (auto simp: resetting_def completed_def)
  then have "counting n s"
    using barrier_invD(3) [OF inv] by blast
  moreover have "counted n s = {..<n}"
    using all by (auto simp: counted_def)
  ultimately show False
    by (simp add: counting_def)
qed

text \<open>The work done: every step that is not spinning increases it.\<close>

fun pc_rank :: "barrier_pc \<Rightarrow> nat" where
  "pc_rank Outside = 0"
| "pc_rank (SenseRead m) = 1"
| "pc_rank (Spinning m) = 2"
| "pc_rank (LastArrived m) = 2"
| "pc_rank (CountReset m) = 3"

definition progress :: "'a barrier_scheme \<Rightarrow> nat \<Rightarrow> nat" where
  "progress s i = 4 * passed s i + pc_rank (bpc s i)"

lemma progress_step:
  "bpc s i \<noteq> Spinning (barrier_sense s) \<Longrightarrow> progress s i < progress (barrier_step c i s) i"
  by (auto simp: progress_def barrier_step_def leave_barrier_def Let_def split: barrier_pc.splits)

lemma progress_other [simp]: "j \<noteq> i \<Longrightarrow> progress (barrier_step c i s) j = progress s j"
  by (simp add: progress_def)

text \<open>While some CPU has passed fewer than \<open>r\<close> barriers, one of those can go on.\<close>

lemma runnable:
  assumes inv: "barrier_inv n g s" and n: "0 < n" and i: "i < n" "passed s i < r"
  shows "\<exists>j<n. passed s j < r \<and> bpc s j \<noteq> Spinning (barrier_sense s)"
proof (cases "g < r")
  case True
  obtain j where j: "j < n" "bpc s j \<noteq> Spinning (barrier_sense s)"
    using not_all_spinning [OF inv n] by blast
  then have "passed s j \<le> g"
    using cpu_ok_bounds(1) [OF barrier_invD(1) [OF inv]] by blast
  then show ?thesis
    using j True by force
next
  case False
  have "cpu_ok g i s"
    using barrier_invD(1) [OF inv i(1)] .
  then have "bpc s i \<noteq> Spinning (barrier_sense s)"
    using False i(2) by (auto simp: cpu_ok_def)
  then show ?thesis
    using i by blast
qed

lemma barrier_leads_on:
  assumes "barrier_run (of_nat n) n s" "0 < n" "n < 2 ^ 32" "\<not> (\<forall>i<n. r \<le> passed s i)"
  shows "\<exists>j<n. progress s j < 4 * r + 3 \<and> progress s j < progress (barrier_step (of_nat n) j s) j"
proof -
  obtain g where "barrier_inv n g s"
    using barrier_run_inv [OF assms(1) refl assms(2,3)] ..
  moreover obtain i where "i < n" "passed s i < r"
    using assms(4) by force
  ultimately obtain j where j: "j < n" "passed s j < r" "bpc s j \<noteq> Spinning (barrier_sense s)"
    using runnable assms(2) by blast
  have "progress s j < 4 * r + 3"
    using j(2) by (cases "bpc s j") (simp_all add: progress_def)
  then show ?thesis
    using j(1) progress_step [OF j(3)] by blast
qed

interpretation bar: interleaving "barrier_run c n" "barrier_step c" n for c n
  by unfold_locales (rule barrier_run.step)

interpretation passing: ranked "barrier_run (of_nat n) n" "barrier_step (of_nat n)" n "\<lambda>s. 0 < n \<and> n < 2 ^ 32"
  "\<lambda>s. \<forall>i<n. r \<le> passed s i" progress "4 * r + 3" for n r
  by unfold_locales (use barrier_leads_on progress_other in blast)

text \<open>C15: The barrier does not deadlock: from every reachable state of \<open>cpu_count\<close> CPUs some schedule
  lets every CPU pass any number \<open>r\<close> of barriers, and in every reachable state some CPU is not
  spinning.\<close>

theorem barrier_no_deadlock:
  assumes "barrier_run (of_nat n) n s" and "0 < n" and "n < 2 ^ 32"
  shows "(\<exists>i<n. bpc s i \<noteq> Spinning (barrier_sense s))
    \<and> (\<exists>sched. list_all (\<lambda>i. i < n) sched \<and> barrier_run (of_nat n) n (fold (barrier_step (of_nat n)) sched s)
         \<and> (\<forall>i<n. r \<le> passed (fold (barrier_step (of_nat n)) sched s) i))"
proof
  obtain g where g: "barrier_inv n g s"
    using barrier_run_inv [OF assms(1) refl assms(2,3)] ..
  show "\<exists>i<n. bpc s i \<noteq> Spinning (barrier_sense s)"
    by (rule not_all_spinning [OF g assms(2)])
  show "\<exists>sched. list_all (\<lambda>i. i < n) sched \<and> barrier_run (of_nat n) n (fold (barrier_step (of_nat n)) sched s)
         \<and> (\<forall>i<n. r \<le> passed (fold (barrier_step (of_nat n)) sched s) i)"
    using passing.schedule_exists [OF assms(1), of r] assms(2,3) by blast
qed

section \<open>A CPU that never arrives\<close>

definition missing_inv :: "nat \<Rightarrow> 'a barrier_scheme \<Rightarrow> bool" where
  "missing_inv p s \<longleftrightarrow> barrier_sense s = 0
     \<and> (\<forall>i<p. passed s i = 0 \<and> (bpc s i = Outside \<or> bpc s i = SenseRead 0 \<or> bpc s i = Spinning 0))
     \<and> unat (barrier_count s) = card {i. i < p \<and> bpc s i = Spinning 0}"

lemma missing_inv_room:
  assumes inv: "missing_inv p s" and i: "i < p" and p: "p < 2 ^ 32"
    and room: "unat c = 0 \<or> card (insert i {j. j < p \<and> bpc s j = Spinning 0}) < unat c"
  shows "missing_inv p (barrier_step c i s)"
proof -
  let ?A = "{i. i < p \<and> bpc s i = Spinning 0}"
  have sense: "barrier_sense s = 0" and cnt: "unat (barrier_count s) = card ?A"
    using inv by (simp_all add: missing_inv_def)
  consider "bpc s i = Outside" | "bpc s i = SenseRead 0" | "bpc s i = Spinning 0"
    using inv i by (auto simp: missing_inv_def)
  then show ?thesis
  proof cases
    case 1
    have "{j. j < p \<and> ((bpc s)(i := SenseRead 0)) j = Spinning 0} = ?A"
      using 1 by auto
    then show ?thesis
      using inv 1 by (simp add: missing_inv_def barrier_step_def)
  next
    case 2
    have notin: "i \<notin> ?A" and fin: "finite ?A"
      using 2 by simp_all
    then have "card (insert i ?A) = card ?A + 1"
      by simp
    moreover have "card (insert i ?A) \<le> card {..<p}"
      using i by (intro card_mono) auto
    ultimately have le: "card ?A + 1 \<le> p"
      by simp
    then have cnt': "unat (barrier_count s + 1) = card ?A + 1"
      using cnt p by (subst unat_add_lt) simp_all
    then have "barrier_count s + 1 \<noteq> c"
      using room \<open>card (insert i ?A) = card ?A + 1\<close> by auto
    then have t: "barrier_step c i s = s\<lparr>barrier_count := barrier_count s + 1,
        arrivals := (arrivals s)(i := arrivals s i + 1), bpc := (bpc s)(i := Spinning 0)\<rparr>"
      by (simp add: barrier_step_def 2 Let_def)
    have "{j. j < p \<and> ((bpc s)(i := Spinning 0)) j = Spinning 0} = insert i ?A"
      using i by auto
    then show ?thesis
      using inv cnt' \<open>card (insert i ?A) = card ?A + 1\<close> by (simp add: missing_inv_def t)
  next
    case 3
    then have "barrier_step c i s = s"
      by (simp add: barrier_step_def sense)
    then show ?thesis using inv by simp
  qed
qed

lemma missing_inv_step:
  assumes "missing_inv p s" "i < p" "unat c = 0 \<or> p < unat c" "p < 2 ^ 32"
  shows "missing_inv p (barrier_step c i s)"
proof (rule missing_inv_room [OF assms(1,2,4)])
  have "card (insert i {j. j < p \<and> bpc s j = Spinning 0}) \<le> card {..<p}"
    using assms(2) by (intro card_mono) auto
  then show "unat c = 0 \<or> card (insert i {j. j < p \<and> bpc s j = Spinning 0}) < unat c"
    using assms(3) by auto
qed

text \<open>C16: When fewer CPUs run than \<open>cpu_count\<close> says, or \<open>cpu_count\<close> is 0, no CPU ever leaves its
  first barrier, whatever the interleaving: a CPU that does not come online hangs the kernel.\<close>

theorem barrier_missing_cpu_hangs:
  assumes "barrier_run c p s" and "unat c = 0 \<or> p < unat c" and "p < 2 ^ 32" and "i < p"
  shows "passed s i = 0"
proof -
  have "missing_inv p s"
    using assms(1)
  proof (induction rule: barrier_run.induct)
    case start
    then show ?case by (simp add: missing_inv_def barrier_init_def)
  next
    case (step s i)
    then show ?case using missing_inv_step assms(2,3) by blast
  qed
  then show ?thesis
    using assms(4) by (simp add: missing_inv_def)
qed

section \<open>Concrete runs\<close>

text \<open>Two CPUs meet: CPU 0 spins until CPU 1, the last, has flipped the sense.\<close>

definition two_meet :: barrier where
  "two_meet = fold (barrier_step 2) [0, 0, 0, 1, 1, 0, 1, 1, 0] barrier_init"

lemma two_meet_run: "barrier_run (of_nat 2) 2 two_meet"
  using bar.run_schedule [OF barrier_run.start, of 2 "[0, 0, 0, 1, 1, 0, 1, 1, 0]" 2]
  by (simp add: two_meet_def)

theorem barrier_synchronises_witness:
  "passed two_meet 0 = 1 \<and> passed two_meet 0 \<le> arrivals two_meet 1"
proof -
  have "passed two_meet 0 = 1"
    by code_simp
  then show ?thesis
    using barrier_synchronises [OF two_meet_run, of 0 1] by simp
qed

theorem barrier_no_deadlock_witness:
  "\<exists>sched. \<forall>i<2. 5 \<le> passed (fold (barrier_step (of_nat 2)) sched two_meet) i"
  using barrier_no_deadlock [OF two_meet_run, of 5] by auto

theorem barrier_missing_cpu_hangs_witness:
  "passed (fold (barrier_step 4) [0, 1, 2, 0, 1, 2, 0, 1, 2] barrier_init) 1 = 0"
  using barrier_missing_cpu_hangs [OF bar.run_schedule [OF barrier_run.start, of 3 "[0, 1, 2, 0, 1, 2, 0, 1, 2]" 4], of 1]
  by simp

end
