(* ===== verification/Parallel.thy ===== *)
theory Parallel
  imports Barrier Machine
begin

text \<open>
  The parallel tests of \<^verbatim>\<open>c/kernel/minimal_step9.c\<close>, run by every processor: the three test
  functions, and the sequence of tests and barriers that \<open>kernel_main\<close> (processor 0) and
  \<open>ap_entry\<close> (the others) share.

  A test touches only its own slot of each array and adds to \<open>total_sum\<close> with one atomic
  operation, so it is one step of its processor; the barrier keeps the steps of theory
  \<^verbatim>\<open>Barrier\<close>.  \<open>tests_run\<close> interleaves the processors in any order.
\<close>

section \<open>The tests\<close>

record par = barrier +
  per_cpu_counters :: "u64 list"
  partial_sums :: "u64 list"
  total_sum :: u64
  tpc :: "nat \<Rightarrow> nat"

definition SUM_TARGET :: u64 where "SUM_TARGET = 10000000"

definition count_up :: "nat \<Rightarrow> 'a par_scheme \<Rightarrow> 'a par_scheme" where
  "count_up cpu_id s = s\<lparr>per_cpu_counters := (per_cpu_counters s)[cpu_id := per_cpu_counters s ! cpu_id + 1]\<rparr>"

definition test_parallel_counters :: "nat \<Rightarrow> 'a par_scheme \<Rightarrow> 'a par_scheme" where
  "test_parallel_counters cpu_id s = for_up (0 :: u64) 1000000 (\<lambda>i. count_up cpu_id) s"

definition test_distributed_sum :: "u32 \<Rightarrow> nat \<Rightarrow> 'a par_scheme \<Rightarrow> fault + 'a par_scheme" where
  "test_distributed_sum cpu_count cpu_id s =
     (if cpu_count = 0 then Inl DivideError
      else
        let per_cpu_work = SUM_TARGET div scast cpu_count;
            start = of_nat cpu_id * per_cpu_work + 1;
            end_i = (of_nat cpu_id + 1) * per_cpu_work;
            end_i = (if of_nat cpu_id = cpu_count - 1 then SUM_TARGET else end_i);
            local_sum = for_up start (end_i + 1) (\<lambda>i sm. sm + i) 0;
            s = s\<lparr>partial_sums := (partial_sums s)[cpu_id := local_sum]\<rparr>
        in Inr (s\<lparr>total_sum := total_sum s + local_sum\<rparr>))"

text \<open>The two phases of \<open>test_barrier_sync\<close>; the barrier between them is a step of the sequence.\<close>

definition barrier_sync_phase_1 :: "nat \<Rightarrow> 'a par_scheme \<Rightarrow> 'a par_scheme" where
  "barrier_sync_phase_1 cpu_id s = for_up (0 :: u64) 500000 (\<lambda>i. count_up cpu_id) s"

definition barrier_sync_phase_2 :: "nat \<Rightarrow> 'a par_scheme \<Rightarrow> 'a par_scheme" where
  "barrier_sync_phase_2 cpu_id s = for_up (500000 :: u64) 1000000 (\<lambda>i. count_up cpu_id) s"

definition reset_counter :: "nat \<Rightarrow> 'a par_scheme \<Rightarrow> 'a par_scheme" where
  "reset_counter my_id s = s\<lparr>per_cpu_counters := (per_cpu_counters s)[my_id := 0]\<rparr>"

section \<open>The sequence of every processor\<close>

datatype test_action = ParallelCounters | DistributedSum | ResetCounter | SyncPhase1 | SyncPhase2 | BarrierWait

definition test_sequence :: "test_action list" where
  "test_sequence = [ParallelCounters, BarrierWait, DistributedSum, BarrierWait, ResetCounter, BarrierWait,
     SyncPhase1, BarrierWait, SyncPhase2]"

fun test_action_step :: "test_action \<Rightarrow> u32 \<Rightarrow> nat \<Rightarrow> 'a par_scheme \<Rightarrow> fault + 'a par_scheme" where
  "test_action_step ParallelCounters c i s = Inr (test_parallel_counters i s)"
| "test_action_step DistributedSum c i s = test_distributed_sum c i s"
| "test_action_step ResetCounter c i s = Inr (reset_counter i s)"
| "test_action_step SyncPhase1 c i s = Inr (barrier_sync_phase_1 i s)"
| "test_action_step SyncPhase2 c i s = Inr (barrier_sync_phase_2 i s)"
| "test_action_step BarrierWait c i s = Inr s"

definition next_test :: "nat \<Rightarrow> 'a par_scheme \<Rightarrow> 'a par_scheme" where
  "next_test i s = s\<lparr>tpc := (tpc s)(i := tpc s i + 1)\<rparr>"

definition tests_step :: "u32 \<Rightarrow> nat \<Rightarrow> 'a par_scheme \<Rightarrow> 'a par_scheme" where
  "tests_step cpu_count i s =
     (if tpc s i < length test_sequence then
        if test_sequence ! tpc s i = BarrierWait then
          let t = barrier_step cpu_count i s in if passed t i = passed s i then t else next_test i t
        else case test_action_step (test_sequence ! tpc s i) cpu_count i s of Inl f \<Rightarrow> s | Inr t \<Rightarrow> next_test i t
      else s)"

definition tests_init :: par where
  "tests_init = barrier.extend barrier_init (par.fields (replicate 16 0) (replicate 16 0) 0 (\<lambda>i. 0))"

inductive tests_run :: "u32 \<Rightarrow> nat \<Rightarrow> par \<Rightarrow> bool" for cpu_count :: u32 and cpus :: nat where
  tests_start: "tests_run cpu_count cpus tests_init"
| tests_next: "tests_run cpu_count cpus s \<Longrightarrow> i < cpus \<Longrightarrow> tests_run cpu_count cpus (tests_step cpu_count i s)"

section \<open>One test\<close>

lemma count_up_n:
  "cpu < length (per_cpu_counters s) \<Longrightarrow> (count_up cpu ^^ n) s
     = s\<lparr>per_cpu_counters := (per_cpu_counters s)[cpu := per_cpu_counters s ! cpu + of_nat n]\<rparr>"
  by (induction n) (simp_all add: count_up_def ac_simps)

lemma fold_const: "fold (\<lambda>_. f) xs s = (f ^^ length xs) s"
  by (induction xs arbitrary: s) (simp_all add: funpow_swap1)

lemma count_loop:
  assumes "cpu < length (per_cpu_counters s)"
  shows "for_up (i :: u64) hi (\<lambda>_. count_up cpu) s
    = s\<lparr>per_cpu_counters := (per_cpu_counters s)[cpu := per_cpu_counters s ! cpu + of_nat (unat hi - unat i)]\<rparr>"
  by (simp add: for_up_fold fold_const count_up_n [OF assms])

text \<open>The share of processor \<open>i\<close> of \<open>n\<close>.\<close>

definition bound :: "nat \<Rightarrow> nat \<Rightarrow> nat" where
  "bound n i = (if i = n then 10000000 else i * (10000000 div n))"

definition share :: "nat \<Rightarrow> nat \<Rightarrow> u64" where
  "share n i = of_nat (\<Sum>x\<in>{Suc (bound n i)..<Suc (bound n (Suc i))}. x)"

lemma bound_le: "i \<le> n \<Longrightarrow> bound n i \<le> 10000000"
proof -
  assume "i \<le> n"
  then have "i * (10000000 div n) \<le> n * (10000000 div n)"
    by (rule mult_le_mono1)
  also have "\<dots> \<le> 10000000"
    by (metis div_times_less_eq_dividend mult.commute)
  finally show ?thesis
    by (simp add: bound_def)
qed

lemma bound_mono: "i < n \<Longrightarrow> bound n i \<le> bound n (Suc i)"
  using bound_le [of i n] by (simp add: bound_def)

lemma share_upto: "0 < n \<Longrightarrow> m \<le> n \<Longrightarrow> (\<Sum>i<m. share n i) = of_nat (\<Sum>x\<in>{1..<Suc (bound n m)}. x)"
proof (induction m)
  case 0
  then show ?case
    by (simp add: bound_def)
next
  case (Suc m)
  have "(\<Sum>x\<in>{1..<Suc (bound n m)}. x) + (\<Sum>x\<in>{Suc (bound n m)..<Suc (bound n (Suc m))}. x)
      = (\<Sum>x\<in>{1..<Suc (bound n (Suc m))}. x)"
    using bound_mono [of m n] Suc.prems(2) by (intro sum.atLeastLessThan_concat) simp_all
  then show ?case
    using Suc by (simp add: share_def flip: of_nat_add)
qed

lemma share_total:
  assumes "0 < n"
  shows "(\<Sum>i<n. share n i) = 50000005000000"
proof -
  have "(\<Sum>x\<in>{1..<Suc 10000000}. x) = (50000005000000 :: nat)"
    using Sum_Ico_nat [of 1 "Suc 10000000"] by simp
  then show ?thesis
    using share_upto [of n n] assms by (simp add: bound_def)
qed

lemma distributed_sum_eq:
  assumes "i < n" "n \<le> 16"
  shows "test_distributed_sum (of_nat n) i s
    = Inr (s\<lparr>partial_sums := (partial_sums s)[i := share n i], total_sum := total_sum s + share n i\<rparr>)"
proof -
  let ?w = "10000000 div n"
  have c1: "unat (of_nat n :: u32) = n"
    using assms by (intro unat_of_nat_lt) simp
  then have c2: "(of_nat n :: u32) \<noteq> 0"
    using assms(1) by (metis gr_implies_not0 unat_0)
  note c = c1 c2
  have "sint (of_nat n :: u32) = int n"
    unfolding sint32 c(1) using assms(2) by simp
  then have sc: "(scast (of_nat n :: u32) :: u64) = of_nat n"
    by (simp add: scast_eq)
  have wle: "?w \<le> 10000000"
    by (rule div_le_dividend)
  have "?w < 2 ^ LENGTH(64)"
    by (rule order.strict_trans1 [OF wle]) simp
  then have wu: "unat (of_nat ?w :: u64) = ?w"
    by (rule unat_of_nat_lt)
  have w: "SUM_TARGET div of_nat n = (of_nat ?w :: u64)"
    using assms(2) by (simp add: word_unat_eq_iff SUM_TARGET_def unat_div unat_of_nat_lt wu)
  have mult: "unat (of_nat m * of_nat ?w :: u64) = m * ?w" if "m \<le> 16" for m
  proof -
    have "m * ?w \<le> 16 * 10000000"
      using that wle by (rule mult_le_mono)
    then show ?thesis
      using unat_of_nat_lt [of "m * ?w", where 'a = 64] by simp
  qed
  have last: "(of_nat i :: u32) = of_nat n - 1 \<longleftrightarrow> Suc i = n"
  proof -
    have "unat (of_nat n - 1 :: u32) = n - 1"
      using c assms(1) unat_sub_if_size [of "of_nat n :: u32" 1] by (simp add: word_size)
    then show ?thesis
      using assms by (auto simp: word_unat_eq_iff unat_of_nat_lt)
  qed
  have start: "unat (of_nat i * of_nat ?w + 1 :: u64) = Suc (bound n i)"
  proof -
    have "unat (of_nat i * of_nat ?w :: u64) + 1 < 2 ^ 64"
      using mult [of i] assms bound_le [of i n] by (simp add: bound_def)
    then show ?thesis
      using mult [of i] assms unat_add_lt [of "of_nat i * of_nat ?w :: u64" 1] by (simp add: bound_def)
  qed
  have stop: "unat ((if Suc i = n then SUM_TARGET else (of_nat i + 1) * of_nat ?w) + 1 :: u64) = Suc (bound n (Suc i))"
  proof (cases "Suc i = n")
    case True
    then show ?thesis
      by (simp add: bound_def SUM_TARGET_def)
  next
    case False
    have eq: "(of_nat i + 1 :: u64) = of_nat (Suc i)"
      by simp
    have "unat (of_nat (Suc i) * of_nat ?w :: u64) + 1 < 2 ^ 64"
      using mult [of "Suc i"] assms False bound_le [of "Suc i" n] by (simp add: bound_def)
    then show ?thesis
      using mult [of "Suc i"] assms False unat_add_lt [of "of_nat (Suc i) * of_nat ?w :: u64" 1]
      unfolding eq by (simp add: bound_def)
  qed
  show ?thesis
    unfolding test_distributed_sum_def Let_def sc w last sum_loop start stop
    using c(2) by (simp add: share_def)
qed

section \<open>The invariant\<close>

text \<open>The counter of a processor and its share of the sum, by the tests it has done.\<close>

definition counter_at :: "nat \<Rightarrow> u64" where
  "counter_at t = (if t = 0 then 0 else if t \<le> 4 then 1000000 else if t \<le> 6 then 0 else if t \<le> 8 then 500000 else 1000000)"

definition contributed :: "nat \<Rightarrow> par \<Rightarrow> nat \<Rightarrow> u64" where
  "contributed n s i = (if 2 < tpc s i then share n i else 0)"

definition cpu_tests :: "nat \<Rightarrow> nat \<Rightarrow> par \<Rightarrow> bool" where
  "cpu_tests n i s \<longleftrightarrow> tpc s i \<le> 9 \<and> passed s i = tpc s i div 2 \<and> (bpc s i = Outside \<or> tpc s i \<in> {1, 3, 5, 7})
     \<and> per_cpu_counters s ! i = counter_at (tpc s i) \<and> partial_sums s ! i = contributed n s i"

definition tests_inv :: "nat \<Rightarrow> par \<Rightarrow> bool" where
  "tests_inv n s \<longleftrightarrow> length (per_cpu_counters s) = 16 \<and> length (partial_sums s) = 16
     \<and> (\<forall>i<n. cpu_tests n i s) \<and> total_sum s = (\<Sum>i<n. contributed n s i)"

lemma barrier_step_more [simp]: "barrier.more (barrier_step c i s) = barrier.more s"
  by (simp add: barrier_step_def leave_barrier_def Let_def split: barrier_pc.splits)

lemma par_fields [simp]:
  "per_cpu_counters (barrier_step c i s) = per_cpu_counters s" "partial_sums (barrier_step c i s) = partial_sums s"
  "total_sum (barrier_step c i s) = total_sum s" "tpc (barrier_step c i s) = tpc s"
  by (simp_all add: barrier_step_def leave_barrier_def Let_def split: barrier_pc.splits)

lemma barrier_step_passed:
  "passed (barrier_step c i s) i = passed s i
   \<or> passed (barrier_step c i s) i = passed s i + 1 \<and> bpc (barrier_step c i s) i = Outside \<and> bpc s i \<noteq> Outside"
  by (simp add: barrier_step_def leave_barrier_def Let_def split: barrier_pc.splits)

lemma truncate_step: "barrier.truncate (barrier_step c i s) = barrier_step c i (barrier.truncate s)"
  by (simp add: barrier_step_def leave_barrier_def Let_def barrier.defs split: barrier_pc.splits)

lemma sequence_at:
  "test_sequence ! 0 = ParallelCounters" "test_sequence ! 1 = BarrierWait" "test_sequence ! 2 = DistributedSum"
  "test_sequence ! 3 = BarrierWait" "test_sequence ! 4 = ResetCounter" "test_sequence ! 5 = BarrierWait"
  "test_sequence ! 6 = SyncPhase1" "test_sequence ! 7 = BarrierWait" "test_sequence ! 8 = SyncPhase2"
  "length test_sequence = 9"
  by (simp_all add: test_sequence_def)

lemma tpc_cases:
  assumes "t \<le> (9 :: nat)"
  obtains "t = 0" | "t \<in> {1, 3, 5, 7}" | "t = 2" | "t = 4" | "t = 6" | "t = 8" | "t = 9"
  using assms by force

lemma wait_at: "t \<in> {1, 3, 5, 7} \<Longrightarrow> test_sequence ! t = BarrierWait \<and> t < length test_sequence"
  using sequence_at by auto

text \<open>A step of processor \<open>i\<close>: a step of the barrier, or one test.\<close>

lemma tests_step_wait:
  assumes "tpc s i \<in> {1, 3, 5, 7}"
  shows "tests_step c i s = (let t = barrier_step c i s in if passed t i = passed s i then t else next_test i t)"
  using wait_at [OF assms] by (simp add: tests_step_def)

text \<open>The effect of one test on the slots of its processor.\<close>

definition test_result :: "nat \<Rightarrow> nat \<Rightarrow> par \<Rightarrow> par" where
  "test_result n i s = s\<lparr>per_cpu_counters := (per_cpu_counters s)[i := counter_at (tpc s i + 1)],
     partial_sums := (partial_sums s)[i := (if 1 < tpc s i then share n i else 0)],
     total_sum := total_sum s + (if tpc s i = 2 then share n i else 0), tpc := (tpc s)(i := tpc s i + 1)\<rparr>"

lemma tests_step_work:
  assumes inv: "tests_inv n s" and i: "i < n" "n \<le> 16" and t: "tpc s i \<in> {0, 2, 4, 6, 8}"
  shows "tests_step (of_nat n) i s = test_result n i s"
proof -
  have len: "i < length (per_cpu_counters s)" "i < length (partial_sums s)"
    using inv i by (simp_all add: tests_inv_def)
  have c: "per_cpu_counters s ! i = counter_at (tpc s i)" and p: "partial_sums s ! i = contributed n s i"
    using inv i(1) by (simp_all add: tests_inv_def cpu_tests_def)
  have keep: "(partial_sums s)[i := partial_sums s ! i] = partial_sums s" "(per_cpu_counters s)[i := per_cpu_counters s ! i] = per_cpu_counters s"
    by simp_all
  consider "tpc s i = 0" | "tpc s i = 2" | "tpc s i = 4" | "tpc s i = 6" | "tpc s i = 8"
    using t by auto
  then show ?thesis
  proof cases
    case 1
    then have "(partial_sums s)[i := 0] = partial_sums s"
      using keep(1) p by (simp add: contributed_def)
    then show ?thesis
      using 1 c by (simp add: tests_step_def sequence_at test_parallel_counters_def count_loop len next_test_def test_result_def counter_at_def)
  next
    case 2
    then have "(per_cpu_counters s)[i := 1000000] = per_cpu_counters s"
      using keep(2) c by (simp add: counter_at_def)
    then show ?thesis
      using 2 by (simp add: tests_step_def sequence_at distributed_sum_eq [OF i] next_test_def test_result_def counter_at_def)
  next
    case 3
    then have "(partial_sums s)[i := share n i] = partial_sums s"
      using keep(1) p by (simp add: contributed_def)
    then show ?thesis
      using 3 by (simp add: tests_step_def sequence_at reset_counter_def next_test_def test_result_def counter_at_def)
  next
    case 4
    then have "(partial_sums s)[i := share n i] = partial_sums s"
      using keep(1) p by (simp add: contributed_def)
    then show ?thesis
      using 4 c by (simp add: tests_step_def sequence_at barrier_sync_phase_1_def count_loop len next_test_def test_result_def counter_at_def)
  next
    case 5
    then have "(partial_sums s)[i := share n i] = partial_sums s"
      using keep(1) p by (simp add: contributed_def)
    then show ?thesis
      using 5 c by (simp add: tests_step_def sequence_at barrier_sync_phase_2_def count_loop len next_test_def test_result_def counter_at_def)
  qed
qed

lemma counter_at_wait: "t \<in> {1, 3, 5, 7} \<Longrightarrow> counter_at (t + 1) = counter_at t"
  by (auto simp: counter_at_def)

lemma contributed_wait: "t \<in> {1, 3, 5, 7} \<Longrightarrow> 2 < t + 1 \<longleftrightarrow> 2 < t" for t :: nat
  by auto

lemma tests_inv_wait:
  assumes inv: "tests_inv n s" and i: "i < n" and t: "tpc s i \<in> {1, 3, 5, 7}"
  shows "tests_inv n (tests_step c i s)"
proof -
  let ?b = "barrier_step c i s"
  have ci: "cpu_tests n i s" and others: "\<And>j. j < n \<Longrightarrow> cpu_tests n j s"
    using inv i by (simp_all add: tests_inv_def)
  have step: "tests_step c i s = (if passed ?b i = passed s i then ?b else next_test i ?b)"
    using tests_step_wait [OF t] by (simp add: Let_def)
  show ?thesis
  proof (cases "passed ?b i = passed s i")
    case True
    have "cpu_tests n j ?b" if "j < n" for j
      using others [OF that] ci t True by (cases "j = i") (simp_all add: cpu_tests_def contributed_def)
    then show ?thesis
      using inv True by (simp add: step tests_inv_def contributed_def)
  next
    case False
    then have p: "passed ?b i = passed s i + 1" "bpc ?b i = Outside"
      using barrier_step_passed [of c i s] by blast+
    have contrib: "contributed n (next_test i ?b) j = contributed n s j" for j
      using contributed_wait [OF t] by (simp add: contributed_def next_test_def)
    have "cpu_tests n j (next_test i ?b)" if "j < n" for j
    proof (cases "j = i")
      case True
      have "passed s i + 1 = (tpc s i + 1) div 2" "tpc s i + 1 \<le> 9"
        using ci t by (auto simp: cpu_tests_def)
      then show ?thesis
        using True ci p counter_at_wait [OF t] contrib by (simp add: cpu_tests_def) (simp add: next_test_def)
    next
      case False
      then show ?thesis
        using others [OF that] contrib by (simp add: cpu_tests_def) (simp add: next_test_def)
    qed
    then show ?thesis
      using inv False contrib by (simp add: step tests_inv_def) (simp add: next_test_def)
  qed
qed

lemma tests_inv_work:
  assumes inv: "tests_inv n s" and i: "i < n" "n \<le> 16" and t: "tpc s i \<in> {0, 2, 4, 6, 8}"
  shows "tests_inv n (test_result n i s)"
proof -
  let ?t = "test_result n i s"
  have ci: "cpu_tests n i s" and others: "\<And>j. j < n \<Longrightarrow> cpu_tests n j s" and len: "length (per_cpu_counters s) = 16" "length (partial_sums s) = 16"
    using inv i by (simp_all add: tests_inv_def)
  have contrib: "contributed n ?t j = (if j = i then contributed n s i + (if tpc s i = 2 then share n i else 0) else contributed n s j)" for j
    using t by (auto simp: contributed_def test_result_def)
  have part: "(if 1 < tpc s i then share n i else 0) = contributed n ?t i"
    using t by (auto simp: contributed_def test_result_def)
  have "cpu_tests n j ?t" if "j < n" for j
  proof (cases "j = i")
    case True
    have "tpc s i div 2 = (tpc s i + 1) div 2" "bpc s i = Outside" "tpc s i + 1 \<le> 9"
      using ci t by (auto simp: cpu_tests_def)
    then show ?thesis
      using True ci len i part by (simp add: cpu_tests_def) (simp add: test_result_def)
  next
    case False
    then show ?thesis
      using others [OF that] contrib [of j] by (simp add: cpu_tests_def) (simp add: test_result_def)
  qed
  moreover have "total_sum ?t = (\<Sum>j<n. contributed n ?t j)"
  proof -
    have "(\<Sum>j<n. contributed n ?t j) = (\<Sum>j<n. contributed n s j + (if j = i then if tpc s i = 2 then share n i else 0 else 0))"
      by (rule sum.cong) (simp_all add: contrib)
    also have "\<dots> = total_sum s + (if tpc s i = 2 then share n i else 0)"
      using inv i(1) by (simp add: sum.distrib tests_inv_def)
    finally show ?thesis
      by (simp add: test_result_def)
  qed
  ultimately show ?thesis
    using len by (simp add: tests_inv_def) (simp add: test_result_def)
qed

lemma tests_done: "9 \<le> tpc s i \<Longrightarrow> tests_step c i s = s"
  by (simp add: tests_step_def sequence_at)

lemma tests_inv_step:
  assumes inv: "tests_inv n s" and i: "i < n" "n \<le> 16"
  shows "tests_inv n (tests_step (of_nat n) i s)"
proof -
  have "tpc s i \<le> 9"
    using inv i(1) by (simp add: tests_inv_def cpu_tests_def)
  then consider "tpc s i \<in> {1, 3, 5, 7}" | "tpc s i \<in> {0, 2, 4, 6, 8}" | "tpc s i = 9"
    by (rule tpc_cases) auto
  then show ?thesis
    using tests_inv_wait [OF inv i(1)] tests_inv_work [OF inv i] tests_step_work [OF inv i] inv
    by cases (simp_all add: tests_done)
qed

lemma truncate_tests_step:
  assumes inv: "tests_inv n s" and i: "i < n" "n \<le> 16"
  shows "barrier.truncate (tests_step (of_nat n) i s) = barrier.truncate s
    \<or> barrier.truncate (tests_step (of_nat n) i s) = barrier_step (of_nat n) i (barrier.truncate s)"
proof -
  have "tpc s i \<le> 9"
    using inv i(1) by (simp add: tests_inv_def cpu_tests_def)
  then consider "tpc s i \<in> {1, 3, 5, 7}" | "tpc s i \<in> {0, 2, 4, 6, 8}" | "tpc s i = 9"
    by (rule tpc_cases) auto
  then show ?thesis
  proof cases
    case 1
    have "barrier.truncate (next_test i t) = barrier.truncate t" for t :: par
      by (simp add: next_test_def barrier.defs)
    then show ?thesis
      using tests_step_wait [OF 1, of "of_nat n"] by (simp add: Let_def truncate_step)
  next
    case 2
    then show ?thesis
      using tests_step_work [OF inv i] by (simp add: test_result_def barrier.defs)
  next
    case 3
    then show ?thesis by (simp add: tests_done)
  qed
qed

lemma tests_run_inv:
  assumes "tests_run c n s" "c = of_nat n" "n \<le> 16"
  shows "tests_inv n s \<and> barrier_run c n (barrier.truncate s)"
  using assms
proof (induction rule: tests_run.induct)
  case tests_start
  have "cpu_tests n i tests_init" if "i < n" for i
    using that tests_start by (simp add: cpu_tests_def tests_init_def barrier.defs par.defs barrier_init_def counter_at_def contributed_def)
  then have "tests_inv n tests_init"
    by (simp add: tests_inv_def) (simp add: tests_init_def barrier.defs par.defs contributed_def)
  moreover have "barrier.truncate tests_init = barrier_init"
    by (simp add: tests_init_def barrier.defs par.defs)
  ultimately show ?case
    by (simp add: barrier_run.start)
next
  case (tests_next s i)
  then have inv: "tests_inv n s" "barrier_run c n (barrier.truncate s)" by blast+
  have "tests_inv n (tests_step c i s)"
    using tests_inv_step [OF inv(1) tests_next.hyps(2)] tests_next.prems by blast
  moreover have "barrier_run c n (barrier.truncate (tests_step c i s))"
    using truncate_tests_step [OF inv(1) tests_next.hyps(2)] tests_next.prems inv(2) barrier_run.step [OF inv(2) tests_next.hyps(2)]
    by (auto simp: tests_next.prems(1))
  ultimately show ?case ..
qed

section \<open>What the tests compute\<close>

text \<open>A processor past its \<open>r\<close>-th barrier knows that every other one has come to its \<open>r\<close>-th.\<close>

lemma arrived:
  assumes run: "tests_run (of_nat n) n s" and n: "0 < n" "n \<le> 16" and i: "i < n" and j: "j < n"
  shows "2 * (tpc s i div 2) \<le> tpc s j + 1"
proof -
  have inv: "tests_inv n s" and b: "barrier_run (of_nat n) n (barrier.truncate s)"
    using tests_run_inv [OF run refl n(2)] by blast+
  obtain g where g: "barrier_inv n g (barrier.truncate s)"
    using barrier_run_inv [OF b refl n(1)] n(2) by auto
  have same: "bpc (barrier.truncate s) = bpc s" "passed (barrier.truncate s) = passed s"
    by (simp_all add: barrier.defs)
  have "cpu_ok g i (barrier.truncate s)"
    by (rule barrier_invD(1) [OF g i])
  then have le: "tpc s i div 2 \<le> g"
    using cpu_ok_bounds(1) inv i by (fastforce simp: same tests_inv_def cpu_tests_def)
  have cj: "cpu_ok g j (barrier.truncate s)"
    by (rule barrier_invD(1) [OF g j])
  have tj: "cpu_tests n j s"
    using inv j by (simp add: tests_inv_def)
  have "2 * g \<le> tpc s j + 1"
  proof (cases "bpc s j = Outside")
    case True
    then have "tpc s j div 2 = g"
      using cj tj by (simp add: cpu_ok_def same cpu_tests_def)
    then show ?thesis by linarith
  next
    case False
    then have t: "tpc s j \<in> {1, 3, 5, 7}" "passed s j = tpc s j div 2"
      using tj by (simp_all add: cpu_tests_def)
    have "g \<le> passed s j + 1"
      using cpu_ok_bounds(2) [OF cj] by (simp add: same)
    then show ?thesis
      using t by auto
  qed
  then show ?thesis
    using le by linarith
qed

lemma sum_complete:
  assumes "tests_run (of_nat n) n s" and "0 < n" and "n \<le> 16" and "i < n" and "3 < tpc s i"
  shows "total_sum s = 50000005000000 \<and> (\<forall>j<n. partial_sums s ! j = share n j)"
proof -
  have inv: "tests_inv n s"
    using tests_run_inv [OF assms(1) refl assms(3)] by blast
  have "2 \<le> tpc s i div 2"
    using assms(5) by presburger
  then have "2 < tpc s j" if "j < n" for j
    using arrived [OF assms(1-4) that] by linarith
  then have c: "contributed n s j = share n j" if "j < n" for j
    using that by (simp add: contributed_def)
  have "partial_sums s ! j = share n j" if "j < n" for j
    using inv c [OF that] that by (simp add: tests_inv_def cpu_tests_def)
  moreover have "total_sum s = (\<Sum>j<n. share n j)"
    using inv c by (simp add: tests_inv_def)
  ultimately show ?thesis
    using share_total [OF assms(2)] by simp
qed

lemma counters_late:
  assumes "tests_run (of_nat n) n s" and "0 < n" and "n \<le> 16" and "i < n" and "tpc s i = 9" and "j < n"
  shows "per_cpu_counters s ! j = (if tpc s j = 9 then 1000000 else 500000)"
proof -
  have inv: "tests_inv n s"
    using tests_run_inv [OF assms(1) refl assms(3)] by blast
  have "7 \<le> tpc s j" "tpc s j \<le> 9"
    using arrived [OF assms(1-4,6)] assms(5,6) inv by (simp_all add: tests_inv_def cpu_tests_def)
  then have "tpc s j \<in> {7, 8, 9}" by auto
  then show ?thesis
    using inv assms(6) by (auto simp: tests_inv_def cpu_tests_def counter_at_def)
qed

text \<open>C30: In every interleaving, from the moment any processor has passed the second barrier the total is
  the sum of 1 to 10,000,000 and every partial sum is the processor's share, whatever the number of
  processors (1 to 16): what processor 0 prints for test 2 is always right.\<close>

theorem distributed_sum_correct:
  assumes "tests_run (of_nat n) n s" and "0 < n" and "n \<le> 16" and "i < n" and "3 < tpc s i"
  shows "total_sum s = 50000005000000 \<and> (\<forall>j<n. partial_sums s ! j = share n j) \<and> (\<Sum>j<n. share n j) = 50000005000000"
  using sum_complete [OF assms] share_total [OF assms(2)] by blast

text \<open>When every processor has finished, every counter is 1,000,000; and a processor that has
  finished finds the others past the last barrier, their counters at 500,000 or 1,000,000.\<close>

theorem counters_when_finished:
  assumes "tests_run (of_nat n) n s" and "0 < n" and "n \<le> 16" and "i < n" and "tpc s i = 9"
  shows "per_cpu_counters s ! i = 1000000
    \<and> (\<forall>j<n. per_cpu_counters s ! j = (if tpc s j = 9 then 1000000 else 500000))"
  using counters_late [OF assms] assms(4,5) by auto

section \<open>Progress\<close>

lemma runnable_test:
  assumes run: "tests_run (of_nat n) n s" and n: "0 < n" "n \<le> 16" and i: "i < n" "tpc s i < r" and r: "\<forall>j<n. tpc s j \<le> r"
  shows "\<exists>j<n. tpc s j < r \<and> bpc s j \<noteq> Spinning (barrier_sense s)"
proof (rule ccontr)
  assume "\<not> ?thesis"
  then have spin: "bpc s j = Spinning (barrier_sense s)" if "j < n" "tpc s j < r" for j
    using that by blast
  have inv: "tests_inv n s" and b: "barrier_run (of_nat n) n (barrier.truncate s)"
    using tests_run_inv [OF run refl n(2)] by blast+
  obtain g where g: "barrier_inv n g (barrier.truncate s)"
    using barrier_run_inv [OF b refl n(1)] n(2) by auto
  have same: "bpc (barrier.truncate s) = bpc s" "passed (barrier.truncate s) = passed s" "barrier_sense (barrier.truncate s) = barrier_sense s"
    by (simp_all add: barrier.defs)
  obtain j where j: "j < n" "bpc s j \<noteq> Spinning (barrier_sense s)"
    using not_all_spinning [OF g n(1)] by (auto simp: same)
  then have tj: "tpc s j = r"
    using spin r le_neq_implies_less by blast
  have "passed s i = g"
    using barrier_invD(1) [OF g i(1)] spin [OF i] by (simp add: cpu_ok_def same)
  moreover have "tpc s i \<in> {1, 3, 5, 7}" "passed s i = tpc s i div 2" "passed s j = tpc s j div 2"
    using inv i(1) j(1) spin [OF i] by (auto simp: tests_inv_def cpu_tests_def)
  moreover have "passed s j \<le> g"
    using cpu_ok_bounds(1) [OF barrier_invD(1) [OF g j(1)]] by (simp add: same)
  ultimately show False
    using i(2) tj by auto
qed

definition test_progress :: "par \<Rightarrow> nat \<Rightarrow> nat" where
  "test_progress s i = 4 * tpc s i + pc_rank (bpc s i)"

lemma test_progress_step:
  assumes inv: "tests_inv n s" and i: "i < n" "n \<le> 16" and go: "tpc s i < 9" "bpc s i \<noteq> Spinning (barrier_sense s)"
  defines "t \<equiv> tests_step (of_nat n) i s"
  shows "test_progress s i < test_progress t i" "tpc t i \<le> tpc s i + 1" "j \<noteq> i \<Longrightarrow> tpc t j = tpc s j \<and> test_progress t j = test_progress s j"
proof -
  have ci: "cpu_tests n i s"
    using inv i(1) by (simp add: tests_inv_def)
  have "tpc s i \<le> 9"
    using go(1) by simp
  then consider "tpc s i \<in> {1, 3, 5, 7}" | "tpc s i \<in> {0, 2, 4, 6, 8}"
    using go(1) by (rule_tac tpc_cases [of "tpc s i"]) auto
  then have "test_progress s i < test_progress t i \<and> tpc t i \<le> tpc s i + 1 \<and> (j \<noteq> i \<longrightarrow> tpc t j = tpc s j \<and> test_progress t j = test_progress s j)"
  proof cases
    case 1
    let ?b = "barrier_step (of_nat n) i s"
    have t: "t = (if passed ?b i = passed s i then ?b else next_test i ?b)"
      using tests_step_wait [OF 1] by (simp add: t_def Let_def)
    have p: "4 * passed s i + pc_rank (bpc s i) < 4 * passed ?b i + pc_rank (bpc ?b i)"
      using progress_step [OF go(2)] by (simp add: progress_def)
    have "pc_rank (bpc s i) < 4 + pc_rank (bpc ?b i)"
      by (cases "bpc s i") simp_all
    then show ?thesis
      using p by (simp add: t test_progress_def next_test_def)
  next
    case 2
    then have "bpc s i = Outside"
      using ci by (auto simp: cpu_tests_def)
    then show ?thesis
      using tests_step_work [OF inv i 2] by (simp add: t_def test_progress_def test_result_def)
  qed
  then show "test_progress s i < test_progress t i" "tpc t i \<le> tpc s i + 1" "j \<noteq> i \<Longrightarrow> tpc t j = tpc s j \<and> test_progress t j = test_progress s j"
    by blast+
qed

lemma tests_lead_on:
  assumes run: "tests_run (of_nat n) n s" and n: "0 < n" "n \<le> 16" and r: "\<forall>i<n. tpc s i \<le> r" "r \<le> 9"
    and goal: "\<not> (\<forall>i<n. tpc s i = r)"
  shows "\<exists>j<n. (\<forall>i<n. tpc (tests_step (of_nat n) j s) i \<le> r) \<and> test_progress s j < 4 * r + 3
    \<and> test_progress s j < test_progress (tests_step (of_nat n) j s) j
    \<and> (\<forall>i. i \<noteq> j \<longrightarrow> test_progress (tests_step (of_nat n) j s) i = test_progress s i)"
proof -
  obtain i where "i < n" "tpc s i < r"
    using goal r(1) le_neq_implies_less by blast
  then obtain j where j: "j < n" "tpc s j < r" "bpc s j \<noteq> Spinning (barrier_sense s)"
    using runnable_test [OF run n _ _ r(1)] by blast
  have inv: "tests_inv n s"
    using tests_run_inv [OF run refl n(2)] by blast
  have j9: "tpc s j < 9"
    using j(2) r(2) by simp
  note st = test_progress_step [OF inv j(1) n(2) j9 j(3)]
  have "pc_rank (bpc s j) \<le> 3"
    by (cases "bpc s j") simp_all
  then have "test_progress s j < 4 * r + 3"
    using j(2) by (simp add: test_progress_def)
  moreover have "tpc (tests_step (of_nat n) j s) i \<le> r" if "i < n" for i
    using st(2) st(3) [of i] r(1) j(2) that by (cases "i = j") auto
  ultimately show ?thesis
    using j(1) st(1,3) by blast
qed

interpretation tests: ranked "tests_run (of_nat n) n" "tests_step (of_nat n)" n
  "\<lambda>s. 0 < n \<and> n \<le> 16 \<and> (\<forall>i<n. tpc s i \<le> r) \<and> r \<le> 9" "\<lambda>s. \<forall>i<n. tpc s i = r" test_progress "4 * r + 3" for n r
proof
  show "tests_run (of_nat n) n (tests_step (of_nat n) i s)" if "tests_run (of_nat n) n s" "i < n" for i s
    using that by (rule tests_next)
  show "\<exists>j<n. (0 < n \<and> n \<le> 16 \<and> (\<forall>i<n. tpc (tests_step (of_nat n) j s) i \<le> r) \<and> r \<le> 9) \<and> test_progress s j < 4 * r + 3
      \<and> test_progress s j < test_progress (tests_step (of_nat n) j s) j
      \<and> (\<forall>i. i \<noteq> j \<longrightarrow> test_progress (tests_step (of_nat n) j s) i = test_progress s i)"
    if "tests_run (of_nat n) n s" "0 < n \<and> n \<le> 16 \<and> (\<forall>i<n. tpc s i \<le> r) \<and> r \<le> 9" "\<not> (\<forall>i<n. tpc s i = r)" for s
    using tests_lead_on [OF that(1) conjunct1 [OF that(2)] _ _ _ that(3)] that(2) by simp
qed

lemma reach_tests:
  assumes "tests_run (of_nat n) n s" "0 < n" "n \<le> 16" "\<forall>i<n. tpc s i \<le> r" "r \<le> 9"
  shows "\<exists>sched. list_all (\<lambda>i. i < n) sched \<and> tests_run (of_nat n) n (fold (tests_step (of_nat n)) sched s)
    \<and> (\<forall>i<n. tpc (fold (tests_step (of_nat n)) sched s) i = r)"
  by (rule tests.schedule_exists [OF assms(1), of r]) (use assms(2-5) in blast)+


text \<open>C31: From every reachable state some schedule of the processors takes all of them to the end of the
  tests: no interleaving of the tests and the barriers can lead to a deadlock.\<close>

theorem tests_can_finish:
  assumes "tests_run (of_nat n) n s" and "0 < n" and "n \<le> 16"
  shows "\<exists>sched. list_all (\<lambda>i. i < n) sched \<and> (\<forall>i<n. tpc (fold (tests_step (of_nat n)) sched s) i = 9)"
proof -
  have "\<forall>i<n. tpc s i \<le> 9"
    using tests_run_inv [OF assms(1) refl assms(3)] by (simp add: tests_inv_def cpu_tests_def)
  then show ?thesis
    using reach_tests [OF assms, of 9] by blast
qed

lemma tests_reach:
  assumes "0 < n" "n \<le> 16" "r \<le> 9"
  obtains s where "tests_run (of_nat n) n s" "\<forall>i<n. tpc s i = r"
proof -
  have "\<forall>i<n. tpc tests_init i \<le> r"
    by (simp add: tests_init_def barrier.defs par.defs)
  then show thesis
    using reach_tests [OF tests_start assms(1,2) _ assms(3)] that by blast
qed

text \<open>With two processors or more the results of test 3 can be read too early: a schedule lets
  processor 0 finish its second phase, and go on to print the counters, while processor 1 still has
  500,000.  The barrier is before the second phase and none is after it.\<close>

lemma phase_2_results_race:
  assumes "1 < n" and "n \<le> 16"
  shows "\<exists>s. tests_run (of_nat n) n s \<and> tpc s 0 = 9 \<and> per_cpu_counters s ! 1 = 500000"
proof -
  obtain s where s: "tests_run (of_nat n) n s" "\<forall>i<n. tpc s i = 8"
    using tests_reach [of n 8] assms by auto
  have inv: "tests_inv n s"
    using tests_run_inv [OF s(1) refl assms(2)] by blast
  let ?t = "tests_step (of_nat n) 0 s"
  have n0: "0 < n"
    using assms(1) by simp
  have t: "?t = test_result n 0 s"
    using s(2) n0 by (intro tests_step_work [OF inv n0 assms(2)]) simp
  have "tpc ?t 0 = 9" "per_cpu_counters ?t ! 1 = per_cpu_counters s ! 1"
    using s(2) n0 by (simp_all add: t test_result_def)
  moreover have "per_cpu_counters s ! 1 = 500000"
    using inv s(2) assms(1) by (simp add: tests_inv_def cpu_tests_def counter_at_def)
  moreover have "tests_run (of_nat n) n ?t"
    using s(1) n0 by (rule tests_next)
  ultimately show ?thesis by metis
qed

section \<open>The theorems at concrete inputs\<close>

theorem distributed_sum_correct_witness:
  "\<exists>s. tests_run (of_nat 3) 3 s \<and> total_sum s = 50000005000000 \<and> (\<forall>j<3. partial_sums s ! j = share 3 j)"
proof -
  obtain s where s: "tests_run (of_nat 3) 3 s" "\<forall>i<3. tpc s i = 4"
    using tests_reach [of 3 4] by auto
  then show ?thesis
    using distributed_sum_correct [of 3 s 0] by auto
qed

theorem counters_when_finished_witness:
  "\<exists>s. tests_run (of_nat 3) 3 s \<and> per_cpu_counters s ! 0 = 1000000"
proof -
  obtain s where s: "tests_run (of_nat 3) 3 s" "\<forall>i<3. tpc s i = 9"
    using tests_reach [of 3 9] by auto
  then show ?thesis
    using counters_when_finished [of 3 s 0] by auto
qed

theorem tests_can_finish_witness:
  "\<exists>sched. list_all (\<lambda>i. i < 4) sched \<and> (\<forall>i<4. tpc (fold (tests_step (of_nat 4)) sched tests_init) i = 9)"
  using tests_can_finish [OF tests_start [of "of_nat 4" 4]] by simp

end
