(* ===== verification/Boot_Memory.thy ===== *)
theory Boot_Memory
  imports Vmm
begin

text \<open>
  The first phase of \<open>kernel_main\<close> (\<^verbatim>\<open>c/kernel/minimal_step9.c\<close>): console, memory map,
  page allocator, page tables and heap, in that order, on one memory.  The theorem at the end joins the
  components: it says what the boot loader has to provide, and that the state afterwards satisfies what
  the later operations of the page allocator, the page tables and the heap ask for.
\<close>

section \<open>The phase\<close>

definition rule_line :: msg where
  "rule_line = Ln ''===========================================''"

text \<open>Console, memory map, page allocator, page tables, heap.\<close>

definition kernel_init_memory :: "layout \<Rightarrow> pt_shifts \<Rightarrow> u64 \<Rightarrow> 'a vmm_scheme \<Rightarrow> fault + 'a vmm_scheme" where
  "kernel_init_memory ld sh multiboot_addr k =
     (let k = k\<lparr>con := serial_init (con k)\<rparr>;
          k = k\<lparr>con := (con k)\<lparr>screen := vga_init (screen (con k))\<rparr>\<rparr>;
          k = kprint [Ln '''', rule_line, Ln ''  Step 9: Memory Management + VGA'', rule_line, Ln ''''] k;
          k = kprint [S ''[INFO] Multiboot2 info at: '', X multiboot_addr, Ln ''''] k
      in case parse_multiboot_mmap multiboot_addr k of Inl f \<Rightarrow> Inl f | Inr k \<Rightarrow>
      let k = pmm_init ld multiboot_addr k
      in case pmm_mark_free_regions ld multiboot_addr k of Inl f \<Rightarrow> Inl f | Inr k \<Rightarrow>
      let k = vmm_init sh k;
          k = heap_init k
      in Inr (test_heap_allocator k))"

lemma kprint_kprint: "kprint b (kprint a k) = kprint (a @ b) k"
  by (simp add: kprint_def)

section \<open>Reading the boot information again\<close>

text \<open>The tags up to the memory map lie outside the \<open>len\<close> bytes at \<open>b\<close>.\<close>

definition tags_clear :: "memory \<Rightarrow> u64 \<Rightarrow> nat \<Rightarrow> u64 \<Rightarrow> nat \<Rightarrow> bool" where
  "tags_clear m start n b len \<longleftrightarrow> (\<forall>j\<le>n. disjoint_ranges ((next_tag m ^^ j) start) 8 b len)"

lemma tag_agree:
  assumes "\<And>x. \<not> in_range b len x \<Longrightarrow> m' x = m x" "disjoint_ranges t 8 b len"
  shows "tag_type m' t = tag_type m t" "next_tag m' t = next_tag m t"
proof -
  have "m' (t + of_nat i) = m (t + of_nat i)" if "i < 8" for i
    using assms that by (simp add: disjoint_ranges_def)
  from this [of "_ + 0"] this [of "4 + _"]
  have "load_le 4 m' t = (load_le 4 m t :: u32)" "load_le 4 m' (t + 4) = (load_le 4 m (t + 4) :: u32)"
    by (auto intro!: load_le_cong simp: add.assoc)
  then show "tag_type m' t = tag_type m t" "next_tag m' t = next_tag m t"
    by (simp_all add: tag_type_def next_tag_def tag_size_def load32_def)
qed

lemma tags_agree:
  assumes same: "\<And>x. \<not> in_range b len x \<Longrightarrow> m' x = m x" and clear: "tags_clear m start n b len"
  shows "j \<le> n \<Longrightarrow> (next_tag m' ^^ j) start = (next_tag m ^^ j) start"
    "stops_at m' start n = stops_at m start n"
proof -
  show walk: "j \<le> n \<Longrightarrow> (next_tag m' ^^ j) start = (next_tag m ^^ j) start" for j
  proof (induction j)
    case (Suc j)
    then show ?case
      using tag_agree(2) [of b len m' m "(next_tag m ^^ j) start"] same clear by (simp add: tags_clear_def)
  qed simp
  have "tag_type m' ((next_tag m' ^^ j) start) = tag_type m ((next_tag m ^^ j) start)" if "j \<le> n" for j
    using walk [OF that] tag_agree(1) [of b len m' m "(next_tag m ^^ j) start"] same clear that by (simp add: tags_clear_def)
  then show "stops_at m' start n = stops_at m start n"
    by (auto simp: stops_at_iff tag_ends_def)
qed

lemma map_agree:
  assumes same: "\<And>x. \<not> in_range b len x \<Longrightarrow> m' x = m x" and tag: "disjoint_ranges tag 16 b len"
  shows "mmap_entry_size m' tag = mmap_entry_size m tag" "num_mmap_entries m' tag = num_mmap_entries m tag"
    "mmap_entry_at m' tag i = mmap_entry_at m tag i"
proof -
  have "m' (tag + of_nat i) = m (tag + of_nat i)" if "i < 16" for i
    using assms that by (simp add: disjoint_ranges_def)
  from this [of "8 + _"] this [of "4 + _"]
  have "load_le 4 m' (tag + 8) = (load_le 4 m (tag + 8) :: u32)" "load_le 4 m' (tag + 4) = (load_le 4 m (tag + 4) :: u32)"
    by (auto intro!: load_le_cong simp: add.assoc)
  then show "mmap_entry_size m' tag = mmap_entry_size m tag" "num_mmap_entries m' tag = num_mmap_entries m tag"
    "mmap_entry_at m' tag i = mmap_entry_at m tag i"
    by (simp_all add: mmap_entry_size_def num_mmap_entries_def mmap_entry_at_def tag_size_def load32_def)
qed

lemma entry_agree:
  assumes same: "\<And>x. \<not> in_range b len x \<Longrightarrow> m' x = m x" and "disjoint_ranges e 24 b len"
  shows "read_mmap_entry m' e = read_mmap_entry m e"
proof -
  have "m' (e + of_nat i) = m (e + of_nat i)" if "i < 24" for i
    using assms that by (simp add: disjoint_ranges_def)
  from this [of "0 + _"] this [of "8 + _"] this [of "16 + _"]
  have "load_le 8 m' e = (load_le 8 m e :: u64)" "load_le 8 m' (e + 8) = (load_le 8 m (e + 8) :: u64)"
    "load_le 4 m' (e + 16) = (load_le 4 m (e + 16) :: u32)"
    by (auto intro!: load_le_cong simp: add.assoc)
  then show ?thesis
    by (simp add: read_mmap_entry_def load64_def load32_def)
qed

section \<open>What the boot loader provides\<close>

text \<open>The memory that \<open>pmm_init\<close> will manage, the bytes of its bitmap, and the pages that the memory
  map frees.\<close>

definition managed :: "u64 \<Rightarrow> 'a mmap_info_scheme \<Rightarrow> u64" where
  "managed tag k = min (fold max (low_ends (mmap_entries (mem k) tag)) (total_memory k)) 0x4000000"

definition bitmap_bytes :: "u64 \<Rightarrow> 'a mmap_info_scheme \<Rightarrow> nat" where
  "bitmap_bytes tag k = unat ((managed tag k div PAGE_SIZE + 7) div 8)"

definition freed_by_map :: "u64 \<Rightarrow> 'a mmap_info_scheme \<Rightarrow> u64 set" where
  "freed_by_map tag k = (\<Union>i\<in>{i. i < num_mmap_entries (mem k) tag}.
     entry_pages (managed tag k) (read_mmap_entry (mem k) (mmap_entry_at (mem k) tag i)))"

text \<open>A memory map within the first hundred tags, with entries of a size, out of the way of the bitmap;
  kernel and boot information in the lower quarter of the address space; the PML4 in the kernel image;
  and the bitmap within the managed memory.\<close>

definition boot_ok :: "layout \<Rightarrow> u64 \<Rightarrow> nat \<Rightarrow> 'a cpu_scheme \<Rightarrow> bool" where
  "boot_ok ld info n k \<longleftrightarrow>
     (let m = mem k; tag = (next_tag m ^^ n) (info + 8); b = bitmap_address ld info m; len = bitmap_bytes tag k;
          p = frame_of (cr3 k)
      in stops_at m (info + 8) n \<and> n < 100 \<and> tag_type m tag = MULTIBOOT_TAG_TYPE_MMAP \<and> mmap_entry_size m tag \<noteq> 0
       \<and> tags_clear m (info + 8) n b len \<and> disjoint_ranges tag 16 b len
       \<and> (\<forall>i<unat (num_mmap_entries m tag). disjoint_ranges (mmap_entry_at m tag (of_nat i)) 24 b len)
       \<and> unat (kernel_end ld) < 2 ^ 62 \<and> unat info < 2 ^ 62
       \<and> kernel_start ld \<le> p \<and> unat p + 4096 \<le> unat b
       \<and> unat b + len \<le> unat (managed tag k div PAGE_SIZE) * 4096)"

section \<open>The page allocator after boot\<close>

lemma parsed_map:
  fixes k :: "'a cpu_scheme"
  assumes ok: "boot_ok ld info n k"
  defines "tag \<equiv> (next_tag (mem k) ^^ n) (info + 8)"
  shows "\<exists>k1. parse_multiboot_mmap info k = Inr k1 \<and> mem k1 = mem k \<and> mmap_info.more k1 = mmap_info.more k
    \<and> total_memory k1 = fold max (low_ends (mmap_entries (mem k) tag)) (total_memory k)"
proof -
  note ok = ok [unfolded boot_ok_def Let_def, folded tag_def]
  have "find_mmap_tag (mem k) (info + 8) = Some (Some tag)"
    using find_mmap_tag_stops [of "mem k" "info + 8" n] ok by (simp add: tag_def)
  then show ?thesis
    using parse_mmap_effect [of k info tag] ok by blast
qed

text \<open>Only the memory and the size found matter for the rest.\<close>

lemma pages_from:
  fixes k :: "'a cpu_scheme"
  assumes ok: "boot_ok ld info n k"
  defines "tag \<equiv> (next_tag (mem k) ^^ n) (info + 8)" and "b \<equiv> bitmap_address ld info (mem k)"
  assumes k1: "mem k1 = mem k" "total_memory k1 = fold max (low_ends (mmap_entries (mem k) tag)) (total_memory k)"
  shows "\<exists>k2. pmm_mark_free_regions ld info (pmm_init ld info k1) = Inr k2
    \<and> pmm_ok k2 \<and> used_set k2 = {p. p < total_pages k2} - freed_by_map tag k \<union> kernel_pages ld k2
    \<and> total_pages k2 = managed tag k div PAGE_SIZE \<and> pmm_bitmap k2 = b \<and> unat (bitmap_size k2) = bitmap_bytes tag k
    \<and> pmm.more k2 = pmm.more k1 \<and> (\<forall>x. \<not> in_range b (bitmap_bytes tag k) x \<longrightarrow> mem k2 x = mem k x)"
proof -
  note ok = ok [unfolded boot_ok_def Let_def, folded tag_def b_def]
  have m1: "min (total_memory k1) 0x4000000 = managed tag k"
    by (simp add: managed_def k1(2))
  let ?i = "pmm_init ld info k1" and ?len = "bitmap_bytes tag k"
  have i: "total_memory ?i = managed tag k" "total_pages ?i = managed tag k div PAGE_SIZE"
    "unat (bitmap_size ?i) = ?len" "pmm_bitmap ?i = b" "mem ?i = memset b 0xFF ?len (mem k)"
    "pmm.more ?i = pmm.more k1"
    by (simp_all add: pmm_init_sel m1 k1(1) bitmap_bytes_def b_def)
  have same: "mem ?i x = mem k x" if "\<not> in_range b ?len x" for x
    using that by (simp add: i(5) memset_byte)
  have clear: "tags_clear (mem k) (info + 8) n b ?len" and dtag: "disjoint_ranges tag 16 b ?len"
    using ok by blast+
  have tag: "tag = (next_tag (mem ?i) ^^ n) (info + 8)" "stops_at (mem ?i) (info + 8) n"
    using tags_agree [of b ?len "mem ?i" "mem k" "info + 8" n] same clear ok by (simp_all add: tag_def)
  have "disjoint_ranges tag 8 b ?len"
    using clear by (simp add: tags_clear_def tag_def)
  then have ty: "tag_type (mem ?i) tag = MULTIBOOT_TAG_TYPE_MMAP"
    using tag_agree(1) [of b ?len "mem ?i" "mem k" tag] same ok by simp
  have mp: "mmap_entry_size (mem ?i) tag = mmap_entry_size (mem k) tag" "num_mmap_entries (mem ?i) tag = num_mmap_entries (mem k) tag"
    "mmap_entry_at (mem ?i) tag j = mmap_entry_at (mem k) tag j" for j
    using map_agree [of b ?len "mem ?i" "mem k" tag] same dtag by blast+
  have out: "map_outside tag ?i"
    using ok by (simp add: map_outside_def i(3,4) mp)
  have rd: "read_mmap_entry (mem ?i) (mmap_entry_at (mem k) tag j) = read_mmap_entry (mem k) (mmap_entry_at (mem k) tag j)"
    if "j < num_mmap_entries (mem k) tag" for j
  proof -
    have "disjoint_ranges (mmap_entry_at (mem k) tag (of_nat (unat j))) 24 b ?len"
      using ok unat_mono [OF that] by blast
    then show ?thesis
      using entry_agree [of b ?len "mem ?i" "mem k" "mmap_entry_at (mem k) tag j"] same by simp
  qed
  have freed: "(\<Union>j\<in>{j. j < num_mmap_entries (mem ?i) tag}.
      entry_pages (total_memory ?i) (read_mmap_entry (mem ?i) (mmap_entry_at (mem ?i) tag j))) = freed_by_map tag k"
    unfolding freed_by_map_def mp i(1) using rd by auto
  have tot: "total_pages ?i = total_memory ?i div PAGE_SIZE"
    by (simp add: i(1,2))
  have n100: "n < 100" and nz: "mmap_entry_size (mem ?i) tag \<noteq> 0"
    using ok by (simp_all add: mp)
  obtain k3 where k3: "free_tags 100 (info + 8) (kprint [Ln ''[PMM] Marking free regions...''] ?i) = Inr k3" "pmm_ok k3"
    "used_set k3 = {p. p < total_pages ?i} - freed_by_map tag k" "total_pages k3 = total_pages ?i"
    "kernel_pages ld k3 = kernel_pages ld ?i" "pmm_bitmap k3 = pmm_bitmap ?i" "bitmap_size k3 = bitmap_size ?i" "pmm.more k3 = pmm.more ?i"
    "\<forall>x. \<not> in_range (pmm_bitmap ?i) (unat (bitmap_size ?i)) x \<longrightarrow> mem k3 x = mem ?i x"
    using free_tags_entries [OF pmm_init_used(2,1) tot tag(2) n100 tag(1) ty nz out, of ld] unfolding freed by blast
  obtain k2 where k2: "pmm_mark_free_regions ld info ?i = Inr k2" "pmm_ok k2"
    "used_set k2 = used_set k3 \<union> kernel_pages ld k3" "total_pages k2 = total_pages k3" "pmm_bitmap k2 = pmm_bitmap k3"
    "bitmap_size k2 = bitmap_size k3" "pmm.more k2 = pmm.more k3"
    "\<forall>x. \<not> in_range (pmm_bitmap k3) (unat (bitmap_size k3)) x \<longrightarrow> mem k2 x = mem k3 x"
    using mark_free_regions_of_tags [OF k3(2,1)] by blast
  have "kernel_pages ld k2 = kernel_pages ld k3"
    by (simp add: kernel_pages_def k2)
  then show ?thesis
    using k2 k3 i(2-4,6) same by (intro exI [of _ k2]) simp
qed

lemma init_pages:
  fixes k :: "'a cpu_scheme"
  assumes ok: "boot_ok ld info n k"
  defines "tag \<equiv> (next_tag (mem k) ^^ n) (info + 8)" and "b \<equiv> bitmap_address ld info (mem k)"
  shows "\<exists>k1 k2. parse_multiboot_mmap info k = Inr k1 \<and> pmm_mark_free_regions ld info (pmm_init ld info k1) = Inr k2
    \<and> pmm_ok k2 \<and> used_set k2 = {p. p < total_pages k2} - freed_by_map tag k \<union> kernel_pages ld k2
    \<and> total_pages k2 = managed tag k div PAGE_SIZE \<and> pmm_bitmap k2 = b \<and> unat (bitmap_size k2) = bitmap_bytes tag k
    \<and> pmm.more k2 = pmm.more k \<and> (\<forall>x. \<not> in_range b (bitmap_bytes tag k) x \<longrightarrow> mem k2 x = mem k x)"
proof -
  obtain k1 where k1: "parse_multiboot_mmap info k = Inr k1" "mem k1 = mem k" "mmap_info.more k1 = mmap_info.more k"
    "total_memory k1 = fold max (low_ends (mmap_entries (mem k) tag)) (total_memory k)"
    using parsed_map [OF ok] unfolding tag_def by blast
  have "pmm.more k1 = pmm.more k"
    using k1(3) by (cases k, cases k1) simp
  then show ?thesis
    using pages_from [OF ok k1(2) k1(4) [unfolded tag_def]] k1(1) unfolding tag_def b_def by simp
qed


section \<open>Frames\<close>

lemma frame_unat: "unat x < 2 ^ 52 \<Longrightarrow> unat (frame_of x) = unat x div 4096 * 4096"
proof -
  assume x: "unat x < 2 ^ 52"
  have "frame_of x = x AND NOT (mask 12)"
  proof (rule bit_word_eqI)
    fix n
    assume "n < LENGTH(64)"
    then show "bit (frame_of x) n = bit (x AND NOT (mask 12)) n"
      using bit_lt_pow2 [OF x, of n] by (auto simp: frame_bits bit_simps)
  qed
  then show ?thesis
    using unat_and_not_mask [of x 12] by simp
qed

lemma kernel_frame_used:
  fixes k :: "'a cpu_scheme"
  assumes "kernel_pages ld k \<subseteq> used_set k" and "kernel_start ld \<le> x" and "unat x < unat (pmm_bitmap k) + unat (bitmap_size k)"
    and "unat (pmm_bitmap k) + unat (bitmap_size k) < 2 ^ 51" and "unat x < unat (total_pages k) * 4096"
  shows "frame_of x \<in> used_frames k"
proof -
  let ?b = "pmm_bitmap k" and ?s = "bitmap_size k"
  have bs: "unat (?b + ?s) = unat ?b + unat ?s"
    using assms(4) by (subst unat_add_lt) simp_all
  have "unat (?b + ?s + PAGE_SIZE - 1) = unat ?b + unat ?s + 4095"
  proof -
    have eq: "?b + ?s + PAGE_SIZE - 1 = ?b + ?s + 4095"
      by simp
    show ?thesis
      unfolding eq using assms(4) bs by (subst unat_add_lt) simp_all
  qed
  then have up: "unat ((?b + ?s + PAGE_SIZE - 1) div PAGE_SIZE) = (unat ?b + unat ?s + 4095) div 4096"
    by (simp add: unat_div)
  have q: "unat (x div PAGE_SIZE) = unat x div 4096" "unat (kernel_start ld div PAGE_SIZE) = unat (kernel_start ld) div 4096"
    by (simp_all add: unat_div)
  have "unat (kernel_start ld) div 4096 \<le> unat x div 4096"
    using assms(2) by (simp add: word_le_nat_alt div_le_mono)
  moreover have "unat x div 4096 < (unat ?b + unat ?s + 4095) div 4096"
    using assms(3) by linarith
  moreover have "unat x div 4096 < unat (total_pages k)"
    using assms(5) by (simp add: less_mult_imp_div_less)
  ultimately have "x div PAGE_SIZE \<in> kernel_pages ld k"
    unfolding kernel_pages_def mem_Collect_eq word_le_nat_alt word_less_nat_alt q up by blast
  then have u: "x div PAGE_SIZE \<in> used_set k"
    using assms(1) by blast
  have "unat (x div PAGE_SIZE * PAGE_SIZE) = unat x div 4096 * 4096"
    using unat_mult_lt [of "x div PAGE_SIZE" PAGE_SIZE] q(1) assms(3,4) by simp
  then have "x div PAGE_SIZE * PAGE_SIZE = frame_of x"
    using frame_unat [of x] assms(3,4) by (simp add: word_unat_eq_iff)
  then show ?thesis
    using u by (auto simp: used_frames_def intro!: rev_image_eqI)
qed

text \<open>The allocator's facts depend on its variables and the bitmap's bytes only.\<close>

lemma pages_cong:
  fixes k t :: "'a cpu_scheme"
  assumes "total_pages t = total_pages k" "pmm_bitmap t = pmm_bitmap k" "bitmap_size t = bitmap_size k" "used_pages t = used_pages k"
    and same: "\<And>x. in_range (pmm_bitmap k) (unat (bitmap_size k)) x \<Longrightarrow> mem t x = mem k x" and ok: "pmm_ok k"
  shows "used_set t = used_set k" "used_frames t = used_frames k" "pages_ok t = pages_ok k" "table_frame t f = table_frame k f"
    "kernel_pages ld t = kernel_pages ld k" "pmm_ok t"
proof -
  have "pmm_is_page_used p t = pmm_is_page_used p k" if "p < total_pages k" for p
    using same [OF byte_in_bitmap [OF ok that]] by (simp add: is_used_bit assms(2))
  then show u: "used_set t = used_set k"
    by (auto simp: used_set_def assms(1))
  then show f: "used_frames t = used_frames k"
    by (simp add: used_frames_def)
  show ok_t: "pmm_ok t"
    using ok u by (simp add: pmm_ok_def assms(1-4))
  show "pages_ok t = pages_ok k" "table_frame t f = table_frame k f" "kernel_pages ld t = kernel_pages ld k"
    using ok ok_t f by (simp_all add: pages_ok_def table_frame_def kernel_pages_def assms(1-4))
qed


section \<open>The state after the phase\<close>

lemma after_pages:
  fixes k :: "'a cpu_scheme"
  assumes ok: "boot_ok ld info n k"
  defines "tag \<equiv> (next_tag (mem k) ^^ n) (info + 8)" and "b \<equiv> bitmap_address ld info (mem k)" and "p \<equiv> frame_of (cr3 k)"
  assumes k2: "pmm_ok k2" "kernel_pages ld k2 \<subseteq> used_set k2" "total_pages k2 = managed tag k div PAGE_SIZE" "pmm_bitmap k2 = b"
    "unat (bitmap_size k2) = bitmap_bytes tag k"
  shows "pages_ok k2" "table_frame k2 p" "0 < unat b" "unat b + bitmap_bytes tag k \<le> 0x4000000" "unat p + 4096 \<le> unat b"
proof -
  have h: "kernel_start ld \<le> p" "unat p + 4096 \<le> unat b" "unat b + bitmap_bytes tag k \<le> unat (total_pages k2) * 4096"
    using ok by (simp_all add: boot_ok_def Let_def tag_def b_def p_def k2(3))
  have "unat (managed tag k) \<le> 0x4000000"
    by (simp add: managed_def min_def word_le_nat_alt)
  then have t: "unat (total_pages k2) \<le> 16384"
    by (simp add: k2(3) unat_div)
  show lim: "unat b + bitmap_bytes tag k \<le> 0x4000000" "0 < unat b" "unat p + 4096 \<le> unat b"
    using h t by simp_all
  have in_b: "unat b \<le> unat x \<and> unat x < unat b + bitmap_bytes tag k" if "in_range b (bitmap_bytes tag k) x" for x
  proof -
    have "unat x = unat b + unat (x - b)"
      using that lim unat_add_lt [of b "x - b"] by (simp add: in_range_def)
    then show ?thesis
      using that by (simp add: in_range_def)
  qed
  have fr: "frame_of x \<in> used_frames k2" if "kernel_start ld \<le> x" "unat x < unat b + bitmap_bytes tag k" for x
    using kernel_frame_used [OF k2(2) that(1)] that(2) lim h(3) by (simp add: k2(4,5))
  have "frame_of x \<in> used_frames k2" if "in_range b (bitmap_bytes tag k) x" for x
    using fr [of x] in_b [OF that] h(1,2) by (simp add: word_le_nat_alt)
  then show "pages_ok k2"
    using k2(1) t by (simp add: pages_ok_def k2(4,5))
  have "frame_of x \<noteq> p" if "in_range b (bitmap_bytes tag k) x" for x
  proof -
    have "unat (frame_of x) = unat x div 4096 * 4096" "unat (frame_of p) = unat p div 4096 * 4096"
      using in_b [OF that] lim by (simp_all add: frame_unat)
    moreover have "unat p div 4096 < unat x div 4096"
      using in_b [OF that] lim(3) by linarith
    ultimately have "frame_of x \<noteq> frame_of p" by auto
    then show ?thesis
      by (simp add: p_def)
  qed
  moreover have "frame_of p = p"
    by (simp add: p_def)
  moreover have "frame_of p \<in> used_frames k2"
    using fr [OF h(1)] h(2) by simp
  ultimately show "table_frame k2 p"
    by (simp add: table_frame_def k2(4,5))
qed

lemma vmm_init_eqs:
  "mem (vmm_init sh k) = store64 (frame_of (cr3 k) + 8 * 511) (frame_of (cr3 k) OR PT_PRESENT OR PT_WRITE) (mem k)"
  "cr3 (vmm_init sh k) = cr3 k" "cpu_log (vmm_init sh k) = cpu_log k @ [WriteCr3 (cr3 k)]"
  "total_pages (vmm_init sh k) = total_pages k" "pmm_bitmap (vmm_init sh k) = pmm_bitmap k"
  "bitmap_size (vmm_init sh k) = bitmap_size k" "used_pages (vmm_init sh k) = used_pages k"
  by (simp_all add: vmm_init_def Let_def frame_of_def kprint_def cpu_do_def)

lemma heap_init_eqs:
  "cpu.more (heap_init k) = cpu.more k" "cr3 (heap_init k) = cr3 k" "cpu_log (heap_init k) = cpu_log k"
  "total_pages (heap_init k) = total_pages k" "pmm_bitmap (heap_init k) = pmm_bitmap k"
  "bitmap_size (heap_init k) = bitmap_size k" "used_pages (heap_init k) = used_pages k" "mem (heap_init k) = mem k"
  by (simp_all add: heap_init_def Let_def kprint_def)

lemma test_heap_eqs:
  fixes k :: "'a cpu_scheme"
  shows "cr3 (test_heap_allocator k) = cr3 k" "cpu_log (test_heap_allocator k) = cpu_log k"
  "total_pages (test_heap_allocator k) = total_pages k" "pmm_bitmap (test_heap_allocator k) = pmm_bitmap k"
  "bitmap_size (test_heap_allocator k) = bitmap_size k" "used_pages (test_heap_allocator k) = used_pages k"
  "heap_start (test_heap_allocator k) = heap_start k" "heap_end (test_heap_allocator k) = heap_end k"
  by ((subst only_heap_test_heap [of k, unfolded only_heap_def]), simp)+


text \<open>The console part of the phase touches nothing that the boot loader provides.\<close>

lemma boot_ok_cong:
  assumes "mem t = mem k" "total_memory t = total_memory k" "cr3 t = cr3 k"
  shows "boot_ok ld info n t = boot_ok ld info n k" "managed tag t = managed tag k" "bitmap_bytes tag t = bitmap_bytes tag k"
    "freed_by_map tag t = freed_by_map tag k"
  using assms by (simp_all add: boot_ok_def managed_def bitmap_bytes_def freed_by_map_def)

definition console_up :: "u64 \<Rightarrow> 'a vmm_scheme \<Rightarrow> 'a vmm_scheme" where
  "console_up info k = kprint [S ''[INFO] Multiboot2 info at: '', X info, Ln '''']
     (kprint [Ln '''', rule_line, Ln ''  Step 9: Memory Management + VGA'', rule_line, Ln '''']
       (k\<lparr>con := (serial_init (con k))\<lparr>screen := vga_init (screen (serial_init (con k)))\<rparr>\<rparr>))"

lemma kernel_init_memory_eq:
  "kernel_init_memory ld sh info k = (case parse_multiboot_mmap info (console_up info k) of Inl f \<Rightarrow> Inl f | Inr k1 \<Rightarrow>
     case pmm_mark_free_regions ld info (pmm_init ld info k1) of Inl f \<Rightarrow> Inl f | Inr k2 \<Rightarrow>
     Inr (test_heap_allocator (heap_init (vmm_init sh k2))))"
  by (simp add: kernel_init_memory_def console_up_def Let_def cong: sum.case_cong)

lemma console_up_sel: "mem (console_up info k) = mem k" "total_memory (console_up info k) = total_memory k"
  "cr3 (console_up info k) = cr3 k" "pmm.more (console_up info k) = pmm.more k" "cpu_log (console_up info k) = cpu_log k"
  by (simp_all add: console_up_def kprint_def)

lemma test_heap_more: "vmm.more (test_heap_allocator k) = vmm.more k"
  by (subst only_heap_test_heap [of k, unfolded only_heap_def]) simp

lemma heap_init_more: "vmm.more (heap_init k) = vmm.more k"
  by (simp add: heap_init_def Let_def kprint_def)

lemma vmm_init_more: "vmm.more (vmm_init sh k) = vmm.more k"
  by (simp add: vmm_init_def Let_def kprint_def cpu_do_def)

lemma boot_memory_effect:
  fixes k :: "'a vmm_scheme"
  assumes ok: "boot_ok ld info n k"
  defines "tag \<equiv> (next_tag (mem k) ^^ n) (info + 8)" and "b \<equiv> bitmap_address ld info (mem k)" and "p \<equiv> frame_of (cr3 k)"
  shows "\<exists>k'. kernel_init_memory ld sh info k = Inr k' \<and> pages_ok k' \<and> table_frame k' p \<and> recursive (cr3 k') (mem k')
    \<and> cr3 k' = cr3 k \<and> vmm.more k' = vmm.more k \<and> cpu_log k' = cpu_log k @ [WriteCr3 (cr3 k)]
    \<and> total_pages k' = managed tag k div PAGE_SIZE
    \<and> used_set k' = {q. q < total_pages k'} - freed_by_map tag k \<union> kernel_pages ld k'
    \<and> heap_ok k' \<and> unat b + bitmap_bytes tag k \<le> unat (heap_start k')
    \<and> unat (heap_current k') = unat (heap_start k') + 448 \<and> unat (heap_end k') = unat (heap_start k') + 16 * 1024 * 1024
    \<and> (\<forall>x. x < b \<and> \<not> in_range (p + 8 * 511) 8 x \<longrightarrow> mem k' x = mem k x)"
proof -
  let ?c = "console_up info k" and ?len = "bitmap_bytes tag k"
  have ok_c: "boot_ok ld info n ?c"
    using ok boot_ok_cong(1) [of ?c k] console_up_sel by blast
  note cong = boot_ok_cong(2-4) [of ?c k tag, OF console_up_sel(1-3)]
  obtain k1 k2 where k1: "parse_multiboot_mmap info ?c = Inr k1" "pmm_mark_free_regions ld info (pmm_init ld info k1) = Inr k2"
    and ok2: "pmm_ok k2" and used2: "used_set k2 = {q. q < total_pages k2} - freed_by_map tag k \<union> kernel_pages ld k2"
    and sel2: "total_pages k2 = managed tag k div PAGE_SIZE" "pmm_bitmap k2 = b" "unat (bitmap_size k2) = ?len"
    and more2: "pmm.more k2 = pmm.more ?c" and mem2: "\<forall>x. \<not> in_range b ?len x \<longrightarrow> mem k2 x = mem k x"
    using init_pages [OF ok_c] unfolding console_up_sel(1) tag_def [symmetric] b_def [symmetric] cong by blast
  have cpu2: "cr3 k2 = cr3 k" "cpu_log k2 = cpu_log k" "vmm.more k2 = vmm.more k"
    using more2 console_up_sel(4) [of info k] by (cases k2, cases k, simp)+
  have "kernel_pages ld k2 \<subseteq> used_set k2"
    using used2 by blast
  note ready = after_pages [OF ok ok2 this, folded tag_def b_def p_def, OF sel2]
  let ?k3 = "vmm_init sh k2"
  have mem3: "mem ?k3 = store64 (p + 8 * 511) (p OR PT_PRESENT OR PT_WRITE) (mem k2)"
    by (simp only: vmm_init_eqs cpu2 p_def)
  have pb: "\<not> in_range (p + 8 * 511) 8 x" if "in_range b ?len x" for x
  proof
    assume "in_range (p + 8 * 511) 8 x"
    then have "frame_of x = p"
      using entry_byte_frame [of p 511 x] by (simp add: p_def)
    then show False
      using ready(2) that by (simp add: table_frame_def sel2)
  qed
  have in3: "mem ?k3 x = mem k2 x" if "in_range b ?len x" for x
    using pb [OF that] by (simp add: mem3 store64_def store_le_other)
  note cong3 = pages_cong [of ?k3 k2, OF vmm_init_eqs(4-7) _ ok2, unfolded sel2(2,3), OF in3]
  have rec3: "recursive (cr3 k) (mem ?k3)"
    using vmm_init_recursive [of sh k2] by (simp add: Let_def vmm_init_eqs cpu2)
  let ?k4 = "heap_init ?k3"
  have "unat (pmm_bitmap ?k3) + unat (bitmap_size ?k3) < 2 ^ 63" "0 < unat (pmm_bitmap ?k3)"
    using ready(3,4) by (simp_all add: vmm_init_eqs sel2)
  from heap_init_not_reserved [OF this refl, of ld]
  have heap4: "heap_ok ?k4" "heap_current ?k4 = heap_start ?k4" "unat (heap_end ?k4) = unat (heap_start ?k4) + 16 * 1024 * 1024"
    "unat b + ?len \<le> unat (heap_start ?k4)"
    by (simp_all add: vmm_init_eqs sel2)
  have "unat (heap_start ?k4) < unat b + ?len + 4096"
  proof -
    have "unat (b + bitmap_size k2) = unat b + ?len"
      using ready(4) sel2(3) by (subst unat_add_lt) simp_all
    then show ?thesis
      using PAGE_ALIGN_props(2) [of "b + bitmap_size k2"] ready(4) by (simp add: heap_init_sel vmm_init_eqs sel2)
  qed
  then have small: "unat (heap_start ?k4) < 0x4001000"
    using ready(4) by simp
  let ?k5 = "test_heap_allocator ?k4"
  have t5: "heap_ok ?k5" "unat (heap_current ?k5) = unat (heap_start ?k4) + 448"
    "\<And>x. \<not> in_range (heap_start ?k4) 448 x \<Longrightarrow> mem ?k5 x = mem ?k3 x"
    using test_heap_effect [OF heap4(1) _ _ refl refl] small heap4 by (simp_all add: heap_init_eqs)
  have below: "\<not> in_range (heap_start ?k4) 448 x" if "unat x < unat b + ?len" for x
    using in_range_below [of x "heap_start ?k4" 448] that heap4(4) small by simp
  have in_b: "unat x < unat b + ?len" if "in_range b ?len x" for x
    using that ready(4) unat_add_lt [of b "x - b"] by (simp add: in_range_def)
  have in5: "mem ?k5 x = mem ?k3 x" if "in_range b ?len x" for x
    using t5(3) below in_b that by blast
  note eqs5 = test_heap_eqs [of ?k4] heap_init_eqs(2-7) [of ?k3] vmm_init_eqs
  have in2: "mem ?k5 x = mem k2 x" if "in_range b ?len x" for x
    using in5 [OF that] in3 [OF that] by simp
  have "total_pages ?k5 = total_pages k2" "pmm_bitmap ?k5 = pmm_bitmap k2" "bitmap_size ?k5 = bitmap_size k2" "used_pages ?k5 = used_pages k2"
    by (simp_all add: eqs5)
  note cong5 = pages_cong [OF this _ ok2, unfolded sel2(2,3), OF in2]
  have "entry (mem ?k5) p 511 = entry (mem ?k3) p 511"
    unfolding entry_def load64_def
  proof (rule load_le_cong)
    fix l :: nat assume l: "l < 8"
    have e: "p + 8 * 511 + of_nat l = p + of_nat (4088 + l)"
      by simp
    have u: "unat (p + of_nat (4088 + l)) = unat p + (4088 + l)"
      using ready(3-5) l by (intro unat_add_const_lt) simp
    have "unat (p + 8 * 511 + of_nat l) < unat b"
      unfolding e u using ready(5) l by linarith
    then show "mem ?k5 (p + 8 * 511 + of_nat l) = mem ?k3 (p + 8 * 511 + of_nat l)"
      using t5(3) below by simp
  qed
  then have rec5: "recursive (cr3 ?k5) (mem ?k5)"
    using recursive_same [OF rec3, folded p_def] by (simp add: eqs5 cpu2)
  have frame: "mem ?k5 x = mem k x" if "x < b" "\<not> in_range (p + 8 * 511) 8 x" for x
  proof -
    have u: "unat x < unat b"
      using that(1) by (simp add: word_less_nat_alt)
    then have "\<not> in_range b ?len x"
      using in_range_below [of x b ?len] ready(4) by simp
    then show ?thesis
      using t5(3) [OF below] u mem2 that(2) by (simp add: mem3 store64_def store_le_other)
  qed
  have "kernel_init_memory ld sh info k = Inr ?k5"
    using k1 by (simp add: kernel_init_memory_eq)
  moreover have "heap_start ?k5 = heap_start ?k4" "heap_end ?k5 = heap_end ?k4"
    by (simp_all add: test_heap_eqs)
  moreover have "used_set ?k5 = {q. q < total_pages ?k5} - freed_by_map tag k \<union> kernel_pages ld ?k5"
    using used2 cong5(1,5) by (simp add: eqs5)
  moreover have "total_pages ?k5 = managed tag k div PAGE_SIZE" "cr3 ?k5 = cr3 k" "cpu_log ?k5 = cpu_log k @ [WriteCr3 (cr3 k)]"
    by (simp_all add: eqs5 sel2 cpu2)
  moreover have "vmm.more ?k5 = vmm.more k"
    using cpu2(3) by (simp add: test_heap_more heap_init_more vmm_init_more)
  ultimately show ?thesis
    using cong5(3,4) ready(1,2) rec5 t5(1,2) heap4(3,4) frame by (intro exI [of _ ?k5]) simp
qed


text \<open>C2: The first phase of the kernel joins up.  When the boot loader provides a memory map, the kernel
  image and the PML4 as \<open>boot_ok\<close> says, the phase returns; afterwards the page allocator and the page
  tables are in the state that mapping pages asks for (\<open>pages_ok\<close>, the PML4 a reserved frame, the
  recursive mapping on); the free pages are exactly those the memory map frees and neither the kernel
  nor the bitmap occupies; the heap begins after the bitmap, 448 of its 16 MB used by its test; the TLB
  has been flushed once; and below the bitmap no byte of memory has changed but the last PML4 entry.\<close>

theorem boot_memory_ready:
  fixes k :: "'a vmm_scheme"
  assumes "boot_ok ld info n k"
  defines "tag \<equiv> (next_tag (mem k) ^^ n) (info + 8)" and "b \<equiv> bitmap_address ld info (mem k)" and "p \<equiv> frame_of (cr3 k)"
  shows "\<exists>k'. kernel_init_memory ld sh info k = Inr k' \<and> pages_ok k' \<and> table_frame k' p \<and> recursive (cr3 k') (mem k')
    \<and> cr3 k' = cr3 k \<and> cpu_log k' = cpu_log k @ [WriteCr3 (cr3 k)]
    \<and> total_pages k' = managed tag k div PAGE_SIZE
    \<and> used_set k' = {q. q < total_pages k'} - freed_by_map tag k \<union> kernel_pages ld k'
    \<and> heap_ok k' \<and> unat b + bitmap_bytes tag k \<le> unat (heap_start k')
    \<and> unat (heap_current k') = unat (heap_start k') + 448 \<and> unat (heap_end k') = unat (heap_start k') + 16 * 1024 * 1024
    \<and> (\<forall>x. x < b \<and> \<not> in_range (p + 8 * 511) 8 x \<longrightarrow> mem k' x = mem k x)"
  using boot_memory_effect [OF assms(1), of sh] unfolding tag_def b_def p_def by blast

section \<open>A machine at boot\<close>

text \<open>The small memory map, a root pointer at \<open>0xE0000\<close> to an empty root table at address 0.\<close>

definition boot_mem :: memory where
  "boot_mem = small_map(0xE0000 := 0x52, 0xE0001 := 0x53, 0xE0002 := 0x44, 0xE0003 := 0x20, 0xE0004 := 0x50,
     0xE0005 := 0x54, 0xE0006 := 0x52, 0xE0007 := 0x20, 0xE0008 := 225)"

definition boot_demo :: "memory \<Rightarrow> vmm" where
  "boot_demo m = paging_demo\<lparr>mem := m, total_memory := 0, cr3 := 0x100000\<rparr>"

lemma boot_demo_sel: "mem (boot_demo m) = m" "total_memory (boot_demo m) = 0" "cr3 (boot_demo m) = 0x100000"
  "cpu_log (boot_demo m) = []"
  by (simp_all add: boot_demo_def paging_demo_def)

lemma boot_demo_ok:
  assumes "load32 m 0x9000 = 64" "tag_type m 0x9008 = 1" "next_tag m 0x9008 = 0x9018" "tag_type m 0x9018 = 6"
    "mmap_entry_size m 0x9018 = 24" "num_mmap_entries m 0x9018 = 1" "mmap_entry_at m 0x9018 0 = 0x9028"
    "read_mmap_entry m 0x9028 = \<lparr>entry_addr = 0x100000, entry_len = 0x1000000, entry_type = 1\<rparr>"
  shows "boot_ok small_layout 0x9000 1 (boot_demo m)" "bitmap_address small_layout 0x9000 m = 0x101000"
proof -
  show b: "bitmap_address small_layout 0x9000 m = 0x101000"
    by (simp add: bitmap_address_def small_layout_def PAGE_ALIGN_def assms(1))
  have "mmap_entries m 0x9018 = [\<lparr>entry_addr = 0x100000, entry_len = 0x1000000, entry_type = 1\<rparr>]"
    by (simp add: mmap_entries_def assms)
  then have tm: "managed 0x9018 (boot_demo m) = 0x1100000"
    by (simp add: managed_def boot_demo_sel low_ends_def available_def)
  then have len: "bitmap_bytes 0x9018 (boot_demo m) = 544"
    by (simp add: bitmap_bytes_def)
  have fr: "frame_of 0x100000 = 0x100000"
    by (simp add: frame_of_def frame_mask_def)
  have j: "(next_tag m ^^ j) 0x9008 \<in> {0x9008, 0x9018}" if "j \<le> 1" for j
    using that assms(3) by (cases j) auto
  have clear: "tags_clear m 0x9008 1 0x101000 544"
    unfolding tags_clear_def
  proof (intro allI impI)
    fix j :: nat assume "j \<le> 1"
    from j [OF this] show "disjoint_ranges ((next_tag m ^^ j) 0x9008) 8 0x101000 544"
      by (auto simp: disjoint_below)
  qed
  have stop: "stops_at m 0x9008 1"
    by (simp add: stops_at_def tag_ends_def assms)
  show "boot_ok small_layout 0x9000 1 (boot_demo m)"
    using stop clear by (simp add: boot_ok_def Let_def boot_demo_sel assms b tm len fr disjoint_below)
      (simp add: small_layout_def)
qed

text \<open>Loads spelled out in bytes, for concrete memories.\<close>

lemma load_bytes:
  "load32 m a = load_le (Suc (Suc (Suc (Suc 0)))) m a"
  "load64 m a = load_le (Suc (Suc (Suc (Suc (Suc (Suc (Suc (Suc 0)))))))) m a"
  by (simp_all add: load32_def load64_def eval_nat_numeral)

lemmas map_loads = tag_type_def tag_size_def next_tag_def mmap_entry_size_def num_mmap_entries_def mmap_entry_at_def
  read_mmap_entry_def load_bytes

lemma boot_mem_ok: "boot_ok small_layout 0x9000 1 (boot_demo boot_mem)" "bitmap_address small_layout 0x9000 boot_mem = 0x101000"
  by (rule boot_demo_ok; simp add: map_loads boot_mem_def small_map_def bytes_at_def)+

theorem boot_memory_ready_witness:
  "\<exists>k'. kernel_init_memory small_layout shifts_64 0x9000 (boot_demo boot_mem) = Inr k' \<and> pages_ok k' \<and> heap_ok k'"
  using boot_memory_ready [OF boot_mem_ok(1), of shifts_64] by blast

end
