(* ===== verification/Kernel_Main.thy ===== *)
theory Kernel_Main
  imports Smp Parallel Boot_Memory
begin

text \<open>
  \<open>kernel_main\<close> of \<^verbatim>\<open>c/kernel/minimal_step9.c\<close>, what processor 0 does from the boot loader to the
  final \<open>hlt\<close> loop: one definition for each phase, composed by \<open>kernel_main\<close>.

  What the other processors and the timer do while processor 0 runs comes from outside its code: it is
  the argument \<open>env\<close>, the values that processor 0 finds where it reads a variable that others write.
  The lemmas about the tests take them from the interleavings of theory \<^verbatim>\<open>Parallel\<close>.
\<close>

section \<open>What processor 0 finds\<close>

text \<open>The processors that came online during the wait; for each test the counter of every processor as
  it is printed and as it is compared (the code reads it twice); the sums; the ticks as printed and as
  added.\<close>

record env =
  aps_started :: u32
  shown_1 :: "(u64 \<times> u64) list"
  shown_3 :: "(u64 \<times> u64) list"
  sums_shown :: "u64 list"
  total_shown :: u64
  calls_shown :: u64
  ticks_shown :: "u64 list"
  ticks_summed :: "u64 list"

text \<open>\<open>for (int i = 0; i < cpu_count; i++)\<close> with a body that can fault, and the access to an array.\<close>

definition for_cpus :: "u32 \<Rightarrow> (u32 \<Rightarrow> 's \<Rightarrow> fault + 's) \<Rightarrow> 's \<Rightarrow> fault + 's" where
  "for_cpus n f s =
     (if sint n \<le> 0 then Inr s
      else for_up 0 n (\<lambda>i r. case r of Inl e \<Rightarrow> Inl e | Inr s \<Rightarrow> f i s) (Inr s))"

definition slot :: "'v list \<Rightarrow> u32 \<Rightarrow> fault + 'v" where
  "slot xs i = (if unat i < length xs then Inr (xs ! unat i) else Inl OutOfBounds)"

section \<open>Phases\<close>

text \<open>Descriptor tables and the time stamp counter.\<close>

definition kernel_init_tables :: "layout \<Rightarrow> 'a idt_state_scheme \<Rightarrow> 'a idt_state_scheme" where
  "kernel_init_tables ld k =
     (let k = kprint [Ln '''', Ln ''[OK] Serial port initialized (COM1)'', Ln ''[OK] Running in 64-bit long mode'', Ln ''''] k;
          k = kprint [Ln ''[GDT] Initializing GDT for BSP...'', Ln ''[GDT] Using bootloader GDT (no custom GDT/TSS)...'', Ln ''''] k;
          k = kprint [Ln ''[IDT] Initializing Interrupt Descriptor Table...''] k;
          k = idt_init ld k;
          k = kprint [Ln ''[IDT] IDT initialized with 32 exception handlers'', Ln ''[IDT] IDT loaded successfully!'', Ln ''''] k;
          k = kprint [Ln ''[TSC] Calibrating Time Stamp Counter...''] k;
          k = calibrate_tsc k
      in kprint [S ''[TSC] TSC frequency: '', D_of (tsc_khz k), Ln '' kHz''] k)"

text \<open>The processors, from the ACPI tables; without them the kernel halts.\<close>

definition kernel_find_cpus :: "'a acpi_scheme \<Rightarrow> fault + 'a acpi_scheme outcome" where
  "kernel_find_cpus k =
     (let k = kprint [Ln (newline_char # ''[ACPI] Searching for RSDP...'')] k;
          rsdp = acpi_find_rsdp (mem k) in
      if rsdp = 0 then Inr (Halts (kprint [Ln ''[ERROR] RSDP not found!'', Ln ''System halted.''] k))
      else
        let k = kprint [Ln ''[ACPI] RSDP found!'', Ln ''[ACPI] Searching for MADT...''] k;
            madt = acpi_find_madt (mem k) rsdp in
        if madt = 0 then Inr (Halts (kprint [Ln ''[ERROR] MADT not found!'', Ln ''System halted.''] k))
        else
          let k = kprint [Ln ''[ACPI] MADT found!'', Ln ''[ACPI] Parsing MADT entries...''] k
          in case acpi_parse_madt madt k of None \<Rightarrow> Inl Hang
             | Some (count, k) \<Rightarrow>
                 let k = k\<lparr>cpu_count := count\<rparr>
                 in Inr (Returns (kprint [S (newline_char # ''[ACPI] Detected ''), D (cpu_count k), Ln '' CPU(s)''] k)))"

definition kernel_start_cpus :: "layout \<Rightarrow> 'a smp_scheme \<Rightarrow> fault + 'a smp_scheme" where
  "kernel_start_cpus ld k =
     (let k = apic_init k;
          k = setup_trampoline ld k;
          k = kprint [Ln (newline_char # ''[SMP] Starting AP boot sequence...'')] k
      in boot_all_aps ld k)"

text \<open>The report of the processors: by now \<open>started\<close> of them have incremented \<open>cpus_online\<close>.\<close>

definition kernel_report_cpus :: "u32 \<Rightarrow> 'a smp_scheme \<Rightarrow> 'a smp_scheme" where
  "kernel_report_cpus started k =
     (let k = k\<lparr>cpus_online := cpus_online k + started\<rparr>;
          k = kprint [Ln (newline_char # ''[SMP] Application Processors booted''), S ''[SMP] CPUs online: '', D (cpus_online k),
                S '' / '', D (cpu_count k), Ln ''''] k
      in if cpus_online k \<noteq> cpu_count k
         then kprint [Ln (newline_char # ''[WARNING] Not all CPUs came online''), Ln ''[INFO] This may be normal in some environments''] k
         else kprint [Ln (newline_char # ''[SUCCESS] All CPUs booted successfully!'')] k)"

text \<open>Interrupts on, and the timer of processor 0.\<close>

definition kernel_start_timer :: "'a smp_scheme \<Rightarrow> 'a smp_scheme" where
  "kernel_start_timer k =
     (let k = kprint [Ln (newline_char # ''[TIMER] Enabling interrupts and starting APIC Timer...'')] k;
          k = cpu_do Sti k;
          k = apic_timer_init k;
          k = kprint [Ln ''[DEBUG] BSP Timer Init:'', S ''  LVT before:  '', H (timer_init_debug k ! 0), Ln '''',
                S ''  LVT after:   '', H (timer_init_debug k ! 1), Ln '''', S ''  DCR:         '', H (timer_init_debug k ! 2), Ln '''',
                S ''  ICR:         '', H (timer_init_debug k ! 3), Ln ''''] k;
          (bsp_lvt, k) = (if use_x2apic k then (ucast (rdmsr X2APIC_LVT_TIMER k), k) else apic_read APIC_TIMER_LVT k)
      in kprint [S ''  LVT current: '', H bsp_lvt, Ln '''', Ln ''[TIMER] BSP timer started successfully!'',
           Ln (newline_char # ''[INFO] APs will initialize their timers in parallel...'')] k)"

text \<open>Around the tests, whose steps are those of theory \<^verbatim>\<open>Parallel\<close>.\<close>

definition kernel_run_tests :: "'a smp_scheme \<Rightarrow> 'a smp_scheme" where
  "kernel_run_tests k =
     (let k = kprint [Ln '''', rule_line, Ln ''  Running Parallel Computation Tests'', rule_line, Ln ''''] k;
          k = kprint [Ln ''[TEST] Waiting for APs to initialize...''] k;
          k = cpu_do (Pauses 500000) k;
          k = kprint [Ln ''[TEST] BSP running tests...''] k
      in kprint [Ln ''[TEST] All tests completed!''] k)"

definition show_counter :: "u32 \<Rightarrow> u64 \<Rightarrow> msg list" where
  "show_counter i v = [S ''  CPU '', D i, S '': '', Q v]"

definition kernel_result_1 :: "env \<Rightarrow> 'a smp_scheme \<Rightarrow> fault + 'a smp_scheme" where
  "kernel_result_1 e k =
     (let k = kprint [Ln '''', rule_line, Ln ''  Test Results'', rule_line, Ln ''''] k;
          k = kprint [Ln ''TEST 1: Parallel Counters'', Ln ''---------------------------''] k
      in for_cpus (cpu_count k) (\<lambda>i k. case slot (shown_1 e) i of Inl f \<Rightarrow> Inl f | Inr (printed, compared) \<Rightarrow>
           let k = kprint (show_counter i printed) k
           in Inr (if compared = 1000000 then kprint [Ln '' [OK]''] k else kprint [Ln '' [FAIL]''] k)) k)"

definition expected_sum :: u64 where "expected_sum = 50000005000000"

definition kernel_result_2 :: "env \<Rightarrow> 'a smp_scheme \<Rightarrow> fault + 'a smp_scheme" where
  "kernel_result_2 e k =
     (let k = kprint [Ln (newline_char # ''TEST 2: Distributed Sum (1 to 10,000,000)''), Ln ''-------------------------------------------''] k;
          k = kprint [Ln ''  Partial sums:''] k
      in case for_cpus (cpu_count k) (\<lambda>i k. case slot (sums_shown e) i of Inl f \<Rightarrow> Inl f | Inr v \<Rightarrow>
           Inr (kprint [S ''    CPU '', D i, S '': '', Q v, Ln ''''] k)) k of Inl f \<Rightarrow> Inl f | Inr k \<Rightarrow>
         let k = kprint [S ''  Total sum: '', Q (total_shown e), Ln ''''] k;
             k = kprint [S ''  Expected:  '', Q expected_sum, Ln ''''] k
         in Inr (if total_shown e = expected_sum then kprint [Ln ''  [OK] Sum is correct!''] k
                 else kprint [Ln ''  [FAIL] Sum mismatch!''] k))"

definition kernel_result_3 :: "env \<Rightarrow> 'a smp_scheme \<Rightarrow> fault + bool \<times> 'a smp_scheme" where
  "kernel_result_3 e k =
     (let k = kprint [Ln (newline_char # ''TEST 3: Barrier Synchronization''), Ln ''---------------------------------'',
                Ln ''  (All CPUs should reach 1M after barrier)''] k
      in case for_cpus (cpu_count k) (\<lambda>i (barrier_ok, k). case slot (shown_3 e) i of Inl f \<Rightarrow> Inl f | Inr (printed, compared) \<Rightarrow>
           let k = kprint (show_counter i printed) k
           in Inr (if compared \<noteq> 1000000 then (False, kprint [Ln '' [FAIL]''] k) else (barrier_ok, kprint [Ln '' [OK]''] k))) (True, k)
         of Inl f \<Rightarrow> Inl f | Inr (barrier_ok, k) \<Rightarrow>
         Inr (barrier_ok, if barrier_ok then kprint [Ln ''  [OK] Barrier synchronization worked!''] k
              else kprint [Ln ''  [FAIL] Some CPUs didn't reach barrier''] k))"

definition kernel_verdict :: "env \<Rightarrow> bool \<Rightarrow> 'a smp_scheme \<Rightarrow> 'a smp_scheme" where
  "kernel_verdict e barrier_ok k =
     (let k = kprint [Ln '''', rule_line] k;
          k = (if total_shown e = expected_sum \<and> barrier_ok then kprint [Ln ''[SUCCESS] All parallel tests passed!''] k
               else kprint [Ln ''[WARNING] Some tests failed''] k)
      in kprint [rule_line] k)"

definition kernel_results :: "env \<Rightarrow> 'a smp_scheme \<Rightarrow> fault + 'a smp_scheme" where
  "kernel_results e k =
     (case kernel_result_1 e k of Inl f \<Rightarrow> Inl f | Inr k \<Rightarrow>
      case kernel_result_2 e k of Inl f \<Rightarrow> Inl f | Inr k \<Rightarrow>
      case kernel_result_3 e k of Inl f \<Rightarrow> Inl f | Inr (barrier_ok, k) \<Rightarrow>
      Inr (kernel_verdict e barrier_ok k))"

text \<open>The two seconds of the timer test, and its report.\<close>

definition kernel_timer_report :: "env \<Rightarrow> 'a smp_scheme \<Rightarrow> fault + 'a smp_scheme" where
  "kernel_timer_report e k =
     (let k = kprint [Ln '''', rule_line, Ln ''  APIC Timer Test'', rule_line, Ln ''''] k;
          k = kprint [Ln ''[TIMER] Waiting 2 seconds to collect timer ticks...''] k;
          k = cpu_do (Pauses 20000000) k;
          k = kprint [S ''[TIMER] Global handler calls: '', Q (calls_shown e), Ln '''', Ln ''[TIMER] Timer ticks per CPU:''] k
      in case for_cpus (cpu_count k) (\<lambda>i k. case slot (ticks_shown e) i of Inl f \<Rightarrow> Inl f | Inr v \<Rightarrow>
           Inr (kprint [S ''  CPU '', D i, S '': '', Q v, Ln '' ticks''] k)) k of Inl f \<Rightarrow> Inl f | Inr k \<Rightarrow>
         case for_cpus (cpu_count k) (\<lambda>i total_ticks. case slot (ticks_summed e) i of Inl f \<Rightarrow> Inl f | Inr v \<Rightarrow>
           Inr (total_ticks + v)) 0 of Inl f \<Rightarrow> Inl f | Inr total_ticks \<Rightarrow>
         let k = kprint [S ''  Total ticks: '', Q total_ticks, Ln ''''] k
         in Inr (if 0 < total_ticks then kprint [Ln ''  [OK] Timer interrupts are working!''] k
                 else kprint [Ln ''  [FAIL] No timer interrupts received!''] k))"

definition kernel_done :: "'a smp_scheme \<Rightarrow> 'a smp_scheme outcome" where
  "kernel_done k =
     (let k = kprint [Ln '''', rule_line, Ln ''  Step 9 Complete!'', rule_line, Ln ''''] k;
          k = kprint [Ln ''[SUCCESS] Memory Management fully functional!'', Ln ''[SUCCESS] Multiboot2 memory map parsed'',
                Ln ''[SUCCESS] Physical Memory Manager (bitmap allocator)'',
                Ln ''[SUCCESS] Virtual Memory Manager (recursive page tables)'', Ln ''[SUCCESS] Kernel Heap initialized (16 MB)'',
                Ln ''[SUCCESS] APIC Timer working on all CPUs!'', Ln ''[SUCCESS] All 4 CPUs running in parallel'', Ln ''''] k;
          k = kprint [Ln ''[INFO] Step 9 demonstrates:'', Ln ''  - Multiboot2 boot protocol'', Ln ''  - Physical memory allocation (PMM)'',
                Ln ''  - Virtual memory mapping (VMM)'', Ln ''  - Recursive page table mapping'', Ln ''  - Kernel heap allocator'',
                Ln ''  - Per-CPU APIC timers'', Ln ''  - SMP-safe memory management'', Ln ''''] k
      in Halts (kprint [Ln ''System halted successfully.''] k))"

text \<open>The whole: every path ends in a fault or in a \<open>hlt\<close> loop.\<close>

definition kernel_main :: "layout \<Rightarrow> pt_shifts \<Rightarrow> u64 \<Rightarrow> env \<Rightarrow> 'a smp_scheme \<Rightarrow> fault + 'a smp_scheme outcome" where
  "kernel_main ld sh multiboot_addr e k =
     (case kernel_init_memory ld sh multiboot_addr k of Inl f \<Rightarrow> Inl f | Inr k \<Rightarrow>
      let k = kernel_init_tables ld k in
      case kernel_find_cpus k of Inl f \<Rightarrow> Inl f | Inr (Halts k) \<Rightarrow> Inr (Halts k) | Inr (Returns k) \<Rightarrow>
      case kernel_start_cpus ld k of Inl f \<Rightarrow> Inl f | Inr k \<Rightarrow>
      let k = kernel_report_cpus (aps_started e) k;
          k = kernel_start_timer k;
          k = kernel_run_tests k in
      case kernel_results e k of Inl f \<Rightarrow> Inl f | Inr k \<Rightarrow>
      case kernel_timer_report e k of Inl f \<Rightarrow> Inl f | Inr k \<Rightarrow>
      Inr (kernel_done k))"


section \<open>The reports\<close>

lemma for_cpus_fold:
  assumes "n < 2 ^ 31"
  shows "for_cpus (of_nat n) f s = fold (\<lambda>i r. case r of Inl e \<Rightarrow> Inl e | Inr s \<Rightarrow> f (of_nat i) s) [0..<n] (Inr s)"
proof -
  have un: "unat (of_nat n :: u32) = n"
    using assms by (intro unat_of_nat_lt) simp
  then have "sint (of_nat n :: u32) = int n"
    unfolding sint32 un using assms by simp
  then show ?thesis
    by (cases "n = 0") (simp_all add: for_cpus_def for_up_fold un)
qed

lemma for_cpus_print:
  assumes "n < 2 ^ 31" "\<And>i k. i < n \<Longrightarrow> f (of_nat i) k = Inr (kprint (ms i) k)"
  shows "for_cpus (of_nat n) f k = Inr (kprint (concat (map ms [0..<n])) k)"
proof -
  have "m \<le> n \<Longrightarrow> fold (\<lambda>i r. case r of Inl e \<Rightarrow> Inl e | Inr s \<Rightarrow> f (of_nat i) s) [0..<m] (Inr k)
      = Inr (kprint (concat (map ms [0..<m])) k)" for m
    by (induction m) (simp_all add: assms(2) kprint_def say_def)
  from this [of n] show ?thesis
    by (simp add: for_cpus_fold [OF assms(1)])
qed

lemma for_cpus_check:
  assumes "n < 2 ^ 31" "\<And>i b k. i < n \<Longrightarrow> f (of_nat i) (b, k) = Inr (if good i then b else False, kprint (ms i) k)"
  shows "for_cpus (of_nat n) f (b, k) = Inr (b \<and> (\<forall>i<n. good i), kprint (concat (map ms [0..<n])) k)"
proof -
  have "m \<le> n \<Longrightarrow> fold (\<lambda>i r. case r of Inl e \<Rightarrow> Inl e | Inr s \<Rightarrow> f (of_nat i) s) [0..<m] (Inr (b, k))
      = Inr (b \<and> (\<forall>i<m. good i), kprint (concat (map ms [0..<m])) k)" for m
    by (induction m) (auto simp: assms(2) kprint_def say_def less_Suc_eq)
  from this [of n] show ?thesis
    by (simp add: for_cpus_fold [OF assms(1)])
qed

lemma slot_of_nat: "i < n \<Longrightarrow> n \<le> 16 \<Longrightarrow> length xs = 16 \<Longrightarrow> slot xs (of_nat i) = Inr (xs ! i)"
  by (simp add: slot_def unat_of_nat_lt)

text \<open>What the reports print for \<open>n\<close> processors.\<close>

definition counter_line :: "u64 \<times> u64 \<Rightarrow> nat \<Rightarrow> msg list" where
  "counter_line v i = show_counter (of_nat i) (fst v) @ [if snd v = 1000000 then Ln '' [OK]'' else Ln '' [FAIL]'']"

definition sum_line :: "u64 \<Rightarrow> nat \<Rightarrow> msg list" where
  "sum_line v i = [S ''    CPU '', D (of_nat i), S '': '', Q v, Ln '''']"

definition barrier_good :: "env \<Rightarrow> nat \<Rightarrow> bool" where
  "barrier_good e n \<longleftrightarrow> (\<forall>i<n. snd (shown_3 e ! i) = 1000000)"

definition text_1 :: "env \<Rightarrow> nat \<Rightarrow> msg list" where
  "text_1 e n = [Ln '''', rule_line, Ln ''  Test Results'', rule_line, Ln '''', Ln ''TEST 1: Parallel Counters'', Ln ''---------------------------'']
     @ concat (map (\<lambda>i. counter_line (shown_1 e ! i) i) [0..<n])"

definition text_2 :: "env \<Rightarrow> nat \<Rightarrow> msg list" where
  "text_2 e n = [Ln (newline_char # ''TEST 2: Distributed Sum (1 to 10,000,000)''), Ln ''-------------------------------------------'', Ln ''  Partial sums:'']
     @ concat (map (\<lambda>i. sum_line (sums_shown e ! i) i) [0..<n])
     @ [S ''  Total sum: '', Q (total_shown e), Ln '''', S ''  Expected:  '', Q 50000005000000, Ln '''',
        if total_shown e = 50000005000000 then Ln ''  [OK] Sum is correct!'' else Ln ''  [FAIL] Sum mismatch!'']"

definition text_3 :: "env \<Rightarrow> nat \<Rightarrow> msg list" where
  "text_3 e n = [Ln (newline_char # ''TEST 3: Barrier Synchronization''), Ln ''---------------------------------'',
        Ln ''  (All CPUs should reach 1M after barrier)'']
     @ concat (map (\<lambda>i. counter_line (shown_3 e ! i) i) [0..<n])
     @ [if barrier_good e n then Ln ''  [OK] Barrier synchronization worked!'' else Ln ''  [FAIL] Some CPUs didn't reach barrier'']"

definition verdict_text :: "bool \<Rightarrow> msg list" where
  "verdict_text good = [Ln '''', rule_line, if good then Ln ''[SUCCESS] All parallel tests passed!'' else Ln ''[WARNING] Some tests failed'', rule_line]"

definition env_sizes :: "env \<Rightarrow> bool" where
  "env_sizes e \<longleftrightarrow> length (shown_1 e) = 16 \<and> length (shown_3 e) = 16 \<and> length (sums_shown e) = 16
     \<and> length (ticks_shown e) = 16 \<and> length (ticks_summed e) = 16"

lemma cpu_count_kprint [simp]: "cpu_count (kprint ms k) = cpu_count k"
  by (simp add: kprint_def)

lemma result_1_text:
  assumes "cpu_count k = of_nat n" "n \<le> 16" "env_sizes e"
  shows "kernel_result_1 e k = Inr (kprint (text_1 e n) k)"
  unfolding kernel_result_1_def Let_def kprint_kprint cpu_count_kprint assms(1)
  by (subst for_cpus_print [where ms = "\<lambda>i. counter_line (shown_1 e ! i) i"])
    (use assms in \<open>auto simp: slot_of_nat [OF _ assms(2)] env_sizes_def counter_line_def kprint_kprint text_1_def split: prod.split\<close>)

lemma result_2_text:
  assumes "cpu_count k = of_nat n" "n \<le> 16" "env_sizes e"
  shows "kernel_result_2 e k = Inr (kprint (text_2 e n) k)"
  unfolding kernel_result_2_def Let_def kprint_kprint cpu_count_kprint assms(1)
  by (subst for_cpus_print [where ms = "\<lambda>i. sum_line (sums_shown e ! i) i"])
    (use assms in \<open>auto simp: slot_of_nat [OF _ assms(2)] env_sizes_def sum_line_def kprint_kprint text_2_def expected_sum_def\<close>)

lemma result_3_text:
  assumes "cpu_count k = of_nat n" "n \<le> 16" "env_sizes e"
  shows "kernel_result_3 e k = Inr (barrier_good e n, kprint (text_3 e n) k)"
  unfolding kernel_result_3_def Let_def kprint_kprint cpu_count_kprint assms(1)
  by (subst for_cpus_check [where ms = "\<lambda>i. counter_line (shown_3 e ! i) i" and good = "\<lambda>i. snd (shown_3 e ! i) = 1000000"])
    (use assms in \<open>auto simp: slot_of_nat [OF _ assms(2)] env_sizes_def counter_line_def kprint_kprint text_3_def barrier_good_def split: prod.split\<close>)

definition all_good :: "env \<Rightarrow> nat \<Rightarrow> bool" where
  "all_good e n \<longleftrightarrow> total_shown e = 50000005000000 \<and> barrier_good e n"

lemma results_text:
  assumes "cpu_count k = of_nat n" "n \<le> 16" "env_sizes e"
  shows "kernel_results e k = Inr (kprint (text_1 e n @ text_2 e n @ text_3 e n @ verdict_text (all_good e n)) k)"
  using assms
  by (simp add: kernel_results_def result_1_text result_2_text result_3_text kprint_kprint kernel_verdict_def Let_def verdict_text_def
      all_good_def expected_sum_def)

lemma for_cpus_sum:
  assumes "n \<le> 16" "length xs = 16"
  shows "for_cpus (of_nat n) (\<lambda>i t. case slot xs i of Inl f \<Rightarrow> Inl f | Inr v \<Rightarrow> Inr (t + v)) 0 = Inr (\<Sum>i<n. xs ! i)"
proof -
  have "m \<le> n \<Longrightarrow> fold (\<lambda>i r. case r of Inl e \<Rightarrow> Inl e | Inr t \<Rightarrow> (case slot xs (of_nat i) of Inl f \<Rightarrow> Inl f | Inr v \<Rightarrow> Inr (t + v))) [0..<m] (Inr 0)
      = Inr (\<Sum>i<m. xs ! i)" for m
    by (induction m) (simp_all add: slot_of_nat [OF _ assms])
  from this [of n] show ?thesis
    using assms(1) by (simp add: for_cpus_fold)
qed

definition timer_text :: "env \<Rightarrow> nat \<Rightarrow> msg list" where
  "timer_text e n = [S ''[TIMER] Global handler calls: '', Q (calls_shown e), Ln '''', Ln ''[TIMER] Timer ticks per CPU:'']
     @ concat (map (\<lambda>i. [S ''  CPU '', D (of_nat i), S '': '', Q (ticks_shown e ! i), Ln '' ticks'']) [0..<n])
     @ [S ''  Total ticks: '', Q (\<Sum>i<n. ticks_summed e ! i), Ln '''',
        if 0 < (\<Sum>i<n. ticks_summed e ! i) then Ln ''  [OK] Timer interrupts are working!'' else Ln ''  [FAIL] No timer interrupts received!'']"

lemma timer_report_text:
  assumes "cpu_count k = of_nat n" "n \<le> 16" "env_sizes e"
  shows "kernel_timer_report e k = Inr (kprint (timer_text e n)
    (cpu_do (Pauses 20000000) (kprint [Ln '''', rule_line, Ln ''  APIC Timer Test'', rule_line, Ln '''',
       Ln ''[TIMER] Waiting 2 seconds to collect timer ticks...''] k)))"
proof -
  have len: "length (ticks_summed e) = 16"
    using assms(3) by (simp add: env_sizes_def)
  have c: "cpu_count (cpu_do io k) = cpu_count k" for io and k :: "'b acpi_scheme"
    by (simp add: cpu_do_def)
  show ?thesis
    unfolding kernel_timer_report_def Let_def kprint_kprint cpu_count_kprint c assms(1) for_cpus_sum [OF assms(2) len]
    by (subst for_cpus_print [where ms = "\<lambda>i. [S ''  CPU '', D (of_nat i), S '': '', Q (ticks_shown e ! i), Ln '' ticks'']"])
      (use assms in \<open>auto simp: slot_of_nat [OF _ assms(2)] env_sizes_def kprint_kprint timer_text_def c for_cpus_sum [OF assms(2) len]\<close>)
qed


section \<open>The verdict on the tests\<close>

text \<open>Processor 0 displays the arrays as they are in state \<open>s\<close> of the tests.\<close>

definition displays :: "env \<Rightarrow> par \<Rightarrow> bool" where
  "displays e s \<longleftrightarrow> env_sizes e \<and> sums_shown e = partial_sums s \<and> total_shown e = total_sum s
     \<and> shown_1 e = map (\<lambda>v. (v, v)) (per_cpu_counters s) \<and> shown_3 e = map (\<lambda>v. (v, v)) (per_cpu_counters s)"

definition env_of :: "par \<Rightarrow> env" where
  "env_of s = \<lparr>aps_started = 0, shown_1 = map (\<lambda>v. (v, v)) (per_cpu_counters s), shown_3 = map (\<lambda>v. (v, v)) (per_cpu_counters s),
     sums_shown = partial_sums s, total_shown = total_sum s, calls_shown = 0, ticks_shown = replicate 16 0, ticks_summed = replicate 16 0\<rparr>"

lemma displays_env_of: "tests_inv n s \<Longrightarrow> displays (env_of s) s"
  by (simp add: displays_def env_of_def env_sizes_def tests_inv_def)

lemma displays_good:
  assumes run: "tests_run (of_nat n) n s" and n: "0 < n" "n \<le> 16" and i: "i < n" "tpc s i = 9" and e: "displays e s"
  shows "all_good e n \<longleftrightarrow> (\<forall>j<n. tpc s j = 9)"
proof -
  have len: "length (per_cpu_counters s) = 16"
    using tests_run_inv [OF run refl n(2)] by (simp add: tests_inv_def)
  have "snd (shown_3 e ! j) = per_cpu_counters s ! j" if "j < n" for j
    using e that n len by (simp add: displays_def)
  then have "barrier_good e n \<longleftrightarrow> (\<forall>j<n. tpc s j = 9)"
    using counters_late [OF run n i] by (auto simp: barrier_good_def)
  moreover have "3 < tpc s i"
    using i(2) by simp
  then have "total_shown e = 50000005000000"
    using sum_complete [OF run n i(1)] e by (simp add: displays_def)
  ultimately show ?thesis
    by (simp add: all_good_def)
qed

text \<open>C3: The verdict that \<open>kernel_main\<close> prints is right when every processor has finished: for 1 to 16
  processors, whatever the interleaving of the tests, when processor 0 displays the results after all
  have finished, it reports success.\<close>

theorem finished_tests_pass:
  assumes "tests_run (of_nat n) n s" and "0 < n" and "n \<le> 16" and "\<forall>i<n. tpc s i = 9"
    and "displays e s" and "cpu_count k = of_nat n"
  shows "kernel_results e k = Inr (kprint (text_1 e n @ text_2 e n @ text_3 e n
    @ [Ln '''', rule_line, Ln ''[SUCCESS] All parallel tests passed!'', rule_line]) k)"
proof -
  have "all_good e n"
    using displays_good [OF assms(1-3,2) _ assms(5)] assms(4,2) by blast
  then show ?thesis
    using results_text [OF assms(6,3)] assms(5) by (simp add: displays_def verdict_text_def)
qed

text \<open>C4: The verdict can be wrong: with two processors or more there is a schedule in which processor 0
  has finished the tests and, displaying the counters at that moment, reports a failure, although
  processor 1 is only in its second phase and every processor goes on to reach 1,000,000.  No barrier
  stands between the second phase and the display.\<close>

theorem early_display_fails:
  assumes "1 < n" and "n \<le> 16" and "cpu_count k = of_nat n"
  shows "\<exists>s e. tests_run (of_nat n) n s \<and> tpc s 0 = 9 \<and> displays e s
    \<and> kernel_results e k = Inr (kprint (text_1 e n @ text_2 e n @ text_3 e n
        @ [Ln '''', rule_line, Ln ''[WARNING] Some tests failed'', rule_line]) k)
    \<and> (\<exists>sched. list_all (\<lambda>i. i < n) sched \<and> (\<forall>i<n. per_cpu_counters (fold (tests_step (of_nat n)) sched s) ! i = 1000000))"
proof -
  have n0: "0 < n"
    using assms(1) by simp
  obtain s where s: "tests_run (of_nat n) n s" "tpc s 0 = 9" "per_cpu_counters s ! 1 = 500000"
    using phase_2_results_race [OF assms(1,2)] by blast
  have inv: "tests_inv n s"
    using tests_run_inv [OF s(1) refl assms(2)] by blast
  have e: "displays (env_of s) s"
    using inv by (rule displays_env_of)
  have "\<not> (\<forall>j<n. tpc s j = 9)"
    using counters_late [OF s(1) n0 assms(2) n0 s(2) assms(1)] s(3) assms(1) by (auto split: if_splits)
  then have "\<not> all_good (env_of s) n"
    using displays_good [OF s(1) n0 assms(2) n0 s(2) e] by blast
  then have r: "kernel_results (env_of s) k = Inr (kprint (text_1 (env_of s) n @ text_2 (env_of s) n @ text_3 (env_of s) n
        @ [Ln '''', rule_line, Ln ''[WARNING] Some tests failed'', rule_line]) k)"
    using results_text [OF assms(3,2)] e by (simp add: displays_def verdict_text_def)
  have "\<forall>i<n. tpc s i \<le> 9"
    using inv by (simp add: tests_inv_def cpu_tests_def)
  then obtain sched where sched: "list_all (\<lambda>i. i < n) sched" "tests_run (of_nat n) n (fold (tests_step (of_nat n)) sched s)"
    "\<forall>i<n. tpc (fold (tests_step (of_nat n)) sched s) i = 9"
    using reach_tests [OF s(1) n0 assms(2), of 9] by auto
  have "per_cpu_counters (fold (tests_step (of_nat n)) sched s) ! i = 1000000" if "i < n" for i
    using counters_late [OF sched(2) n0 assms(2) n0 _ that] sched(3) n0 that by simp
  then show ?thesis
    using s(1,2) e r sched(1) by blast
qed


section \<open>The whole boot\<close>

lemma apic_init_more: "apic.more (apic_init k) = apic.more k"
proof -
  have w: "apic.more (apic_write r v k) = apic.more k" "apic.more (snd (apic_read r k)) = apic.more k" for r v and k :: "'a apic_scheme"
    by (simp_all add: apic_write_same [THEN apic_sameD(8)] apic_read_same [THEN apic_sameD(8)])
  have d: "apic.more (disable_pic k) = apic.more k" for k :: "'a apic_scheme"
    by (simp add: disable_pic_def Let_def)
  show ?thesis
    by (simp add: apic_init_def Let_def case_prod_unfold w d)
qed

lemma setup_trampoline_more: "apic.more (setup_trampoline ld k) = apic.more k"
  by (simp add: setup_trampoline_def Let_def wbinvd_def)

lemma timer_init_more: "apic.more (apic_timer_init k) = apic.more k"
proof -
  have w: "apic.more (timer_reg_write m r v k) = apic.more k" for m r v and k :: "'a apic_scheme"
    by (simp add: timer_reg_write_def apic_write_same [THEN apic_sameD(8)])
  have d: "apic.more (debug_read i m r k) = apic.more k" for i m r and k :: "'a apic_scheme"
    by (simp add: debug_read_def Let_def case_prod_unfold apic_read_same [THEN apic_sameD(8)])
  show ?thesis
    by (simp add: apic_timer_init_def Let_def w d)
qed


lemma report_cpus_more: "cpu_count (kernel_report_cpus n k) = cpu_count k" "cpu_apic_ids (kernel_report_cpus n k) = cpu_apic_ids k"
  by (simp_all add: kernel_report_cpus_def Let_def kprint_def)

lemma start_timer_more: "cpu_count (kernel_start_timer k) = cpu_count k" "cpu_apic_ids (kernel_start_timer k) = cpu_apic_ids k"
proof -
  have r: "apic.more (snd (apic_read r k)) = apic.more k" for r and k :: "'b apic_scheme"
    by (simp add: apic_read_same [THEN apic_sameD(8)])
  have "apic.more (kernel_start_timer k) = apic.more k"
    by (simp add: kernel_start_timer_def Let_def case_prod_unfold r timer_init_more)
  then show "cpu_count (kernel_start_timer k) = cpu_count k" "cpu_apic_ids (kernel_start_timer k) = cpu_apic_ids k"
    by (rule smp_more_fields)+
qed

lemma run_tests_more: "cpu_count (kernel_run_tests k) = cpu_count k"
  by (simp add: kernel_run_tests_def Let_def cpu_do_def)

lemma start_cpus_count:
  assumes "cpu_count k = of_nat n" "1 \<le> n" "n \<le> 16"
  shows "\<exists>k'. kernel_start_cpus ld k = Inr k' \<and> cpu_count k' = of_nat n \<and> cpus_online k' = 1 \<and> cpu_apic_ids k' = cpu_apic_ids k"
proof -
  define k2 where "k2 = kprint [Ln (newline_char # ''[SMP] Starting AP boot sequence...'')] (setup_trampoline ld (apic_init k))"
  have "apic.more k2 = apic.more k"
    by (simp add: k2_def setup_trampoline_more apic_init_more)
  then have k2: "cpu_count k2 = of_nat n" "cpu_apic_ids k2 = cpu_apic_ids k"
    using smp_more_fields assms(1) by metis+
  then obtain k' where "boot_all_aps ld k2 = Inr k'" "apic.more k' = apic.more (k2\<lparr>cpus_online := 1\<rparr>)"
    using boot_all_effect [of k2 n ld] assms by blast
  moreover from this(2) have "cpu_count k' = cpu_count k2 \<and> cpus_online k' = 1 \<and> cpu_apic_ids k' = cpu_apic_ids k2"
    by (cases k', cases k2) simp
  ultimately show ?thesis
    using k2 by (simp add: kernel_start_cpus_def Let_def k2_def)
qed

lemma kernel_main_started:
  assumes "kernel_init_memory ld sh mb k = Inr k1" and "kernel_find_cpus (kernel_init_tables ld k1) = Inr (Returns k2)"
  shows "kernel_main ld sh mb e k = (case kernel_start_cpus ld k2 of Inl f \<Rightarrow> Inl f | Inr k \<Rightarrow>
    case kernel_results e (kernel_run_tests (kernel_start_timer (kernel_report_cpus (aps_started e) k))) of Inl f \<Rightarrow> Inl f | Inr k \<Rightarrow>
    case kernel_timer_report e k of Inl f \<Rightarrow> Inl f | Inr k \<Rightarrow> Inr (kernel_done k))"
  using assms unfolding kernel_main_def Let_def by simp

lemma start_cpus_overflow:
  assumes "16 < sint (cpu_count k)"
  shows "kernel_start_cpus ld k = Inl OutOfBounds"
proof -
  define k2 where "k2 = kprint [Ln (newline_char # ''[SMP] Starting AP boot sequence...'')] (setup_trampoline ld (apic_init k))"
  have "apic.more k2 = apic.more k"
    by (simp add: k2_def setup_trampoline_more apic_init_more)
  then have "16 < sint (cpu_count k2)"
    using smp_more_fields(1) assms by metis
  then show ?thesis
    by (simp add: kernel_start_cpus_def Let_def k2_def boot_all_overflow)
qed

lemma kernel_done_text: "\<exists>pre. kernel_done k = Halts (kprint (pre @ [Ln ''System halted successfully.'']) k)"
  by (simp add: kernel_done_def Let_def kprint_kprint)
    (metis append_Cons append_Nil)

lemma kernel_main_results:
  assumes boot: "kernel_init_memory ld sh mb k = Inr k1" "kernel_find_cpus (kernel_init_tables ld k1) = Inr (Returns k2)"
    and e: "env_sizes e" and n: "cpu_count k2 = of_nat n" "1 \<le> n" "n \<le> 16"
  shows "\<exists>k' c mid1 mid2. kernel_main ld sh mb e k = Inr (Halts k')
    \<and> con k' = say (text_1 e n @ text_2 e n @ text_3 e n @ verdict_text (all_good e n) @ mid1 @ timer_text e n
        @ mid2 @ [Ln ''System halted successfully.'']) c"
proof -
  obtain k3 where k3: "kernel_start_cpus ld k2 = Inr k3" "cpu_count k3 = of_nat n"
    using start_cpus_count [OF n] by blast
  define k4 where "k4 = kernel_run_tests (kernel_start_timer (kernel_report_cpus (aps_started e) k3))"
  have c4: "cpu_count k4 = of_nat n"
    using k3(2) by (simp add: k4_def run_tests_more start_timer_more report_cpus_more)
  let ?k5 = "kprint (text_1 e n @ text_2 e n @ text_3 e n @ verdict_text (all_good e n)) k4"
  have r5: "kernel_results e k4 = Inr ?k5"
    using results_text [OF c4 n(3) e] .
  have c5: "cpu_count ?k5 = of_nat n"
    using c4 by simp
  define mid1 where "mid1 = [Ln '''', rule_line, Ln ''  APIC Timer Test'', rule_line, Ln '''',
       Ln ''[TIMER] Waiting 2 seconds to collect timer ticks...'']"
  define k6 where "k6 = kprint (timer_text e n) (cpu_do (Pauses 20000000) (kprint mid1 ?k5))"
  have k6: "kernel_timer_report e ?k5 = Inr k6" "con k6 = say (mid1 @ timer_text e n) (con ?k5)"
    using timer_report_text [OF c5 n(3) e] by (simp_all add: k6_def mid1_def)
  obtain mid2 where k7: "kernel_done k6 = Halts (kprint (mid2 @ [Ln ''System halted successfully.'']) k6)"
    using kernel_done_text by blast
  have "kernel_main ld sh mb e k = Inr (Halts (kprint (mid2 @ [Ln ''System halted successfully.'']) k6))"
    using kernel_main_started [OF boot] k3(1) r5 k6(1) k7 by (simp add: k4_def)
  moreover have "con (kprint (mid2 @ [Ln ''System halted successfully.'']) k6)
      = say (text_1 e n @ text_2 e n @ text_3 e n @ verdict_text (all_good e n) @ mid1 @ timer_text e n
        @ mid2 @ [Ln ''System halted successfully.'']) (con k4)"
    by (simp add: k6(2))
  ultimately show ?thesis by blast
qed


lemma set_gate_frame [simp]:
  "mem (idt_set_gate num h sel fl k) = mem k" "con (idt_set_gate num h sel fl k) = con k"
  "cpu_log (idt_set_gate num h sel fl k) = cpu_log k"
  by (simp_all add: idt_set_gate_def)

lemma set_gates_frame [simp]:
  "mem (fold (\<lambda>n. idt_set_gate (num n) (h n) sel fl) xs k) = mem k"
  "con (fold (\<lambda>n. idt_set_gate (num n) (h n) sel fl) xs k) = con k"
  "cpu_log (fold (\<lambda>n. idt_set_gate (num n) (h n) sel fl) xs k) = cpu_log k"
  by (induction xs arbitrary: k) simp_all

lemma idt_init_frame: "mem (idt_init ld k) = mem k" "con (idt_init ld k) = con k"
  "cpu_log (idt_init ld k) = cpu_log k @ [Lidt 4095 (idt_sym ld)]"
  by (simp_all add: idt_init_def Let_def idt_load_def cpu_do_def for_up_fold)

text \<open>Without a root pointer or a MADT the kernel stops before it touches any other processor: it
  halts with an error message, and of all the control operations only the descriptor table has been
  loaded since the memory was set up; interrupts are still off.\<close>

theorem kernel_halts_without_cpus:
  assumes "kernel_init_memory ld sh mb k = Inr k1"
    and "acpi_find_rsdp (mem k1) = 0 \<or> acpi_find_madt (mem k1) (acpi_find_rsdp (mem k1)) = 0"
  shows "\<exists>k' pre what. kernel_main ld sh mb e k = Inr (Halts k') \<and> mem k' = mem k1
    \<and> cpu_log k' = cpu_log k1 @ [Lidt 4095 (idt_sym ld)]
    \<and> con k' = say (pre @ [Ln (''[ERROR] '' @ what @ '' not found!''), Ln ''System halted.'']) (con k1)
    \<and> what \<in> {''RSDP'', ''MADT''}"
proof -
  obtain pre where t: "con (kernel_init_tables ld k1) = say pre (con k1)" "mem (kernel_init_tables ld k1) = mem k1"
    "cpu_log (kernel_init_tables ld k1) = cpu_log k1 @ [Lidt 4095 (idt_sym ld)]"
    by (simp add: kernel_init_tables_def Let_def idt_init_frame calibrate_tsc_def)
  show ?thesis
  proof (cases "acpi_find_rsdp (mem k1) = 0")
    case True
    let ?s = "kprint [Ln (newline_char # ''[ACPI] Searching for RSDP...''),
        Ln ''[ERROR] RSDP not found!'', Ln ''System halted.''] (kernel_init_tables ld k1)"
    have "kernel_main ld sh mb e k = Inr (Halts ?s)"
      using True assms(1) t(2) by (simp add: kernel_main_def kernel_find_cpus_def kprint_kprint)
    then show ?thesis
      using t by (intro exI [of _ ?s] exI [of _ "pre @ [Ln (newline_char # ''[ACPI] Searching for RSDP...'')]"] exI [of _ "''RSDP''"]) simp
  next
    case False
    let ?s = "kprint [Ln (newline_char # ''[ACPI] Searching for RSDP...''),
        Ln ''[ACPI] RSDP found!'', Ln ''[ACPI] Searching for MADT...'',
        Ln ''[ERROR] MADT not found!'', Ln ''System halted.''] (kernel_init_tables ld k1)"
    have "kernel_main ld sh mb e k = Inr (Halts ?s)"
      using False assms t(2) by (simp add: kernel_main_def kernel_find_cpus_def Let_def kprint_kprint)
    then show ?thesis
      using t by (intro exI [of _ ?s] exI [of _ "pre @ [Ln (newline_char # ''[ACPI] Searching for RSDP...''),
        Ln ''[ACPI] RSDP found!'', Ln ''[ACPI] Searching for MADT...'']"] exI [of _ "''MADT''"]) simp
  qed
qed


section \<open>Two machines\<close>

lemma checksum_cong:
  assumes "\<And>i. i < n \<Longrightarrow> m (p + of_nat i) = m' (p + of_nat i)"
  shows "checksum_loop n m p acc = checksum_loop n m' p acc"
  using assms by (simp add: checksum_loop_sum)

lemma checksum_list: "checksum_loop n m p 0 = sum_list (map (\<lambda>i. m (p + of_nat i)) [0..<n])"
  by (simp add: checksum_loop_sum interv_sum_list_conv_sum_set_nat atLeast0LessThan)

lemma below_offset: "unat a + n \<le> N \<Longrightarrow> i < n \<Longrightarrow> N < 2 ^ 32 \<Longrightarrow> unat (a + of_nat i :: u64) < N"
  using unat_add_const_lt [of a i] by simp

lemma acpi_agree:
  assumes same: "\<And>x. unat x < 0x100000 \<Longrightarrow> m' x = m x" and a: "unat a + n \<le> 0x100000"
  shows "load_le n m' a = load_le n m a" "checksum_loop n m' a acc = checksum_loop n m a acc"
  using same below_offset [OF a] by (auto intro!: load_le_cong checksum_cong)

lemma acpi_load32: "(\<And>x. unat x < 0x100000 \<Longrightarrow> m' x = m x) \<Longrightarrow> unat a + 4 \<le> 0x100000 \<Longrightarrow> load32 m' a = load32 m a"
  unfolding load32_def by (rule acpi_agree(1))

text \<open>The machine of theory \<^verbatim>\<open>Boot_Memory\<close>, whose root table is empty, and one whose root table leads
  to a MADT with one processor.\<close>

definition one_cpu_mem :: memory where
  "one_cpu_mem = boot_mem(0xE0008 := 97, 0xE0011 := 0x80, 0x8004 := 40, 0x8009 := 104, 0x8025 := 0x70,
     0x7000 := 0x41, 0x7001 := 0x50, 0x7002 := 0x49, 0x7003 := 0x43, 0x7004 := 52, 0x702D := 8, 0x702F := 5, 0x7030 := 1)"

definition main_demo :: "memory \<Rightarrow> smp" where
  "main_demo m = (smp_demo 0)\<lparr>mem := m, total_memory := 0, cr3 := 0x100000\<rparr>"

lemma main_demo_sel: "mem (main_demo m) = m" "total_memory (main_demo m) = 0" "cr3 (main_demo m) = 0x100000"
  "length (cpu_apic_ids (main_demo m)) = 16"
  using smp_demo_sel(4) [of 0] by (simp_all add: main_demo_def)

lemma demo_below: "unat x < 0x100000 \<Longrightarrow> x < 0x101000 \<and> \<not> in_range (frame_of 0x100000 + 8 * 511) 8 x"
proof -
  assume x: "unat x < 0x100000"
  have "frame_of 0x100000 + 8 * 511 = 0x100FF8"
    by (simp add: frame_of_def frame_mask_def)
  then show ?thesis
    using x in_range_below [of x "0x100FF8" 8] by (simp add: word_less_nat_alt)
qed

lemma main_demo_boots:
  assumes "boot_ok small_layout 0x9000 1 (boot_demo m)" "bitmap_address small_layout 0x9000 m = 0x101000"
  obtains k1 where "kernel_init_memory small_layout shifts_64 0x9000 (main_demo m) = Inr k1"
    "\<And>x. unat x < 0x100000 \<Longrightarrow> mem k1 x = m x" "length (cpu_apic_ids k1) = 16"
proof -
  have ok: "boot_ok small_layout 0x9000 1 (main_demo m)"
    using assms(1) boot_ok_cong(1) [of "main_demo m" "boot_demo m"] by (simp add: main_demo_sel boot_demo_sel)
  obtain k1 where k1: "kernel_init_memory small_layout shifts_64 0x9000 (main_demo m) = Inr k1" "vmm.more k1 = vmm.more (main_demo m)"
    "\<forall>x. x < 0x101000 \<and> \<not> in_range (frame_of 0x100000 + 8 * 511) 8 x \<longrightarrow> mem k1 x = m x"
    using boot_memory_effect [OF ok, of shifts_64] unfolding main_demo_sel assms(2) by blast
  have "mem k1 x = m x" if "unat x < 0x100000" for x
    using k1(3) demo_below [OF that] by blast
  moreover have "length (cpu_apic_ids k1) = 16"
    using k1(2) main_demo_sel(4) [of m] by (cases k1, cases "main_demo m") simp
  ultimately show thesis
    using that k1(1) by blast
qed

lemma one_cpu_ok: "boot_ok small_layout 0x9000 1 (boot_demo one_cpu_mem)" "bitmap_address small_layout 0x9000 one_cpu_mem = 0x101000"
  by (rule boot_demo_ok; simp add: map_loads one_cpu_mem_def boot_mem_def small_map_def bytes_at_def)+

lemma rsdp_found:
  assumes same: "\<And>x. unat x < 0x100000 \<Longrightarrow> m x = m0 x" and sig: "rsdp_signature m0 0xE0000" "checksum_loop 20 m0 0xE0000 0 = 0"
  shows "acpi_find_rsdp m = 0xE0000"
proof -
  have "rsdp_signature m 0xE0000"
    using sig(1) by (simp add: rsdp_signature_def same)
  moreover have "acpi_checksum m 0xE0000 20"
    using sig(2) acpi_agree(2) [of m m0 "0xE0000" 20 0] same by (simp add: acpi_checksum_def)
  ultimately have "find_rsdp_loop m 0xE0000 = Some 0xE0000"
    by (subst find_rsdp_loop.simps) (simp add: ACPI_SEARCH_END_def)
  then show ?thesis
    by (simp add: acpi_find_rsdp_def ACPI_SEARCH_START_def)
qed

lemma boot_mem_acpi:
  assumes same: "\<And>x. unat x < 0x100000 \<Longrightarrow> m x = boot_mem x"
  shows "acpi_find_rsdp m = 0xE0000" "acpi_find_madt m 0xE0000 = 0"
proof -
  have "checksum_loop 20 boot_mem 0xE0000 0 = 0"
    unfolding checksum_list
    by (simp add: upt_conv_Cons boot_mem_def small_map_def bytes_at_def)
  moreover have "rsdp_signature boot_mem 0xE0000"
    by (simp add: rsdp_signature_def boot_mem_def byte_of_def)
  ultimately show "acpi_find_rsdp m = 0xE0000"
    using rsdp_found [of m boot_mem] same by blast
  have "load32 boot_mem 0xE0010 = 0" "load32 boot_mem 4 = 0" "boot_mem 0xE000F = 0"
    by (simp_all add: load_bytes boot_mem_def small_map_def bytes_at_def)
  then have "root_table m 0xE0000 = 0" "sdt_length m 0 = 0"
    using acpi_load32 [of m boot_mem] same
    by (simp_all add: root_table_def rsdp_revision_def rsdp_rsdt_address_def sdt_length_def)
  then show "acpi_find_madt m 0xE0000 = 0"
    by (simp add: acpi_find_madt_def Let_def acpi_checksum_def)
qed

theorem kernel_halts_without_cpus_witness:
  "\<exists>k'. kernel_main small_layout shifts_64 0x9000 (env_of tests_init) (main_demo boot_mem) = Inr (Halts k')"
proof -
  obtain k1 where k1: "kernel_init_memory small_layout shifts_64 0x9000 (main_demo boot_mem) = Inr k1"
    "\<And>x. unat x < 0x100000 \<Longrightarrow> mem k1 x = boot_mem x"
    using main_demo_boots [OF boot_mem_ok] by blast
  then show ?thesis
    using kernel_halts_without_cpus [OF k1(1), of "env_of tests_init"] boot_mem_acpi [OF k1(2)] by auto
qed


lemma one_cpu_acpi:
  assumes same: "\<And>x. unat x < 0x100000 \<Longrightarrow> m x = one_cpu_mem x"
  shows "acpi_find_rsdp m = 0xE0000" "acpi_find_madt m 0xE0000 = 0x7000" "sdt_length m 0x7000 = 52"
    "madt_list m 0x7034 0x702C [0x702C]" "enabled_ids m [0x702C] = [5]"
proof -
  note mems = one_cpu_mem_def boot_mem_def small_map_def bytes_at_def
  have "checksum_loop 20 one_cpu_mem 0xE0000 0 = 0"
    unfolding checksum_list by (simp add: upt_conv_Cons mems)
  moreover have "rsdp_signature one_cpu_mem 0xE0000"
    by (simp add: rsdp_signature_def mems byte_of_def)
  ultimately show "acpi_find_rsdp m = 0xE0000"
    using rsdp_found [of m one_cpu_mem] same by blast
  have l: "load32 one_cpu_mem 0xE0010 = 0x8000" "load32 one_cpu_mem 0x8004 = 40" "load32 one_cpu_mem 0x8024 = 0x7000"
    "load32 one_cpu_mem 0x7004 = 52" "load32 one_cpu_mem 0x7030 = 1"
    by (simp_all add: load_bytes mems)
  have b: "one_cpu_mem 0xE000F = 0" "one_cpu_mem 0x7000 = 0x41" "one_cpu_mem 0x7001 = 0x50" "one_cpu_mem 0x7002 = 0x49"
    "one_cpu_mem 0x7003 = 0x43" "one_cpu_mem 0x702C = 0" "one_cpu_mem 0x702D = 8" "one_cpu_mem 0x702F = 5"
    by (simp_all add: mems)
  note ld = acpi_load32 [of m one_cpu_mem, OF same]
  have root: "root_table m 0xE0000 = 0x8000" "sdt_length m 0x8000 = 40"
    using ld l b same by (simp_all add: root_table_def rsdp_revision_def rsdp_rsdt_address_def sdt_length_def)
  have "checksum_loop 40 one_cpu_mem 0x8000 0 = 0"
    unfolding checksum_list by (simp add: upt_conv_Cons mems)
  then have "checksum_loop 40 m 0x8000 0 = 0"
    using acpi_agree(2) [of m one_cpu_mem "0x8000" 40 0] same by simp
  then have chk: "acpi_checksum m 0x8000 40"
    by (simp add: acpi_checksum_def)
  have "madt_signature m 0x7000"
    using b same by (simp add: madt_signature_def byte_of_def)
  then have "find_up 0 (1 :: u32) (\<lambda>i. madt_signature m (ucast (load32 m (0x8024 + 4 * ucast i)))) = Some 0"
    using ld [of "0x8024"] l by (subst find_up.simps) simp
  then show "acpi_find_madt m 0xE0000 = 0x7000"
    using ld [of "0x8024"] l by (simp add: acpi_find_madt_def Let_def root chk)
  show "sdt_length m 0x7000 = 52"
    using ld l by (simp add: sdt_length_def)
  have "madt_list m 0x7034 0x7034 []"
    by (rule madt_end) simp
  then show "madt_list m 0x7034 0x702C [0x702C]"
    using b same by (intro madt_next) simp_all
  show "enabled_ids m [0x702C] = [5]"
    using ld l b same by (simp add: enabled_ids_def lapic_flags_def lapic_apic_id_def)
qed

lemma one_cpu_found:
  assumes same: "\<And>x. unat x < 0x100000 \<Longrightarrow> mem k x = one_cpu_mem x" and len: "length (cpu_apic_ids k) = 16"
  obtains k2 where "kernel_find_cpus k = Inr (Returns k2)" "cpu_count k2 = 1"
proof -
  note a = one_cpu_acpi [OF same]
  let ?k = "kprint [Ln ''[ACPI] MADT found!'', Ln ''[ACPI] Parsing MADT entries...'']
    (kprint [Ln ''[ACPI] RSDP found!'', Ln ''[ACPI] Searching for MADT...'']
      (kprint [Ln (newline_char # ''[ACPI] Searching for RSDP...'')] k))"
  have len': "length (cpu_apic_ids ?k) = 16"
    using len by (simp add: kprint_def)
  obtain k2 where "acpi_parse_madt 0x7000 ?k = Some (1, k2)"
    using madt_loop_list [OF a(4) _ len', of 0] a(3,5) by (auto simp: acpi_parse_madt_def Let_def)
  then show thesis
    using that [of "kprint [S (newline_char # ''[ACPI] Detected ''), D 1, Ln '' CPU(s)''] (k2\<lparr>cpu_count := 1\<rparr>)"] a(1,2)
    by (simp add: kernel_find_cpus_def Let_def)
qed


lemma tables_ids: "cpu_apic_ids (kernel_init_tables ld k) = cpu_apic_ids k"
proof -
  have f: "idt_state.more (fold (\<lambda>n. idt_set_gate (num n) (h n) sel fl) xs k) = idt_state.more k" for num :: "nat \<Rightarrow> u8" and h sel fl xs
    and k :: "'b idt_state_scheme"
    by (induction xs arbitrary: k) (simp_all add: idt_set_gate_def)
  have m: "idt_state.more (kprint ms k) = idt_state.more k" "idt_state.more (cpu_do io k) = idt_state.more k"
    "idt_state.more (idt_set_gate num h sel fl k) = idt_state.more k" for ms io num h sel fl and k :: "'b idt_state_scheme"
    by (simp_all add: kprint_def cpu_do_def idt_set_gate_def)
  have "idt_state.more (kernel_init_tables ld k) = idt_state.more k"
    by (simp add: kernel_init_tables_def Let_def m calibrate_tsc_def idt_init_def idt_load_def for_up_fold f)
  then show ?thesis
    by (cases "kernel_init_tables ld k", cases k) simp
qed

lemma one_cpu_boots:
  obtains k1 k2 where "kernel_init_memory small_layout shifts_64 0x9000 (main_demo one_cpu_mem) = Inr k1"
    "kernel_find_cpus (kernel_init_tables small_layout k1) = Inr (Returns k2)" "cpu_count k2 = of_nat 1"
proof -
  obtain k1 where k1: "kernel_init_memory small_layout shifts_64 0x9000 (main_demo one_cpu_mem) = Inr k1"
    "\<And>x. unat x < 0x100000 \<Longrightarrow> mem k1 x = one_cpu_mem x" "length (cpu_apic_ids k1) = 16"
    using main_demo_boots [OF one_cpu_ok] by blast
  have "mem (kernel_init_tables small_layout k1) = mem k1"
    by (simp add: kernel_init_tables_def Let_def idt_init_frame calibrate_tsc_def)
  then obtain k2 where "kernel_find_cpus (kernel_init_tables small_layout k1) = Inr (Returns k2)" "cpu_count k2 = 1"
    using one_cpu_found [of "kernel_init_tables small_layout k1"] k1(2,3) by (auto simp: tables_ids)
  then show thesis
    using that [OF k1(1)] by simp
qed


theorem finished_tests_pass_witness:
  "\<exists>s k'. tests_run (of_nat 3) 3 s \<and> kernel_results (env_of s) ((main_demo boot_mem)\<lparr>cpu_count := of_nat 3\<rparr>) = Inr k'"
proof -
  obtain s where s: "tests_run (of_nat 3) 3 s" "\<forall>i<3. tpc s i = 9"
    using tests_reach [of 3 9] by auto
  have "displays (env_of s) s"
    using tests_run_inv [OF s(1) refl] by (intro displays_env_of [of 3]) simp
  from finished_tests_pass [OF s(1) _ _ s(2) this, of "(main_demo boot_mem)\<lparr>cpu_count := of_nat 3\<rparr>"] s(1)
  show ?thesis by auto
qed

theorem early_display_fails_witness:
  "\<exists>s e k'. tests_run (of_nat 2) 2 s \<and> displays e s \<and> kernel_results e ((main_demo boot_mem)\<lparr>cpu_count := of_nat 2\<rparr>) = Inr k'"
  using early_display_fails [of 2 "(main_demo boot_mem)\<lparr>cpu_count := of_nat 2\<rparr>"] by auto

end
