(* ===== verification/Hybrid.thy ===== *)
theory Hybrid
  imports Kernel_Main
begin

text \<open>
  The bootstrap of the hybrid kernel: \<^verbatim>\<open>hybrid/boot/init.c\<close>, \<^verbatim>\<open>hybrid/boot/services.c\<close> and
  \<^verbatim>\<open>hybrid/shared/boot_info.h\<close>.

  \<^verbatim>\<open>init.c\<close> is \<^verbatim>\<open>minimal_step9.c\<close> up to \<open>kernel_main\<close>: its functions up to \<open>kfree\<close> are the same text, so
  the definitions of the earlier theories are theirs too.  What it adds is here: \<open>detect_cpu_features\<close>,
  a \<open>kernel_main\<close> that loads the interrupt table before it sets up the memory and ends by passing a
  \<open>BootInfo\<close> to the Zig kernel instead of running the tests, and the services that the Zig kernel calls
  back.  The Zig code itself is outside: \<open>HandsOff\<close> is the call of \<open>zig_kernel_main\<close>.
\<close>

section \<open>Processor features\<close>

text \<open>The bytes of the check mark in UTF-8.\<close>

definition check_mark :: string where
  "check_mark = ''  ['' @ [char_of (0xE2 :: nat), char_of (0x9C :: nat), char_of (0x93 :: nat)] @ ''] ''"

definition features_edx :: "(nat \<times> string) list" where
  "features_edx = [(0, ''FPU - x87 Floating Point Unit''), (4, ''TSC - Time Stamp Counter''), (5, ''MSR - Model Specific Registers''),
     (6, ''PAE - Physical Address Extension''), (8, ''CX8 - CMPXCHG8B''), (9, ''APIC - On-chip APIC''),
     (13, ''PGE - Page Global Enable''), (15, ''CMOV - Conditional Move''), (23, ''MMX - MMX instructions''),
     (24, ''FXSR - FXSAVE/FXRSTOR''), (25, ''SSE - Streaming SIMD Extensions''), (26, ''SSE2 - Streaming SIMD Extensions 2'')]"

definition features_ecx :: "(nat \<times> string) list" where
  "features_ecx = [(0, ''SSE3 - Streaming SIMD Extensions 3''), (9, ''SSSE3 - Supplemental SSE3''),
     (19, ''SSE4.1 - Streaming SIMD Extensions 4.1''), (20, ''SSE4.2 - Streaming SIMD Extensions 4.2''),
     (21, ''x2APIC - Extended xAPIC''), (23, ''POPCNT - Population Count''), (28, ''AVX - Advanced Vector Extensions'')]"

definition features_ext :: "(nat \<times> string) list" where
  "features_ext = [(11, ''SYSCALL/SYSRET''), (20, ''NX - No-Execute bit''), (26, ''1GB Pages''), (27, ''RDTSCP''),
     (29, ''Long Mode (64-bit)'')]"

text \<open>The \<open>if (reg & (1 << b)) puts(...)\<close> statements of one register, in order.\<close>

definition report_features :: "u32 \<Rightarrow> (nat \<times> string) list \<Rightarrow> 'a machine_scheme \<Rightarrow> 'a machine_scheme" where
  "report_features reg table k =
     fold (\<lambda>(b, name) k. if reg AND push_bit b 1 \<noteq> 0 then kprint [Ln (check_mark @ name)] k else k) table k"

text \<open>\<open>vendor\<close>: twelve bytes from EBX, EDX and ECX, the lowest byte first, and a NUL; \<open>puts\<close> stops at the
  first NUL.\<close>

definition reg_chars :: "u32 \<Rightarrow> string" where
  "reg_chars r = map (\<lambda>i. char_of (unat (drop_bit (8 * i) r AND 0xFF))) [0..<4]"

definition vendor_string :: "u32 \<Rightarrow> u32 \<Rightarrow> u32 \<Rightarrow> string" where
  "vendor_string ebx ecx edx = takeWhile (\<lambda>ch. ch \<noteq> char_of (0 :: nat)) (reg_chars ebx @ reg_chars edx @ reg_chars ecx)"

definition detect_cpu_features :: "'a cpu_scheme \<Rightarrow> 'a cpu_scheme" where
  "detect_cpu_features k =
     (let k = kprint [Ln (newline_char # ''[CPU] Detecting CPU features...'')] k;
          (eax, ebx, ecx, edx) = cpuid 0 k;
          max_basic_leaf = eax;
          k = kprint [S ''[CPU] Vendor: '', S (vendor_string ebx ecx edx), Ln ''''] k;
          k = (if 1 \<le> max_basic_leaf then
                 let (eax, ebx, ecx, edx) = cpuid 1 k;
                     k = kprint [Ln ''[CPU] Features detected:''] k;
                     k = report_features edx features_edx k
                 in report_features ecx features_ecx k
               else k);
          (eax, ebx, ecx, edx) = cpuid 0x80000000 k;
          max_ext_leaf = eax;
          k = (if 0x80000001 \<le> max_ext_leaf then
                 let (eax, ebx, ecx, edx) = cpuid 0x80000001 k
                 in report_features edx features_ext k
               else k)
      in kprint [Ln ''''] k)"

section \<open>Services for the Zig kernel\<close>

text \<open>The string is read from memory up to a zero byte; without one the loop goes round the address
  space for ever, and the value is \<open>None\<close>.\<close>

partial_function (option) c_write_serial :: "u64 \<Rightarrow> 'a machine_scheme \<Rightarrow> 'a machine_scheme option" where
  "c_write_serial str k =
     (if mem k str = 0 then Some k
      else c_write_serial (str + 1) (k\<lparr>con := outb COM1 (mem k str) (putc_wait (con k))\<rparr>))"

text \<open>\<open>digit\<close> is a variable on the stack, at \<open>sp\<close>; it is stored and its address passed as a string.
  \<open>prefix_at\<close> is where the literal \<open>0x\<close> lies.  The loop variable goes from 60 down to 0 in steps of 4.\<close>

fun write_digits :: "nat \<Rightarrow> u64 \<Rightarrow> u64 \<Rightarrow> 'a machine_scheme \<Rightarrow> 'a machine_scheme option" where
  "write_digits 0 sp value k = Some k"
| "write_digits (Suc n) sp value k =
     (let digit = ''0123456789ABCDEF'' ! unat (drop_bit (4 * n) value AND 0xF);
          k = k\<lparr>mem := (mem k)(sp := byte_of digit)\<rparr>
      in case c_write_serial sp k of None \<Rightarrow> None | Some k \<Rightarrow> write_digits n sp value k)"

definition c_write_serial_hex :: "u64 \<Rightarrow> u64 \<Rightarrow> u64 \<Rightarrow> 'a machine_scheme \<Rightarrow> 'a machine_scheme option" where
  "c_write_serial_hex prefix_at sp value k =
     (case c_write_serial prefix_at k of None \<Rightarrow> None | Some k \<Rightarrow> write_digits 16 sp value k)"

definition c_send_eoi :: "'a apic_scheme \<Rightarrow> 'a apic_scheme" where
  "c_send_eoi k =
     (if use_x2apic k then wrmsr 0x80B 0 k
      else cpu_do (MmioWrite (0xFEE00000 + 0xB0) 0) (k\<lparr>mmio := (mmio k)(0xFEE00000 + 0xB0 := 0)\<rparr>))"

definition c_kmalloc :: "u64 \<Rightarrow> 'a heap_scheme \<Rightarrow> u64 \<times> 'a heap_scheme" where
  "c_kmalloc n k = kmalloc n k"

definition c_kfree :: "u64 \<Rightarrow> 'a heap_scheme \<Rightarrow> 'a heap_scheme" where
  "c_kfree ptr k = kfree ptr k"

section \<open>The boot information\<close>

record cpu_info =
  ci_apic_id :: u8
  ci_stack_top :: u64
  ci_online :: bool

record boot_info =
  bi_cpu_count :: u32
  bi_bsp_apic_id :: u32
  bi_use_x2apic :: bool
  bi_kernel_phys_start :: u64
  bi_kernel_phys_end :: u64
  bi_free_mem_start :: u64
  bi_free_mem_size :: u64
  bi_pmm_bitmap :: u64
  bi_pmm_bitmap_size :: u32
  bi_pml4_physical :: u64
  bi_rsdp_address :: u64
  bi_madt_address :: u64
  bi_idt_base :: u64
  bi_idt_limit :: u16
  bi_idt_loaded :: bool
  bi_cpus :: "cpu_info list"
  bi_apic_base :: u64
  bi_serial_initialized :: bool

text \<open>The initialiser: the members that it does not name are zero.\<close>

definition boot_info_of :: "layout \<Rightarrow> u64 \<Rightarrow> u64 \<Rightarrow> 'a smp_scheme \<Rightarrow> boot_info" where
  "boot_info_of ld rsdp madt k =
     \<lparr>bi_cpu_count = cpu_count k, bi_bsp_apic_id = ucast (cpu_apic_ids k ! 0), bi_use_x2apic = use_x2apic k,
      bi_kernel_phys_start = kernel_start ld, bi_kernel_phys_end = kernel_end ld,
      bi_free_mem_start = pmm_bitmap k + bitmap_size k, bi_free_mem_size = usable_memory k,
      bi_pmm_bitmap = pmm_bitmap k, bi_pmm_bitmap_size = ucast (bitmap_size k),
      bi_pml4_physical = cr3 k AND 0xFFFFFFFFF000, bi_rsdp_address = rsdp, bi_madt_address = madt,
      bi_idt_base = idt_sym ld, bi_idt_limit = idtr_limit k, bi_idt_loaded = True,
      bi_cpus = replicate (unat MAX_CPUS) \<lparr>ci_apic_id = 0, ci_stack_top = 0, ci_online = False\<rparr>,
      bi_apic_base = apic_base k, bi_serial_initialized = True\<rparr>"

text \<open>The loop over the processors.  \<open>online i\<close> is the value of \<open>cpus_online\<close> when it is read for
  processor \<open>i\<close>: others may still be starting.  An index past the arrays is a fault.\<close>

definition fill_cpu :: "layout \<Rightarrow> (u32 \<Rightarrow> u32) \<Rightarrow> 'a smp_scheme \<Rightarrow> u32 \<Rightarrow> boot_info \<Rightarrow> fault + boot_info" where
  "fill_cpu ld online k i b =
     (if unat i < length (bi_cpus b) \<and> unat i < length (cpu_apic_ids k) then
        Inr (b\<lparr>bi_cpus := (bi_cpus b)[unat i := \<lparr>ci_apic_id = cpu_apic_ids k ! unat i,
          ci_stack_top = ap_stacks_sym ld + ucast i * AP_STACK_SIZE + AP_STACK_SIZE, ci_online = (i = 0 \<or> i < online i)\<rparr>]\<rparr>)
      else Inl OutOfBounds)"

definition fill_boot_info :: "layout \<Rightarrow> (u32 \<Rightarrow> u32) \<Rightarrow> u64 \<Rightarrow> u64 \<Rightarrow> 'a smp_scheme \<Rightarrow> fault + boot_info" where
  "fill_boot_info ld online rsdp madt k = for_cpus (cpu_count k) (fill_cpu ld online k) (boot_info_of ld rsdp madt k)"

section \<open>The bootstrap\<close>

definition init_memory :: "layout \<Rightarrow> pt_shifts \<Rightarrow> u64 \<Rightarrow> 'a idt_state_scheme \<Rightarrow> fault + 'a idt_state_scheme" where
  "init_memory ld sh multiboot_addr k =
     (let k = k\<lparr>con := serial_init (con k)\<rparr>;
          k = k\<lparr>con := (con k)\<lparr>screen := vga_init (screen (con k))\<rparr>\<rparr>;
          k = kprint [Ln '''', rule_line, Ln ''  Step 9: Memory Management + VGA'', rule_line, Ln ''''] k;
          k = kprint [S ''[INFO] Multiboot2 info at: '', X multiboot_addr, Ln ''''] k
      in case parse_multiboot_mmap multiboot_addr k of Inl f \<Rightarrow> Inl f | Inr k \<Rightarrow>
      let k = kprint [Ln ''[IDT] Initializing Interrupt Descriptor Table...''] k;
          k = idt_init ld k;
          k = kprint [Ln ''[IDT] IDT initialized with 32 exception handlers'', Ln ''[IDT] IDT loaded successfully!'', Ln ''''] k;
          k = pmm_init ld multiboot_addr k
      in case pmm_mark_free_regions ld multiboot_addr k of Inl f \<Rightarrow> Inl f | Inr k \<Rightarrow>
      let k = vmm_init sh k
      in Inr (heap_init k))"

definition init_processor :: "'a cpu_scheme \<Rightarrow> 'a cpu_scheme" where
  "init_processor k =
     (let k = kprint [Ln '''', Ln ''[OK] Serial port initialized (COM1)'', Ln ''[OK] Running in 64-bit long mode'', Ln ''''] k;
          k = kprint [Ln ''[GDT] Initializing GDT for BSP...'', Ln ''[GDT] Using bootloader GDT (no custom GDT/TSS)...'', Ln ''''] k;
          k = detect_cpu_features k;
          k = kprint [Ln ''[TSC] Calibrating Time Stamp Counter...''] k;
          k = calibrate_tsc k
      in kprint [S ''[TSC] TSC frequency: '', D_of (tsc_khz k), Ln '' kHz''] k)"

text \<open>The tables, with the two addresses that go into the boot information.\<close>

definition init_find_cpus :: "'a acpi_scheme \<Rightarrow> fault + (u64 \<times> u64 \<times> 'a acpi_scheme) outcome" where
  "init_find_cpus k =
     (let k = kprint [Ln (newline_char # ''[ACPI] Searching for RSDP...'')] k;
          rsdp = acpi_find_rsdp (mem k) in
      if rsdp = 0 then Inr (Halts (rsdp, 0, kprint [Ln ''[ERROR] RSDP not found!'', Ln ''System halted.''] k))
      else
        let k = kprint [Ln ''[ACPI] RSDP found!'', Ln ''[ACPI] Searching for MADT...''] k;
            madt = acpi_find_madt (mem k) rsdp in
        if madt = 0 then Inr (Halts (rsdp, madt, kprint [Ln ''[ERROR] MADT not found!'', Ln ''System halted.''] k))
        else
          let k = kprint [Ln ''[ACPI] MADT found!'', Ln ''[ACPI] Parsing MADT entries...''] k
          in case acpi_parse_madt madt k of None \<Rightarrow> Inl Hang
             | Some (count, k) \<Rightarrow>
                 let k = k\<lparr>cpu_count := count\<rparr>
                 in Inr (Returns (rsdp, madt, kprint [S (newline_char # ''[ACPI] Detected ''), D (cpu_count k), Ln '' CPU(s)''] k)))"

definition init_summary :: "'a smp_scheme \<Rightarrow> 'a smp_scheme" where
  "init_summary k =
     (let k = kprint [Ln '''', rule_line, Ln ''  C Bootstrap Complete!'', rule_line, Ln ''''] k;
          k = kprint [Ln ''[C] Summary of initialized subsystems:'', Ln ''  [OK] Serial port (COM1)'',
                Ln ''  [OK] Memory management (PMM + VMM)'', Ln ''  [OK] Kernel heap (16 MB)'', Ln ''  [OK] ACPI tables (RSDP + MADT)'',
                S ''  [OK] SMP - '', D (cpu_count k), Ln '' CPU(s) booted'', S ''  [OK] APIC (''] k;
          k = (if use_x2apic k then kprint [Ln ''x2APIC mode)''] k else kprint [Ln ''xAPIC mode)''] k)
      in kprint [Ln ''  [OK] IDT with 32 exception handlers'', Ln ''  [OK] APIC timers on all CPUs'', Ln ''''] k)"

definition yes_no :: "bool \<Rightarrow> msg" where "yes_no b = (if b then Ln ''YES'' else Ln ''NO'')"

definition show_boot_info :: "boot_info \<Rightarrow> 'a smp_scheme \<Rightarrow> 'a smp_scheme" where
  "show_boot_info b k =
     (let k = kprint [Ln ''[C] BootInfo structure filled:'', S ''  CPU count:     '', D (bi_cpu_count b), Ln ''''] k;
          k = kprint [S ''  x2APIC:        '', yes_no (bi_use_x2apic b)] k;
          k = kprint [S ''  Kernel start:  '', X (bi_kernel_phys_start b), Ln '''', S ''  Kernel end:    '', X (bi_kernel_phys_end b), Ln ''''] k;
          k = kprint [S ''  PMM bitmap:    '', X (bi_pmm_bitmap b), S '' ('', D (bi_pmm_bitmap_size b), Ln '' bytes)''] k;
          k = kprint [S ''  PML4 physical: '', X (bi_pml4_physical b), Ln '''', S ''  IDT loaded:    '', yes_no (bi_idt_loaded b), Ln ''''] k
      in kprint [rule_line, Ln ''  Handing off to Zig Kernel...'', rule_line, Ln ''''] k)"

datatype 's handoff = HandsOff boot_info 's | Stops 's

definition init_kernel_main ::
  "layout \<Rightarrow> pt_shifts \<Rightarrow> u64 \<Rightarrow> u32 \<Rightarrow> (u32 \<Rightarrow> u32) \<Rightarrow> 'a smp_scheme \<Rightarrow> fault + 'a smp_scheme handoff" where
  "init_kernel_main ld sh multiboot_addr started online k =
     (case init_memory ld sh multiboot_addr k of Inl f \<Rightarrow> Inl f | Inr k \<Rightarrow>
      let k = init_processor k in
      case init_find_cpus k of Inl f \<Rightarrow> Inl f | Inr (Halts (rsdp, madt, k)) \<Rightarrow> Inr (Stops k) | Inr (Returns (rsdp, madt, k)) \<Rightarrow>
      case kernel_start_cpus ld k of Inl f \<Rightarrow> Inl f | Inr k \<Rightarrow>
      let k = kernel_report_cpus started k;
          k = kernel_start_timer k;
          k = init_summary k in
      case fill_boot_info ld online rsdp madt k of Inl f \<Rightarrow> Inl f | Inr b \<Rightarrow>
      Inr (HandsOff b (show_boot_info b k)))"

text \<open>The other processors run the tests of \<open>ap_entry\<close> while processor 0 is in Zig: the steps are those
  of theory \<^verbatim>\<open>Parallel\<close>, processor 0 makes none.\<close>

inductive ap_tests_run :: "u32 \<Rightarrow> nat \<Rightarrow> par \<Rightarrow> bool" for cpu_count :: u32 and cpus :: nat where
  ap_tests_start: "ap_tests_run cpu_count cpus tests_init"
| ap_tests_next: "ap_tests_run cpu_count cpus s \<Longrightarrow> 0 < i \<Longrightarrow> i < cpus \<Longrightarrow> ap_tests_run cpu_count cpus (tests_step cpu_count i s)"

section \<open>What the services send\<close>

text \<open>The bytes \<open>bs\<close>, none of them zero, and a zero byte, at \<open>a\<close>.\<close>

definition holds_string :: "memory \<Rightarrow> u64 \<Rightarrow> u8 list \<Rightarrow> bool" where
  "holds_string m a bs \<longleftrightarrow> (\<forall>i<length bs. m (a + of_nat i) = bs ! i) \<and> 0 \<notin> set bs \<and> m (a + of_nat (length bs)) = 0"

lemma holds_string_Nil: "holds_string m a [] \<longleftrightarrow> m a = 0"
  by (simp add: holds_string_def)

lemma holds_string_Cons: "holds_string m a (b # bs) \<longleftrightarrow> m a = b \<and> b \<noteq> 0 \<and> holds_string m (a + 1) bs"
  by (auto simp: holds_string_def All_less_Suc2 add.assoc)

lemma c_write_serial_string:
  assumes "holds_string (mem k) a bs" "\<not> dlab (uart_of (con k))"
  shows "\<exists>k'. c_write_serial a k = Some k' \<and> mem k' = mem k
    \<and> wire (uart_of (con k')) = wire (uart_of (con k)) @ bs \<and> \<not> dlab (uart_of (con k')) \<and> screen (con k') = screen (con k)"
  using assms
proof (induction bs arbitrary: a k)
  case Nil
  then show ?case
    by (subst c_write_serial.simps) (simp add: holds_string_Nil)
next
  case (Cons b bs)
  let ?k = "k\<lparr>con := outb COM1 b (putc_wait (con k))\<rparr>"
  have b: "mem k a = b" "b \<noteq> 0" "holds_string (mem ?k) (a + 1) bs"
    using Cons.prems(1) by (simp_all add: holds_string_Cons)
  have w: "wire (uart_of (con ?k)) = wire (uart_of (con k)) @ [b]" "\<not> dlab (uart_of (con ?k))" "screen (con ?k) = screen (con k)"
    using Cons.prems(2) by (simp_all add: uart_of_outb frame)
  from Cons.IH [OF b(3) w(2)] show ?case
    using b(1,2) w by (subst c_write_serial.simps) auto
qed

lemma store_below_string: "holds_string m (a + 1) bs \<Longrightarrow> length bs < 2 ^ 32 \<Longrightarrow> b \<noteq> 0 \<Longrightarrow> holds_string (m(a := b)) a (b # bs)"
proof -
  assume h: "holds_string m (a + 1) bs" and l: "length bs < 2 ^ 32"and "b \<noteq> 0"
  have "a + 1 + of_nat i \<noteq> a" if "i \<le> length bs" for i
  proof
    assume "a + 1 + of_nat i = a"
    then have "(of_nat (Suc i) :: u64) = 0"
      by (simp add: add.assoc)
    moreover have "unat (of_nat (Suc i) :: u64) = Suc i"
      using that l by (intro unat_of_nat_lt) simp
    ultimately show False by simp
  qed
  then have "holds_string (m(a := b)) (a + 1) bs"
    using h by (simp add: holds_string_def)
  then show ?thesis
    using \<open>b \<noteq> 0\<close> by (simp add: holds_string_Cons)
qed

definition hex_byte :: "u64 \<Rightarrow> nat \<Rightarrow> u8" where
  "hex_byte value i = byte_of (''0123456789ABCDEF'' ! unat (drop_bit (4 * i) value AND 0xF))"

lemma hex_byte_nonzero: "hex_byte value i \<noteq> 0"
proof -
  have "unat (drop_bit (4 * i) value AND 0xF) < 16"
    by (simp add: unat_nibble)
  moreover have "\<forall>n<16. byte_of (''0123456789ABCDEF'' ! n) \<noteq> 0"
    by code_simp
  ultimately show ?thesis
    by (simp add: hex_byte_def)
qed

text \<open>\<open>c_write_serial_hex\<close> passes the address of one character as a string: after every digit it also
  sends whatever bytes follow the variable on the stack, up to the first zero.  The sixteen digits come
  out right, alone exactly when the next byte happens to be zero.\<close>

theorem c_write_serial_hex_sends:
  assumes "holds_string (mem k) prefix_at [0x30, 0x78]" "holds_string (mem k) (sp + 1) rest" "length rest < 2 ^ 32"
    and "\<not> dlab (uart_of (con k))"
  shows "\<exists>k'. c_write_serial_hex prefix_at sp value k = Some k'
    \<and> wire (uart_of (con k')) = wire (uart_of (con k)) @ [0x30, 0x78] @ concat (map (\<lambda>i. hex_byte value i # rest) (rev [0..<16]))"
proof -
  have digits: "\<exists>k'. write_digits n sp value k = Some k'
    \<and> wire (uart_of (con k')) = wire (uart_of (con k)) @ concat (map (\<lambda>i. hex_byte value i # rest) (rev [0..<n]))"
    if "holds_string (mem k) (sp + 1) rest" "\<not> dlab (uart_of (con k))" for n and k :: "'a machine_scheme"
    using that
  proof (induction n arbitrary: k)
    case (Suc n)
    let ?k = "k\<lparr>mem := (mem k)(sp := hex_byte value n)\<rparr>"
    have "holds_string (mem ?k) sp (hex_byte value n # rest)"
      using store_below_string [OF Suc.prems(1) assms(3) hex_byte_nonzero] by simp
    then obtain k1 where k1: "c_write_serial sp ?k = Some k1" "mem k1 = mem ?k"
      "wire (uart_of (con k1)) = wire (uart_of (con k)) @ hex_byte value n # rest" "\<not> dlab (uart_of (con k1))"
      using c_write_serial_string [of ?k sp "hex_byte value n # rest"] Suc.prems(2) by auto
    have "holds_string (mem k1) (sp + 1) rest"
      using \<open>holds_string (mem ?k) sp (hex_byte value n # rest)\<close> k1(2) by (simp add: holds_string_Cons)
    from Suc.IH [OF this k1(4)] show ?case
      using k1(1,3) by (auto simp: hex_byte_def)
  qed simp
  obtain k1 where k1: "c_write_serial prefix_at k = Some k1" "mem k1 = mem k"
    "wire (uart_of (con k1)) = wire (uart_of (con k)) @ [0x30, 0x78]" "\<not> dlab (uart_of (con k1))"
    using c_write_serial_string [OF assms(1,4)] by blast
  then show ?thesis
    using digits [of k1 16] assms(2) by (auto simp: c_write_serial_hex_def)
qed

lemma eoi_addr: "mmio_addr (drop_bit 2 APIC_EOI_REG) k = apic_base k + 0xB0"
  by (simp add: mmio_addr_def APIC_EOI_REG_def)

text \<open>\<open>c_send_eoi\<close> is the \<open>send_eoi\<close> of the C handler exactly in x2APIC mode or with the APIC at its
  default address: it does not follow \<open>apic_base\<close>.\<close>

theorem c_send_eoi_equiv: "c_send_eoi k = send_eoi k \<longleftrightarrow> use_x2apic k \<or> apic_base k = 0xFEE00000"
proof (cases "use_x2apic k")
  case True
  then show ?thesis
    by (simp add: c_send_eoi_def send_eoi_def X2APIC_EOI_def)
next
  case False
  have "drop_bit 2 APIC_EOI_REG \<noteq> drop_bit 2 APIC_ICR_LOW"
    by (simp add: APIC_EOI_REG_def APIC_ICR_LOW_def)
  then have "mmio_addr (drop_bit 2 APIC_EOI_REG) k \<noteq> icr_low_addr k"
    using mmio_addr_inj unfolding icr_low_addr_def by blast
  then have s: "send_eoi k = cpu_do (MmioWrite (apic_base k + 0xB0) 0) (k\<lparr>mmio := (mmio k)(apic_base k + 0xB0 := 0)\<rparr>)"
    using False eoi_addr [of k]
    by (simp add: send_eoi_def apic_write_def mmio_write_def Let_def icr_low_addr_def)
  have c: "c_send_eoi k = cpu_do (MmioWrite 0xFEE000B0 0) (k\<lparr>mmio := (mmio k)(0xFEE000B0 := 0)\<rparr>)"
    using False by (simp add: c_send_eoi_def)
  show ?thesis
  proof
    assume "c_send_eoi k = send_eoi k"
    then have "cpu_log (c_send_eoi k) = cpu_log (send_eoi k)"
      by simp
    then have "apic_base k + 0xB0 = 0xFEE00000 + 0xB0"
      unfolding s c by simp
    then have "apic_base k = 0xFEE00000"
      by (simp only: add_right_cancel)
    then show "use_x2apic k \<or> apic_base k = 0xFEE00000" ..
  next
    assume "use_x2apic k \<or> apic_base k = 0xFEE00000"
    then have "apic_base k + 0xB0 = 0xFEE000B0"
      using False by simp
    then show "c_send_eoi k = send_eoi k"
      unfolding s c by simp
  qed
qed

section \<open>What the feature report says\<close>

definition feature_lines :: "u32 \<Rightarrow> (nat \<times> string) list \<Rightarrow> msg list" where
  "feature_lines reg table = map (\<lambda>(b, name). Ln (check_mark @ name)) (filter (\<lambda>(b, name). bit reg b) table)"

lemma and_bit: "reg AND push_bit b 1 \<noteq> 0 \<longleftrightarrow> bit reg b" for reg :: u32
  by (simp add: and_exp_eq_0_iff_not_bit)

lemma report_features_lines:
  "report_features reg table k = kprint (feature_lines reg table) k"
proof (induction table arbitrary: k)
  case Nil
  then show ?case
    by (simp add: report_features_def feature_lines_def kprint_def say_def)
next
  case (Cons e table)
  obtain b name where e: "e = (b, name)" by force
  have "report_features reg (e # table) k = report_features reg table (if bit reg b then kprint [Ln (check_mark @ name)] k else k)"
    using and_bit [of reg b] by (simp add: report_features_def e)
  then show ?case
    using Cons by (simp add: e feature_lines_def kprint_kprint)
qed

text \<open>When CPUID has leaf 1, the report lists the line of x2APIC exactly when \<open>apic_init\<close> then turns
  x2APIC mode on: what the kernel shows is what it uses.\<close>

theorem features_match_apic:
  assumes "1 \<le> fst (cpuid 0 k)" "\<not> use_x2apic k" "\<not> bit (msr k APIC_BASE_MSR) 10"
  shows "\<exists>ms. con (detect_cpu_features k) = say ms (con k)
    \<and> (Ln (check_mark @ ''x2APIC - Extended xAPIC'') \<in> set ms \<longleftrightarrow> use_x2apic (apic_init (detect_cpu_features k)))"
proof -
  obtain a0 b0 c0 d0 where l0: "cpuid 0 k = (a0, b0, c0, d0)" by (cases "cpuid 0 k")
  obtain a1 b1 c1 d1 where l1: "cpuid 1 k = (a1, b1, c1, d1)" by (cases "cpuid 1 k")
  obtain a2 b2 c2 d2 where l2: "cpuid 0x80000000 k = (a2, b2, c2, d2)" by (cases "cpuid 0x80000000 k")
  obtain a3 b3 c3 d3 where l3: "cpuid 0x80000001 k = (a3, b3, c3, d3)" by (cases "cpuid 0x80000001 k")
  define ms where "ms = [Ln (newline_char # ''[CPU] Detecting CPU features...''), S ''[CPU] Vendor: '', S (vendor_string b0 c0 d0), Ln '''',
     Ln ''[CPU] Features detected:''] @ feature_lines d1 features_edx @ feature_lines c1 features_ecx
     @ (if 0x80000001 \<le> a2 then feature_lines d3 features_ext else []) @ [Ln '''']"
  have id: "cpuid n (kprint xs k) = cpuid n k" for n xs and k :: "'b cpu_scheme"
    by (simp add: cpuid_def)
  have d: "detect_cpu_features k = kprint ms k"
    using assms(1) by (simp add: detect_cpu_features_def Let_def l0 l1 l2 l3 id report_features_lines kprint_kprint ms_def)
  have "Ln (check_mark @ ''x2APIC - Extended xAPIC'') \<in> set ms \<longleftrightarrow> bit c1 21"
    by (simp add: ms_def feature_lines_def features_edx_def features_ecx_def features_ext_def)
  moreover have "use_x2apic (apic_init (kprint ms k)) \<longleftrightarrow> has_x2apic (kprint ms k)"
    using apic_init_effect [of "kprint ms k"] assms(2,3) by (simp add: Let_def)
  moreover have "has_x2apic (kprint ms k) \<longleftrightarrow> bit c1 21"
    by (simp add: has_x2apic_def id l1)
  ultimately show ?thesis
    using d by (intro exI [of _ ms]) simp
qed

section \<open>What the boot information says\<close>

definition cpu_info_of :: "layout \<Rightarrow> (u32 \<Rightarrow> u32) \<Rightarrow> 'a smp_scheme \<Rightarrow> nat \<Rightarrow> cpu_info" where
  "cpu_info_of ld online k i = \<lparr>ci_apic_id = cpu_apic_ids k ! i, ci_stack_top = ap_stack_top ld (of_nat i),
     ci_online = (i = 0 \<or> i < unat (online (of_nat i)))\<rparr>"

lemma ucast_nat: "i < 2 ^ 32 \<Longrightarrow> ucast (of_nat i :: u32) = (of_nat i :: u64)"
  by (simp add: word_unat_eq_iff unsigned_ucast_eq unat_of_nat_lt take_bit_nat_eq_self)

lemma fill_cpu_nth:
  assumes "i < 16" "length (bi_cpus b) = 16" "length (cpu_apic_ids k) = 16"
  shows "fill_cpu ld online k (of_nat i) b = Inr (b\<lparr>bi_cpus := (bi_cpus b)[i := cpu_info_of ld online k i]\<rparr>)"
proof -
  have i: "unat (of_nat i :: u32) = i"
    using assms(1) by (intro unat_of_nat_lt) simp
  then have z: "(of_nat i :: u32) = 0 \<longleftrightarrow> i = 0"
    using unat_eq_0 [of "of_nat i :: u32"] by simp
  have u: "ucast (of_nat i :: u32) = (of_nat i :: u64)"
    using assms(1) by (intro ucast_nat) simp
  have lt: "of_nat i < x \<longleftrightarrow> i < unat x" for x :: u32
    using i by (simp only: word_less_nat_alt)
  have "ap_stacks_sym ld + of_nat i * AP_STACK_SIZE + AP_STACK_SIZE = ap_stack_top ld (of_nat i)"
    using u by (simp add: ap_stack_top_def distrib_right add.assoc)
  then show ?thesis
    using assms by (simp only: fill_cpu_def cpu_info_of_def i z u lt simp_thms if_True)
qed

lemma fill_boot_info_cpus:
  fixes rsdp_at madt_at :: u64 and ld :: layout
  assumes "cpu_count k = of_nat n" "n \<le> 16" "length (cpu_apic_ids k) = 16"
  defines "b0 \<equiv> boot_info_of ld rsdp_at madt_at k"
  shows "fill_boot_info ld online rsdp_at madt_at k
    = Inr (b0\<lparr>bi_cpus := map (cpu_info_of ld online k) [0..<n] @ drop n (bi_cpus b0)\<rparr>)"
proof -
  have b0: "length (bi_cpus b0) = 16"
    by (simp add: b0_def boot_info_of_def MAX_CPUS_def)
  have "fold (\<lambda>i r. case r of Inl e \<Rightarrow> Inl e | Inr s \<Rightarrow> fill_cpu ld online k (of_nat i) s) [0..<m] (Inr b0)
      = Inr (b0\<lparr>bi_cpus := map (cpu_info_of ld online k) [0..<m] @ drop m (bi_cpus b0)\<rparr>)" if "m \<le> 16" for m
    using that
  proof (induction m)
    case (Suc m)
    have "(map (cpu_info_of ld online k) [0..<m] @ drop m (bi_cpus b0))[m := x]
        = map (cpu_info_of ld online k) [0..<m] @ x # drop (Suc m) (bi_cpus b0)" for x
      using Suc.prems b0 by (simp add: list_update_append Cons_nth_drop_Suc [symmetric])
    then show ?case
      using Suc b0 assms(3) by (simp add: fill_cpu_nth)
  qed simp
  then show ?thesis
    using assms(2) by (simp add: fill_boot_info_def assms(1) b0_def [symmetric] for_cpus_fold)
qed

lemma low_frame:
  assumes "x < 2 ^ 48"
  shows "x AND 0xFFFFFFFFF000 = frame_of x"
proof -
  have "take_bit 48 x = x"
    using assms by (simp add: word_unat_eq_iff unsigned_take_bit_eq take_bit_nat_eq_self word_less_nat_alt)
  then have x: "x = x AND mask 48"
    by (simp add: take_bit_eq_mask)
  have "(mask 48 :: u64) AND frame_mask = 0xFFFFFFFFF000"
    by (simp add: mask_eq_exp_minus_1 frame_mask_def)
  then have "x AND 0xFFFFFFFFF000 = (x AND mask 48) AND frame_mask"
    by (simp only: and.assoc)
  then show ?thesis
    using x by (simp only: frame_of_def)
qed

lemma filled:
  assumes "cpu_count k = of_nat n" "n \<le> 16" "length (cpu_apic_ids k) = 16"
  shows "\<exists>b. fill_boot_info ld online rsdp_at madt_at k = Inr b \<and> length (bi_cpus b) = 16
    \<and> unat (bi_cpu_count b) = n \<and> bi_use_x2apic b = use_x2apic k \<and> bi_pmm_bitmap b = pmm_bitmap k
    \<and> bi_free_mem_start b = pmm_bitmap k + bitmap_size k \<and> bi_free_mem_size b = usable_memory k
    \<and> (cr3 k < 2 ^ 48 \<longrightarrow> bi_pml4_physical b = frame_of (cr3 k))
    \<and> bi_rsdp_address b = rsdp_at \<and> bi_madt_address b = madt_at \<and> bi_idt_base b = idt_sym ld \<and> bi_apic_base b = apic_base k
    \<and> (\<forall>i<n. ci_apic_id (bi_cpus b ! i) = cpu_apic_ids k ! i \<and> ci_stack_top (bi_cpus b ! i) = ap_stack_top ld (of_nat i))
    \<and> (\<forall>i<16. n \<le> i \<longrightarrow> \<not> ci_online (bi_cpus b ! i))"
proof -
  have "cr3 k AND 0xFFFFFFFFF000 = frame_of (cr3 k)" if "cr3 k < 2 ^ 48"
    by (rule low_frame [OF that])
  then show ?thesis
    using fill_boot_info_cpus [OF assms, of ld online rsdp_at madt_at] assms(1,2) unat_of_nat_lt [of n, where 'a = 32]
    by (intro exI [of _ "(boot_info_of ld rsdp_at madt_at k)\<lparr>bi_cpus := map (cpu_info_of ld online k) [0..<n]
        @ drop n (bi_cpus (boot_info_of ld rsdp_at madt_at k))\<rparr>"])
      (auto simp: boot_info_of_def MAX_CPUS_def cpu_info_of_def nth_append)
qed

text \<open>The boot information of a machine with up to sixteen processors: the members that describe
  memory, page table, tables and APIC are the kernel's own values, and the entry of each processor has
  its APIC identifier and the stack that \<open>boot_ap\<close> gave it; the other entries are empty.\<close>

theorem boot_info_filled:
  assumes "cpu_count k = of_nat n" "n \<le> 16" "length (cpu_apic_ids k) = 16"
  shows "\<exists>b. fill_boot_info ld online rsdp_at madt_at k = Inr b \<and> length (bi_cpus b) = 16
    \<and> unat (bi_cpu_count b) = n \<and> bi_use_x2apic b = use_x2apic k \<and> bi_pmm_bitmap b = pmm_bitmap k
    \<and> bi_free_mem_start b = pmm_bitmap k + bitmap_size k \<and> bi_free_mem_size b = usable_memory k
    \<and> (cr3 k < 2 ^ 48 \<longrightarrow> bi_pml4_physical b = frame_of (cr3 k))
    \<and> bi_rsdp_address b = rsdp_at \<and> bi_madt_address b = madt_at \<and> bi_idt_base b = idt_sym ld \<and> bi_apic_base b = apic_base k
    \<and> (\<forall>i<n. ci_apic_id (bi_cpus b ! i) = cpu_apic_ids k ! i \<and> ci_stack_top (bi_cpus b ! i) = ap_stack_top ld (of_nat i))
    \<and> (\<forall>i<16. n \<le> i \<longrightarrow> \<not> ci_online (bi_cpus b ! i))"
  by (rule filled [OF assms])

text \<open>The online flags are computed from the number of processors that have come up, not from which:
  with the processors of \<open>A\<close> started besides processor 0, the flags are right exactly when \<open>A\<close> is an
  initial segment.  A processor that fails to start before one that does is reported online.\<close>

theorem online_flags_right_iff:
  assumes "cpu_count k = of_nat n" "n \<le> 16" "length (cpu_apic_ids k) = 16" "A \<subseteq> {1..<n}"
  defines "started \<equiv> \<lambda>_. of_nat (1 + card A)"
  shows "\<exists>b. fill_boot_info ld started rsdp_at madt_at k = Inr b
    \<and> ((\<forall>i<n. ci_online (bi_cpus b ! i) = (i = 0 \<or> i \<in> A)) \<longleftrightarrow> A = {1..card A})"
proof -
  let ?b = "(boot_info_of ld rsdp_at madt_at k)\<lparr>bi_cpus := map (cpu_info_of ld started k) [0..<n]
        @ drop n (bi_cpus (boot_info_of ld rsdp_at madt_at k))\<rparr>"
  have "card A \<le> card {1..<n}"
    using assms(4) by (intro card_mono) auto
  then have c: "card A \<le> n - 1" "unat (of_nat (1 + card A) :: u32) = 1 + card A"
    using assms(2) by (simp, intro unat_of_nat_lt) simp
  have on: "ci_online (bi_cpus ?b ! i) = (i = 0 \<or> i < 1 + card A)" if "i < n" for i
    using that c(2) by (simp add: nth_append cpu_info_of_def started_def)
  have "(\<forall>i<n. ci_online (bi_cpus ?b ! i) = (i = 0 \<or> i \<in> A)) \<longleftrightarrow> A = {1..card A}"
  proof
    assume right: "\<forall>i<n. ci_online (bi_cpus ?b ! i) = (i = 0 \<or> i \<in> A)"
    have "i \<in> A \<longleftrightarrow> 1 \<le> i \<and> i \<le> card A" for i
    proof (cases "i < n")
      case True
      then show ?thesis
        using right on [OF True] assms(4) by (cases "i = 0") auto
    next
      case False
      then show ?thesis
        using assms(4) c(1) by auto
    qed
    then show "A = {1..card A}"
      by (intro set_eqI) (simp only: atLeastAtMost_iff)
  next
    assume A: "A = {1..card A}"
    have mem: "i \<in> A \<longleftrightarrow> 1 \<le> i \<and> i \<le> card A" for i
      by (subst A) (simp only: atLeastAtMost_iff)
    show "\<forall>i<n. ci_online (bi_cpus ?b ! i) = (i = 0 \<or> i \<in> A)"
    proof (intro allI impI)
      fix i
      assume "i < n"
      then have "ci_online (bi_cpus ?b ! i) = (i = 0 \<or> i < 1 + card A)"
        by (rule on)
      then show "ci_online (bi_cpus ?b ! i) = (i = 0 \<or> i \<in> A)"
        using mem [of i] by linarith
    qed
  qed
  then show ?thesis
    using fill_boot_info_cpus [OF assms(1-3), of ld started rsdp_at madt_at] by blast
qed

section \<open>The other processors\<close>

lemma count_apart: "missing_inv n (s :: par) \<Longrightarrow> bpc s 0 = Outside \<Longrightarrow> 0 < i \<Longrightarrow> i < n \<Longrightarrow>
    card (insert i {j. j < n \<and> bpc s j = Spinning 0}) < n"
proof -
  assume o: "bpc s 0 = Outside" and i: "0 < i" "i < n"
  have "insert i {j. j < n \<and> bpc s j = Spinning 0} \<subseteq> {1..<n}"
    using o i by (auto simp: Suc_le_eq intro: ccontr)
  then have "card (insert i {j. j < n \<and> bpc s j = Spinning 0}) \<le> card {1..<n}"
    by (intro card_mono) auto
  then show ?thesis
    using i by simp
qed

text \<open>No other processor is past its first barrier, and processor 0 has not come to it.\<close>

definition waiting_inv :: "nat \<Rightarrow> par \<Rightarrow> bool" where
  "waiting_inv n s \<longleftrightarrow> missing_inv n s \<and> bpc s 0 = Outside \<and> (\<forall>i<n. tpc s i \<le> 1) \<and> total_sum s = 0"

lemma missing_inv_cong:
  "barrier_sense t = barrier_sense s \<Longrightarrow> barrier_count t = barrier_count s \<Longrightarrow> bpc t = bpc s \<Longrightarrow> passed t = passed s
    \<Longrightarrow> missing_inv n t = missing_inv n s" for s t :: par
  by (simp add: missing_inv_def)

lemma count_frame:
  "barrier.truncate ((count_up i ^^ m) s) = barrier.truncate s" "tpc ((count_up i ^^ m) s) = tpc s"
  "total_sum ((count_up i ^^ m) s) = total_sum s" for s :: par
proof -
  have "barrier.truncate (count_up i s) = barrier.truncate s" "tpc (count_up i s) = tpc s" "total_sum (count_up i s) = total_sum s" for s :: par
    by (simp_all add: count_up_def barrier.defs)
  then show "barrier.truncate ((count_up i ^^ m) s) = barrier.truncate s" "tpc ((count_up i ^^ m) s) = tpc s"
    "total_sum ((count_up i ^^ m) s) = total_sum s"
    by (induction m) simp_all
qed

lemma waiting_step:
  assumes inv: "waiting_inv n s" and i: "0 < i" "i < n" and n: "n \<le> 16"
  shows "waiting_inv n (tests_step (of_nat n) i s)"
proof -
  have "tpc s i = 0 \<or> tpc s i = 1"
    using inv i by (auto simp: waiting_inv_def le_Suc_eq)
  then show ?thesis
  proof
    assume t: "tpc s i = 0"
    let ?t = "next_test i (test_parallel_counters i s)"
    have "tests_step (of_nat n) i s = ?t"
      using t by (simp add: tests_step_def sequence_at)
    moreover have "barrier.truncate (test_parallel_counters i s) = barrier.truncate s" "tpc (test_parallel_counters i s) = tpc s"
      "total_sum (test_parallel_counters i s) = total_sum s"
      unfolding test_parallel_counters_def for_up_fold fold_const by (rule count_frame)+
    then have "barrier_sense ?t = barrier_sense s" "barrier_count ?t = barrier_count s" "bpc ?t = bpc s" "passed ?t = passed s"
      "tpc ?t = (tpc s)(i := 1)" "total_sum ?t = total_sum s"
      using t by (simp_all add: next_test_def barrier.defs)
    ultimately show ?thesis
      using inv missing_inv_cong [of ?t s n] by (simp add: waiting_inv_def)
  next
    assume t: "tpc s i = 1"
    let ?t = "barrier_step (of_nat n) i s"
    have m: "missing_inv n s" "bpc s 0 = Outside"
      using inv by (simp_all add: waiting_inv_def)
    have un: "unat (of_nat n :: u32) = n"
      using n by (intro unat_of_nat_lt) simp
    have mt: "missing_inv n ?t"
      using missing_inv_room [OF m(1) i(2)] count_apart [OF m i] n un by simp
    have "passed ?t i = passed s i"
      using m(1) mt i(2) by (simp add: missing_inv_def)
    then have "tests_step (of_nat n) i s = ?t"
      using t by (simp add: tests_step_wait)
    then show ?thesis
      using inv mt i(1) by (simp add: waiting_inv_def)
  qed
qed

text \<open>C37: In the hybrid kernel the tests of \<open>ap_entry\<close> are dead code after the first: processor 0 goes to
  Zig and never comes to \<open>barrier_wait\<close>, so whatever the others do they stay in their first barrier,
  and the sum is never begun.\<close>

theorem hybrid_processors_wait:
  assumes "ap_tests_run (of_nat n) n s" "n \<le> 16" "i < n"
  shows "tpc s i \<le> 1 \<and> passed s i = 0 \<and> total_sum s = 0"
proof -
  have "waiting_inv n s"
    using assms(1)
  proof (induction rule: ap_tests_run.induct)
    case ap_tests_start
    then show ?case
      by (simp add: waiting_inv_def missing_inv_def tests_init_def barrier_init_def barrier.defs par.defs)
  next
    case (ap_tests_next s i)
    then show ?case
      using waiting_step [OF _ _ _ assms(2)] by blast
  qed
  then show ?thesis
    using assms(3) by (simp add: waiting_inv_def missing_inv_def)
qed

section \<open>The hand-over\<close>

lemma summary_keeps: "cpu_count (init_summary k) = cpu_count k" "cpu_apic_ids (init_summary k) = cpu_apic_ids k"
  by (simp_all add: init_summary_def Let_def kprint_def)


section \<open>Witnesses\<close>

definition hex_demo :: smp where
  "hex_demo = (smp_demo 0)\<lparr>mem := (\<lambda>_. 0)(0x1000 := 0x30, 0x1001 := 0x78, 0x2001 := 0x41), con := quiet_console\<rparr>"

lemma hex_demo_sel: "mem hex_demo = (\<lambda>_. 0)(0x1000 := 0x30, 0x1001 := 0x78, 0x2001 := 0x41)" "con hex_demo = quiet_console"
  by (simp_all add: hex_demo_def)

lemma quiet_dlab: "\<not> dlab (uart_of quiet_console)"
  unfolding quiet_console_def serial_init_def Let_def uart_of_outb by (simp add: uart_of_def)

theorem c_write_serial_hex_sends_witness:
  "\<exists>k'. c_write_serial_hex 0x1000 0x2000 255 hex_demo = Some k'
    \<and> wire (uart_of (con k')) = wire (uart_of quiet_console) @ [0x30, 0x78] @ concat (map (\<lambda>i. [hex_byte 255 i, 0x41]) (rev [0..<16]))"
proof -
  have "holds_string (mem hex_demo) 0x1000 [0x30, 0x78]" "holds_string (mem hex_demo) (0x2000 + 1) [0x41]"
    by (simp_all add: holds_string_Cons holds_string_Nil hex_demo_sel)
  from c_write_serial_hex_sends [OF this _ _] show ?thesis
    using quiet_dlab by (simp add: hex_demo_sel)
qed

text \<open>The memory phase of the bootstrap returns where that of the kernel does, and leaves the memory below
  the bitmap alone but for the last PML4 entry.\<close>

lemma idt_init_more:
  fixes k :: "'b idt_state_scheme"
  shows "idt_state.more (idt_init ld k) = idt_state.more k" "total_memory (idt_init ld k) = total_memory k" "cr3 (idt_init ld k) = cr3 k"
proof -
  have f: "idt_state.more (fold (\<lambda>n. idt_set_gate (num n) (h n) sel fl) xs k) = idt_state.more k"
    "total_memory (fold (\<lambda>n. idt_set_gate (num n) (h n) sel fl) xs k) = total_memory k"
    "cr3 (fold (\<lambda>n. idt_set_gate (num n) (h n) sel fl) xs k) = cr3 k" for num :: "nat \<Rightarrow> u8" and h sel fl xs
    and k :: "'b idt_state_scheme"
    by (induction xs arbitrary: k) (simp_all add: idt_set_gate_def)
  show "idt_state.more (idt_init ld k) = idt_state.more k" "total_memory (idt_init ld k) = total_memory k" "cr3 (idt_init ld k) = cr3 k"
    by (simp_all add: idt_init_def Let_def idt_load_def for_up_fold f kprint_def cpu_do_def idt_set_gate_def)
qed

lemma init_memory_returns:
  fixes k :: "'a idt_state_scheme"
  assumes ok: "boot_ok ld info n k"
  defines "b \<equiv> bitmap_address ld info (mem k)" and "p \<equiv> frame_of (cr3 k)"
  shows "\<exists>k'. init_memory ld sh info k = Inr k' \<and> idt_state.more k' = idt_state.more k
    \<and> (\<forall>x. x < b \<and> \<not> in_range (p + 8 * 511) 8 x \<longrightarrow> mem k' x = mem k x)"
proof -
  let ?c = "console_up info k" and ?tag = "(next_tag (mem k) ^^ n) (info + 8)"
  let ?d = "\<lambda>k. kprint [Ln ''[IDT] IDT initialized with 32 exception handlers'', Ln ''[IDT] IDT loaded successfully!'', Ln '''']
    (idt_init ld (kprint [Ln ''[IDT] Initializing Interrupt Descriptor Table...''] k))"
  have ok_c: "boot_ok ld info n ?c"
    using ok boot_ok_cong(1) [of ?c k] console_up_sel by blast
  obtain k1 where k1: "parse_multiboot_mmap info ?c = Inr k1" "mem k1 = mem k" "mmap_info.more k1 = mmap_info.more ?c"
    "total_memory k1 = fold max (low_ends (mmap_entries (mem k) ?tag)) (total_memory k)"
    using parsed_map [OF ok_c] unfolding console_up_sel(1,2) by blast
  have d: "mem (?d k1) = mem k" "total_memory (?d k1) = total_memory k1"
    by (simp_all add: idt_init_frame idt_init_more k1(2))
  obtain k2 where k2: "pmm_mark_free_regions ld info (pmm_init ld info (?d k1)) = Inr k2" "pmm.more k2 = pmm.more (?d k1)"
    "\<forall>x. \<not> in_range b (bitmap_bytes ?tag k) x \<longrightarrow> mem k2 x = mem k x"
    using pages_from [OF ok d(1)] d(2) k1(4) unfolding b_def by auto
  have k: "cr3 k2 = cr3 k" "idt_state.more k2 = idt_state.more k"
  proof -
    have "cr3 (?d k1) = cr3 k1" "idt_state.more (?d k1) = idt_state.more k1"
      by (simp_all add: idt_init_more) (simp add: kprint_def idt_init_more)
    moreover have "cr3 k1 = cr3 ?c" "idt_state.more k1 = idt_state.more ?c"
      using k1(3) by (cases k1, cases ?c, simp)+
    moreover have "cr3 k2 = cr3 (?d k1)" "idt_state.more k2 = idt_state.more (?d k1)"
      using k2(2) by (cases k2, cases "?d k1", simp)+
    ultimately show "cr3 k2 = cr3 k" "idt_state.more k2 = idt_state.more k"
      by (simp_all add: console_up_sel) (simp add: console_up_def kprint_def)
  qed
  have "init_memory ld sh info k = Inr (heap_init (vmm_init sh k2))"
    using k1(1) k2(1) by (simp add: init_memory_def Let_def console_up_def cong: sum.case_cong)
  moreover have "mem (heap_init (vmm_init sh k2)) x = mem k x" if "x < b" "\<not> in_range (p + 8 * 511) 8 x"
    "unat b + bitmap_bytes ?tag k \<le> 2 ^ 64" for x
    using k2(3) that in_range_below [of x b "bitmap_bytes ?tag k"]
    by (simp add: heap_init_eqs vmm_init_eqs k(1) p_def store64_def store_le_other word_less_nat_alt)
  moreover have "unat b + bitmap_bytes ?tag k \<le> 2 ^ 64"
  proof -
    have "unat b + bitmap_bytes ?tag k \<le> unat (managed ?tag k div PAGE_SIZE) * 4096"
      using ok by (simp add: boot_ok_def Let_def b_def)
    also have "\<dots> \<le> unat (managed ?tag k)"
      by (simp add: unat_div)
    also have "\<dots> \<le> 2 ^ 64"
      using unsigned_less [of "managed ?tag k", where 'a = nat] by simp
    finally show ?thesis .
  qed
  moreover have "idt_state.more (heap_init (vmm_init sh k2)) = idt_state.more k"
    using k(2) by (simp add: heap_init_def vmm_init_def Let_def kprint_def cpu_do_def)
  ultimately show ?thesis
    by blast
qed

theorem features_match_apic_witness:
  "\<exists>ms. con (detect_cpu_features ((apic_demo 0x200000)\<lparr>cpuid_value := \<lambda>_. (1, 0, 0x200000, 0)\<rparr>))
    = say ms (con (apic_demo 0x200000))"
  using features_match_apic [of "(apic_demo 0x200000)\<lparr>cpuid_value := \<lambda>_. (1, 0, 0x200000, 0)\<rparr>"]
  by (auto simp: apic_demo_sel APIC_BASE_MSR_def cpuid_def)

definition three_cpus :: smp where
  "three_cpus = (smp_demo 0)\<lparr>cpu_count := 3\<rparr>"

lemma three_cpus_sel: "cpu_count three_cpus = of_nat 3" "length (cpu_apic_ids three_cpus) = 16"
  using smp_demo_sel(4) [of 0] by (simp_all add: three_cpus_def)

theorem boot_info_filled_witness:
  "\<exists>b. fill_boot_info small_layout (\<lambda>_. 3) 0xE0000 0x7000 three_cpus = Inr b \<and> unat (bi_cpu_count b) = 3"
  using boot_info_filled [OF three_cpus_sel(1) _ three_cpus_sel(2), of small_layout "\<lambda>_. 3" "0xE0000" "0x7000"] by auto

theorem online_flags_right_iff_witness:
  "\<exists>b. fill_boot_info small_layout (\<lambda>_. of_nat (1 + card {2 :: nat})) 0xE0000 0x7000 three_cpus = Inr b
    \<and> (\<exists>i<3. ci_online (bi_cpus b ! i) \<noteq> (i = 0 \<or> i \<in> {2}))"
  using online_flags_right_iff [OF three_cpus_sel(1) _ three_cpus_sel(2), of "{2}" small_layout "0xE0000" "0x7000"] by auto

lemma detect_frame: "mem (detect_cpu_features k) = mem k" "cpu.more (detect_cpu_features k) = cpu.more k"
proof -
  have r: "mem (report_features reg fs k) = mem k" "cpu.more (report_features reg fs k) = cpu.more k"
    for reg fs and k :: "'b cpu_scheme"
    by (induction fs arbitrary: k) (auto simp: report_features_def kprint_def)
  show "mem (detect_cpu_features k) = mem k" "cpu.more (detect_cpu_features k) = cpu.more k"
    by (simp_all add: detect_cpu_features_def Let_def r kprint_def split: prod.split)
qed

lemma processor_frame: "mem (init_processor k) = mem k" "cpu.more (init_processor k) = cpu.more k"
  by (simp_all add: init_processor_def Let_def calibrate_tsc_def kprint_def detect_frame)


theorem hybrid_processors_wait_witness: "tpc (tests_step (of_nat 2) 1 tests_init) 1 \<le> 1"
proof -
  have "ap_tests_run (of_nat 2) 2 (tests_step (of_nat 2) 1 tests_init)"
    by (intro ap_tests_run.intros) simp_all
  from hybrid_processors_wait [OF this, of 1] show ?thesis
    by simp
qed

end
