(* ===== verification/Old_Sync.thy ===== *)
theory Old_Sync
  imports Interleaving
begin

text \<open>
  The locks and counters of \<^verbatim>\<open>archive/old-modular/sync.c\<close> and the way \<^verbatim>\<open>smp.c\<close> and \<^verbatim>\<open>main.c\<close> use
  them: \<open>on_each_cpu\<close> on processor 0, the idle loop of \<open>ap_boot_complete\<close> on the others, and the
  \<open>computation_task\<close> they all may run, one processor's atomic accesses at a time in any order.

  A processor is at a \<open>call_pc\<close>; \<open>call_step\<close> is its next access to a shared variable.  The compiler
  builtins are the atomic accesses; a plain read or write of a shared variable is a step of its own.
  The sum over the local variable and the console output of the task are not accesses: the first is
  \<open>local_sum\<close>, the second is left out.
\<close>

section \<open>Builtins and the operations on them\<close>

text \<open>Each returns its value and the new contents of the cell.\<close>

definition test_and_set :: "u32 \<Rightarrow> u32 \<Rightarrow> u32 \<times> u32" where "test_and_set cell v = (cell, v)"
definition fetch_and_add :: "u32 \<Rightarrow> u32 \<Rightarrow> u32 \<times> u32" where "fetch_and_add cell v = (cell, cell + v)"
definition add_and_fetch :: "u32 \<Rightarrow> u32 \<Rightarrow> u32 \<times> u32" where "add_and_fetch cell v = (cell + v, cell + v)"
definition sub_and_fetch :: "u32 \<Rightarrow> u32 \<Rightarrow> u32 \<times> u32" where "sub_and_fetch cell v = (cell - v, cell - v)"

definition atomic_read :: "u32 \<Rightarrow> u32 \<times> u32" where "atomic_read cell = fetch_and_add cell 0"
definition atomic_set :: "u32 \<Rightarrow> u32 \<Rightarrow> u32" where "atomic_set val cell = val"
definition atomic_inc :: "u32 \<Rightarrow> u32" where "atomic_inc cell = snd (add_and_fetch cell 1)"
definition atomic_dec :: "u32 \<Rightarrow> u32" where "atomic_dec cell = snd (sub_and_fetch cell 1)"
definition atomic_inc_return :: "u32 \<Rightarrow> u32 \<times> u32" where "atomic_inc_return cell = add_and_fetch cell 1"

text \<open>\<open>spin_lock\<close>: where a processor is in its two loops, and one access; \<open>None\<close> is the return.\<close>

datatype lock_pc = TestAndSet | WaitFree

definition spin_lock_step :: "lock_pc \<Rightarrow> u32 \<Rightarrow> lock_pc option \<times> u32" where
  "spin_lock_step pc cell =
     (case pc of
        TestAndSet \<Rightarrow> let (old, cell) = test_and_set cell 1 in if old \<noteq> 0 then (Some WaitFree, cell) else (None, cell)
      | WaitFree \<Rightarrow> if cell \<noteq> 0 then (Some WaitFree, cell) else (Some TestAndSet, cell))"

definition spin_unlock :: "u32 \<Rightarrow> u32" where "spin_unlock cell = 0"

section \<open>The call of a function on every processor\<close>

text \<open>\<open>local_result\<close> at the end of its loop.\<close>

definition local_sum :: u64 where
  "local_sum = for_up (1 :: u64) 1000001 (\<lambda>i local_result. local_result + i) 0"

datatype task_pc = Locking lock_pc | LoadResult | StoreResult u64 | Unlocking | Signal

datatype call_pc =
    SetFunc | SetReady | SetFinished | NextCpu | WaitFinished | WaitDone | Displays
  | CheckFunc | CheckReady | CallFunc | ClearFunc | Idle | NullCall
  | Task task_pc | IncFinished | DecReady

text \<open>The shared variables; \<open>iter\<close> is the loop variable of \<open>on_each_cpu\<close>, \<open>runs\<close> counts how often a
  processor has added its sum.\<close>

record calls =
  result_lock :: u32
  shared_result :: u64
  cores_done :: u32
  cpus_ready :: u32
  cpus_finished :: u32
  global_func :: bool
  iter :: u32
  cpc :: "nat \<Rightarrow> call_pc"
  runs :: "nat \<Rightarrow> nat"

definition goto :: "nat \<Rightarrow> call_pc \<Rightarrow> calls \<Rightarrow> calls" where
  "goto i pc s = s\<lparr>cpc := (cpc s)(i := pc)\<rparr>"

text \<open>\<open>computation_task\<close>.\<close>

definition task_step :: "task_pc \<Rightarrow> nat \<Rightarrow> calls \<Rightarrow> calls" where
  "task_step pc i s =
     (case pc of
        Locking l \<Rightarrow>
          (case spin_lock_step l (result_lock s) of
             (Some l, cell) \<Rightarrow> goto i (Task (Locking l)) (s\<lparr>result_lock := cell\<rparr>)
           | (None, cell) \<Rightarrow> goto i (Task LoadResult) (s\<lparr>result_lock := cell\<rparr>))
      | LoadResult \<Rightarrow> goto i (Task (StoreResult (shared_result s))) s
      | StoreResult r \<Rightarrow> goto i (Task Unlocking)
          (s\<lparr>shared_result := r + local_sum, runs := (runs s)(i := runs s i + 1)\<rparr>)
      | Unlocking \<Rightarrow> goto i (Task Signal) (s\<lparr>result_lock := spin_unlock (result_lock s)\<rparr>)
      | Signal \<Rightarrow> goto i IncFinished (s\<lparr>cores_done := atomic_inc (cores_done s)\<rparr>))"

text \<open>\<open>on_each_cpu\<close> and the wait of \<open>kernel_main\<close> for \<open>cores_done\<close>, on processor 0, and the loop of
  \<open>ap_boot_complete\<close>.  The call \<open>global_func(global_info)\<close> reads the variable again after the atomic
  access, which the compiler may not move it across; when it is \<open>NULL\<close> by then the processor jumps to
  address 0.  A halted processor goes round its loop when something wakes it.\<close>

definition call_step :: "u32 \<Rightarrow> nat \<Rightarrow> calls \<Rightarrow> calls" where
  "call_step cpu_count i s =
     (case cpc s i of
        SetFunc \<Rightarrow> goto i SetReady (s\<lparr>global_func := True\<rparr>)
      | SetReady \<Rightarrow> goto i SetFinished (s\<lparr>cpus_ready := atomic_set cpu_count (cpus_ready s)\<rparr>)
      | SetFinished \<Rightarrow> goto i NextCpu (s\<lparr>cpus_finished := atomic_set 0 (cpus_finished s), iter := 0\<rparr>)
      | NextCpu \<Rightarrow>
          if sint (iter s) < sint cpu_count then
            if 0 < sint (fst (atomic_read (cpus_ready s))) then goto i (Task (Locking TestAndSet)) s
            else s\<lparr>iter := iter s + 1\<rparr>
          else goto i WaitFinished s
      | WaitFinished \<Rightarrow> if sint (fst (atomic_read (cpus_finished s))) < sint cpu_count then s else goto i WaitDone s
      | WaitDone \<Rightarrow> if sint (fst (atomic_read (cores_done s))) < sint cpu_count then s else goto i Displays s
      | Displays \<Rightarrow> s
      | CheckFunc \<Rightarrow> if global_func s then goto i CheckReady s else goto i Idle s
      | CheckReady \<Rightarrow> if 0 < sint (fst (atomic_read (cpus_ready s))) then goto i CallFunc s else goto i Idle s
      | CallFunc \<Rightarrow> if global_func s then goto i (Task (Locking TestAndSet)) s else goto i NullCall s
      | NullCall \<Rightarrow> s
      | Task pc \<Rightarrow> task_step pc i s
      | IncFinished \<Rightarrow> goto i DecReady (s\<lparr>cpus_finished := atomic_inc (cpus_finished s)\<rparr>)
      | DecReady \<Rightarrow>
          (let s = s\<lparr>cpus_ready := atomic_dec (cpus_ready s)\<rparr>
           in if i = 0 then goto i NextCpu (s\<lparr>iter := iter s + 1\<rparr>) else goto i ClearFunc s)
      | ClearFunc \<Rightarrow> goto i Idle (s\<lparr>global_func := False\<rparr>)
      | Idle \<Rightarrow> goto i CheckFunc s)"

definition calls_init :: calls where
  "calls_init = \<lparr>result_lock = 0, shared_result = 0, cores_done = 0, cpus_ready = 0, cpus_finished = 0,
     global_func = False, iter = 0, cpc = (\<lambda>i. if i = 0 then SetFunc else CheckFunc), runs = (\<lambda>_. 0)\<rparr>"

text \<open>Any interleaving of \<open>cpus\<close> processors; one that has not been started yet is one that makes no
  step.\<close>

inductive calls_run :: "u32 \<Rightarrow> nat \<Rightarrow> calls \<Rightarrow> bool" for cpu_count :: u32 and cpus :: nat where
  calls_start: "calls_run cpu_count cpus calls_init"
| calls_next: "calls_run cpu_count cpus s \<Longrightarrow> i < cpus \<Longrightarrow> calls_run cpu_count cpus (call_step cpu_count i s)"

section \<open>The lock\<close>

text \<open>Every processor keeps to its own code.\<close>

definition own_code :: "nat \<Rightarrow> call_pc \<Rightarrow> bool" where
  "own_code i pc =
     (case pc of
        Task _ \<Rightarrow> True | IncFinished \<Rightarrow> True | DecReady \<Rightarrow> True
      | CheckFunc \<Rightarrow> i \<noteq> 0 | CheckReady \<Rightarrow> i \<noteq> 0 | CallFunc \<Rightarrow> i \<noteq> 0 | ClearFunc \<Rightarrow> i \<noteq> 0 | Idle \<Rightarrow> i \<noteq> 0 | NullCall \<Rightarrow> i \<noteq> 0
      | _ \<Rightarrow> i = 0)"

text \<open>Between \<open>spin_lock\<close> and \<open>spin_unlock\<close>.\<close>

definition in_lock :: "call_pc \<Rightarrow> bool" where
  "in_lock pc = (case pc of Task LoadResult \<Rightarrow> True | Task (StoreResult _) \<Rightarrow> True | Task Unlocking \<Rightarrow> True | _ \<Rightarrow> False)"

lemma in_lock_simps [simp]:
  "in_lock (Task LoadResult)" "in_lock (Task (StoreResult r))" "in_lock (Task Unlocking)" "\<not> in_lock (Task (Locking l))"
  "\<not> in_lock (Task Signal)" "\<not> in_lock IncFinished" "\<not> in_lock DecReady" "\<not> in_lock NextCpu" "\<not> in_lock ClearFunc"
  "\<not> in_lock SetFunc" "\<not> in_lock SetReady" "\<not> in_lock SetFinished" "\<not> in_lock WaitFinished" "\<not> in_lock WaitDone"
  "\<not> in_lock Displays" "\<not> in_lock CheckFunc" "\<not> in_lock CheckReady" "\<not> in_lock CallFunc" "\<not> in_lock Idle" "\<not> in_lock NullCall"
  by (simp_all add: in_lock_def)

lemmas call_step_defs = call_step_def task_step_def goto_def spin_lock_step_def spin_unlock_def test_and_set_def Let_def

lemma call_step_other [simp]:
  "j \<noteq> i \<Longrightarrow> cpc (call_step c i s) j = cpc s j" "j \<noteq> i \<Longrightarrow> runs (call_step c i s) j = runs s j"
  by (auto simp: call_step_defs split: call_pc.splits task_pc.splits lock_pc.splits)

lemma own_code_run: "calls_run c n s \<Longrightarrow> own_code i (cpc s i)"
proof (induction rule: calls_run.induct)
  case calls_start
  then show ?case by (simp add: calls_init_def own_code_def)
next
  case (calls_next s j)
  then show ?case
    by (cases "i = j"; cases "cpc s j") (auto simp: call_step_defs own_code_def split: task_pc.splits lock_pc.splits)
qed

definition unlocked :: "nat \<Rightarrow> calls \<Rightarrow> bool" where
  "unlocked n s \<longleftrightarrow> result_lock s = 0 \<and> (\<forall>j<n. \<not> in_lock (cpc s j))"

definition locked_by :: "nat \<Rightarrow> nat \<Rightarrow> calls \<Rightarrow> bool" where
  "locked_by n h s \<longleftrightarrow> h < n \<and> result_lock s = 1 \<and> in_lock (cpc s h) \<and> (\<forall>j<n. j \<noteq> h \<longrightarrow> \<not> in_lock (cpc s j))
     \<and> (\<forall>r. cpc s h = Task (StoreResult r) \<longrightarrow> r = shared_result s)"

definition total_runs :: "nat \<Rightarrow> calls \<Rightarrow> nat" where
  "total_runs n s = (\<Sum>j<n. runs s j)"

text \<open>The states in which a processor neither takes nor gives up the lock nor adds its sum.\<close>

lemma step_lock_free:
  assumes "\<not> in_lock (cpc s i)" "cpc s i \<noteq> Task (Locking TestAndSet)"
  shows "result_lock (call_step c i s) = result_lock s \<and> \<not> in_lock (cpc (call_step c i s) i)
    \<and> shared_result (call_step c i s) = shared_result s \<and> runs (call_step c i s) = runs s"
  using assms by (cases "cpc s i") (auto simp: call_step_defs split: task_pc.splits lock_pc.splits)

lemma step_lock_in:
  "cpc s i = Task (Locking TestAndSet) \<Longrightarrow> call_step c i s = (if result_lock s = 0 then goto i (Task LoadResult) (s\<lparr>result_lock := 1\<rparr>)
     else goto i (Task (Locking WaitFree)) (s\<lparr>result_lock := 1\<rparr>))"
  "cpc s i = Task LoadResult \<Longrightarrow> call_step c i s = goto i (Task (StoreResult (shared_result s))) s"
  "cpc s i = Task (StoreResult r) \<Longrightarrow> call_step c i s = goto i (Task Unlocking) (s\<lparr>shared_result := r + local_sum, runs := (runs s)(i := runs s i + 1)\<rparr>)"
  "cpc s i = Task Unlocking \<Longrightarrow> call_step c i s = goto i (Task Signal) (s\<lparr>result_lock := 0\<rparr>)"
  by (simp_all add: call_step_defs)

lemma in_lock_cases:
  assumes "in_lock pc" obtains "pc = Task LoadResult" | r where "pc = Task (StoreResult r)" | "pc = Task Unlocking"
  using assms unfolding in_lock_def by (cases pc) (auto split: task_pc.splits)

lemma goto_sel [simp]:
  "cpc (goto i pc s) = (cpc s)(i := pc)" "result_lock (goto i pc s) = result_lock s" "runs (goto i pc s) = runs s"
  "shared_result (goto i pc s) = shared_result s" "cores_done (goto i pc s) = cores_done s"
  "cpus_finished (goto i pc s) = cpus_finished s" "cpus_ready (goto i pc s) = cpus_ready s"
  "global_func (goto i pc s) = global_func s" "iter (goto i pc s) = iter s"
  by (simp_all add: goto_def)

lemma holds:
  assumes "unlocked n s \<or> (\<exists>h. locked_by n h s)" "i < n" "in_lock (cpc s i)"
  shows "locked_by n i s"
proof -
  obtain h where h: "locked_by n h s"
    using assms by (auto simp: unlocked_def)
  then have "h = i"
    using assms(2,3) unfolding locked_by_def by blast
  then show ?thesis using h by simp
qed

lemma lock_step:
  assumes "unlocked n s \<or> (\<exists>h. locked_by n h s)" "i < n"
  shows "unlocked n (call_step c i s) \<or> (\<exists>h. locked_by n h (call_step c i s))"
proof (cases "\<not> in_lock (cpc s i) \<and> cpc s i \<noteq> Task (Locking TestAndSet)")
  case True
  have "cpc (call_step c i s) j = cpc s j \<or> (j = i \<and> \<not> in_lock (cpc (call_step c i s) j))" for j
    using step_lock_free [of s i c] True by (cases "j = i") auto
  then have pcs: "in_lock (cpc (call_step c i s) j) \<Longrightarrow> cpc (call_step c i s) j = cpc s j" "j \<noteq> i \<Longrightarrow> cpc (call_step c i s) j = cpc s j" for j
    by (auto simp: call_step_other)
  from assms(1) show ?thesis
  proof
    assume "unlocked n s"
    then have "unlocked n (call_step c i s)"
      using step_lock_free [of s i c] True pcs by (metis unlocked_def)
    then show ?thesis ..
  next
    assume "\<exists>h. locked_by n h s"
    then obtain h where h: "locked_by n h s" by blast
    then have "h \<noteq> i"
      using True by (auto simp: locked_by_def)
    then have "locked_by n h (call_step c i s)"
      using h step_lock_free [of s i c] True pcs unfolding locked_by_def by metis
    then show ?thesis by blast
  qed
next
  case False
  then consider (grab) "cpc s i = Task (Locking TestAndSet)" | (load) "cpc s i = Task LoadResult"
    | (store) r where "cpc s i = Task (StoreResult r)" | (unlock) "cpc s i = Task Unlocking"
    using in_lock_cases by blast
  then show ?thesis
  proof cases
    case grab
    show ?thesis
    proof (cases "result_lock s = 0")
      case True
      then have "locked_by n i (call_step c i s)"
        using assms grab by (auto simp: step_lock_in(1) locked_by_def unlocked_def)
      then show ?thesis by blast
    next
      case False
      then obtain h where h: "locked_by n h s"
        using assms(1) by (auto simp: unlocked_def)
      then have "h \<noteq> i"
        using grab by (auto simp: locked_by_def)
      then have "locked_by n h (call_step c i s)"
        using h grab False by (auto simp: step_lock_in(1) locked_by_def)
      then show ?thesis by blast
    qed
  next
    case load
    then have "locked_by n i s"
      using holds [OF assms] by simp
    then have "locked_by n i (call_step c i s)"
      using load by (simp add: step_lock_in(2) locked_by_def)
    then show ?thesis by blast
  next
    case store
    then have "locked_by n i s"
      using holds [OF assms] by simp
    then have "locked_by n i (call_step c i s)"
      using store by (simp add: step_lock_in(3) locked_by_def)
    then show ?thesis by blast
  next
    case unlock
    then have "locked_by n i s"
      using holds [OF assms] by simp
    then have "unlocked n (call_step c i s)"
      using unlock by (simp add: step_lock_in(4) locked_by_def unlocked_def)
    then show ?thesis ..
  qed
qed

lemma lock_run: "calls_run c n s \<Longrightarrow> unlocked n s \<or> (\<exists>h. locked_by n h s)"
proof (induction rule: calls_run.induct)
  case calls_start
  then show ?case by (simp add: unlocked_def calls_init_def)
qed (simp add: lock_step)

lemma holder: "calls_run c n s \<Longrightarrow> i < n \<Longrightarrow> in_lock (cpc s i) \<Longrightarrow> locked_by n i s"
  by (rule holds [OF lock_run])

lemma total_runs_add: "i < n \<Longrightarrow> total_runs n (s\<lparr>runs := (runs s)(i := runs s i + 1)\<rparr>) = total_runs n s + 1"
  by (simp add: total_runs_def sum.remove [of "{..<n}" i])

lemma total_runs_cong: "runs t = runs s \<Longrightarrow> total_runs n t = total_runs n s"
  by (simp add: total_runs_def)

lemma step_runs:
  "runs (call_step c i s) = (case cpc s i of Task (StoreResult r) \<Rightarrow> (runs s)(i := runs s i + 1) | _ \<Rightarrow> runs s)"
  by (auto simp: call_step_defs split: call_pc.splits task_pc.splits lock_pc.splits)

lemma shared_result_run: "calls_run c n s \<Longrightarrow> shared_result s = of_nat (total_runs n s) * local_sum"
proof (induction rule: calls_run.induct)
  case calls_start
  then show ?case by (simp add: calls_init_def total_runs_def)
next
  case (calls_next s i)
  show ?case
  proof (cases "\<exists>r. cpc s i = Task (StoreResult r)")
    case True
    then obtain r where r: "cpc s i = Task (StoreResult r)" by blast
    then have "r = shared_result s"
      using holder [OF calls_next(1,2)] by (simp add: locked_by_def)
    then show ?thesis
      using calls_next total_runs_add [of i n s] r
      by (simp add: step_lock_in(3) total_runs_def algebra_simps)
  next
    case False
    then have "runs (call_step c i s) = runs s" "shared_result (call_step c i s) = shared_result s"
      by (auto simp: call_step_defs split: call_pc.splits task_pc.splits lock_pc.splits)
    then show ?thesis
      using calls_next by (simp add: total_runs_def)
  qed
qed

text \<open>C32: The lock protects the result: whatever the interleaving, at most one processor is between
  \<open>spin_lock\<close> and \<open>spin_unlock\<close>, the lock is 1 exactly when one is, and the shared result is the sum of
  1 to 1000000 times the number of additions made: none is lost.\<close>

theorem spinlock_protects:
  assumes "calls_run cpu_count n s"
  shows "card {i. i < n \<and> in_lock (cpc s i)} \<le> 1 \<and> unat (result_lock s) = card {i. i < n \<and> in_lock (cpc s i)}
    \<and> shared_result s = of_nat (\<Sum>j<n. runs s j) * 500000500000"
proof -
  have local: "local_sum = 500000500000"
    by (simp add: local_sum_def sum_loop Sum_Ico_nat)
  from lock_run [OF assms] show ?thesis
  proof
    assume "unlocked n s"
    then have none: "card {i. i < n \<and> in_lock (cpc s i)} = 0" and "result_lock s = 0"
      by (auto simp: unlocked_def card_eq_0_iff)
    then show ?thesis
      using shared_result_run [OF assms] local unfolding none by (simp add: total_runs_def)
  next
    assume "\<exists>h. locked_by n h s"
    then obtain h where "{i. i < n \<and> in_lock (cpc s i)} = {h}" "result_lock s = 1"
      by (auto simp: locked_by_def)
    then show ?thesis
      using shared_result_run [OF assms] local by (simp add: total_runs_def)
  qed
qed

section \<open>How often the task runs\<close>

lemma sum_change:
  fixes f g :: "nat \<Rightarrow> nat"
  assumes "i < n" "\<And>j. j \<noteq> i \<Longrightarrow> f j = g j"
  shows "(\<Sum>j<n. f j) + g i = (\<Sum>j<n. g j) + f i"
proof -
  have "(\<Sum>j\<in>{..<n} - {i}. f j) = (\<Sum>j\<in>{..<n} - {i}. g j)"
    using assms(2) by (intro sum.cong) auto
  then show ?thesis
    using sum.remove [of "{..<n}" i f] sum.remove [of "{..<n}" i g] assms(1) by simp
qed

text \<open>Sums that \<open>cpus_finished\<close> does not count yet.\<close>

definition unfinished :: "call_pc \<Rightarrow> bool" where
  "unfinished pc \<longleftrightarrow> pc = Task Unlocking \<or> pc = Task Signal \<or> pc = IncFinished"

definition due :: "nat \<Rightarrow> calls \<Rightarrow> nat" where
  "due n s = (\<Sum>j<n. if unfinished (cpc s j) then 1 else 0)"

lemma due_step:
  assumes "i < n"
  shows "due n (call_step c i s) + (if unfinished (cpc s i) then 1 else 0)
    = due n s + (if unfinished (cpc (call_step c i s) i) then 1 else 0)"
  unfolding due_def
  by (rule sum_change [OF assms, where f = "\<lambda>j. if unfinished (cpc (call_step c i s) j) then 1 else 0"
        and g = "\<lambda>j. if unfinished (cpc s j) then 1 else 0"]) simp

lemma total_runs_step:
  assumes "i < n"
  shows "total_runs n (call_step c i s) + runs s i = total_runs n s + runs (call_step c i s) i"
  unfolding total_runs_def by (rule sum_change [OF assms, where f = "runs (call_step c i s)" and g = "runs s"]) simp

lemma unat_inc_le: "unat (x + 1) \<le> unat x + 1" for x :: u32
  using unat_plus_if' [of x 1] by (simp split: if_splits)

lemma sint_small_less: "unat x < 2 ^ 31 \<Longrightarrow> \<not> sint y < sint x \<Longrightarrow> unat x \<le> unat y" for x y :: u32
proof -
  assume x: "unat x < 2 ^ 31" and "\<not> sint y < sint x"
  then have "int (unat x) \<le> sint y"
    using sint_small [of x] by linarith
  moreover have "sint y \<le> int (unat y)"
    unfolding sint32 by simp
  ultimately show ?thesis by linarith
qed

lemma finished_run:
  assumes "calls_run cpu_count n s"
  shows "unat (cpus_finished s) + due n s \<le> total_runs n s"
  using assms
proof (induction rule: calls_run.induct)
  case calls_start
  have "due n calls_init = 0"
    unfolding due_def by (intro sum.neutral) (auto simp: calls_init_def unfinished_def)
  then show ?case by (simp add: calls_init_def)
next
  case (calls_next s i)
  have "unat (cpus_finished (call_step cpu_count i s)) + due n (call_step cpu_count i s) + runs s i
      \<le> unat (cpus_finished s) + due n s + runs (call_step cpu_count i s) i"
    using due_step [OF calls_next(2), of cpu_count s] unat_inc_le [of "cpus_finished s"]
    by (cases "cpc s i") (auto simp: call_step_defs unfinished_def atomic_inc_def add_and_fetch_def atomic_set_def
        split: task_pc.splits lock_pc.splits if_splits)
  then show ?case
    using calls_next(3) total_runs_step [OF calls_next(2), of cpu_count s] by linarith
qed

text \<open>How often each processor has run the task, by where it is: processor 0 at most once for each round
  of its loop, the others at most once, because the first thing they do after it is to clear
  \<open>global_func\<close>.\<close>

definition adding :: "call_pc \<Rightarrow> bool" where
  "adding pc \<longleftrightarrow> (\<exists>l. pc = Task (Locking l)) \<or> pc = Task LoadResult \<or> (\<exists>r. pc = Task (StoreResult r))"

definition added :: "call_pc \<Rightarrow> bool" where
  "added pc \<longleftrightarrow> unfinished pc \<or> pc = DecReady"

definition waiting :: "call_pc \<Rightarrow> bool" where
  "waiting pc \<longleftrightarrow> pc = WaitFinished \<or> pc = WaitDone \<or> pc = Displays"

definition setting :: "call_pc \<Rightarrow> bool" where
  "setting pc \<longleftrightarrow> pc = SetFunc \<or> pc = SetReady \<or> pc = SetFinished"

definition bsp_runs :: "nat \<Rightarrow> call_pc \<Rightarrow> nat \<Rightarrow> nat \<Rightarrow> bool" where
  "bsp_runs N pc it r \<longleftrightarrow> (setting pc \<longrightarrow> r = 0) \<and> (pc = NextCpu \<longrightarrow> r \<le> it \<and> it \<le> N)
     \<and> (adding pc \<longrightarrow> r \<le> it \<and> it < N) \<and> (added pc \<longrightarrow> r \<le> it + 1 \<and> it < N) \<and> (waiting pc \<longrightarrow> r \<le> N)"

definition ap_runs :: "bool \<Rightarrow> call_pc \<Rightarrow> call_pc \<Rightarrow> nat \<Rightarrow> bool" where
  "ap_runs func bsp pc r \<longleftrightarrow> (adding pc \<or> pc = CheckReady \<or> pc = CallFunc \<longrightarrow> r = 0 \<and> bsp \<noteq> SetFunc)
     \<and> (added pc \<or> pc = ClearFunc \<longrightarrow> r = 1 \<and> bsp \<noteq> SetFunc)
     \<and> r \<le> 1 \<and> (pc = CheckFunc \<or> pc = Idle \<longrightarrow> r = 1 \<longrightarrow> \<not> func \<and> bsp \<noteq> SetFunc)"

lemmas runs_defs = bsp_runs_def ap_runs_def adding_def added_def unfinished_def waiting_def setting_def own_code_def

lemma sint_of_nat32: "N < 2 ^ 31 \<Longrightarrow> sint (of_nat N :: u32) = int N"
  using sint_small [of "of_nat N"] unat_of_nat_lt [of N, where 'a = 32] by simp

lemma iter_next:
  assumes "N < 2 ^ 31" "unat (it :: u32) \<le> N"
  shows "sint it < sint (of_nat N :: u32) \<longleftrightarrow> unat it < N" "unat it < N \<Longrightarrow> unat (it + 1) = unat it + 1"
proof -
  have "sint it = int (unat it)"
    using assms by (intro sint_small) simp
  then show "sint it < sint (of_nat N :: u32) \<longleftrightarrow> unat it < N"
    using sint_of_nat32 [OF assms(1)] by (simp only: of_nat_less_iff)
  show "unat it < N \<Longrightarrow> unat (it + 1) = unat it + 1"
    using assms unat_add_const_lt [of it 1] by simp
qed

lemma bsp_runs_step:
  assumes b: "bsp_runs N (cpc s 0) (unat (iter s)) (runs s 0)" and "own_code 0 (cpc s 0)" and N: "N < 2 ^ 31"
  defines "t \<equiv> call_step (of_nat N) 0 s"
  shows "bsp_runs N (cpc t 0) (unat (iter t)) (runs t 0)"
proof (cases "cpc s 0")
  case NextCpu
  then have le: "runs s 0 \<le> unat (iter s)" "unat (iter s) \<le> N"
    using b by (simp_all add: runs_defs)
  show ?thesis
    using NextCpu le iter_next(2) [OF N le(2)] unfolding t_def call_step_defs
    by (simp add: iter_next(1) [OF N le(2)] runs_defs)
next
  case DecReady
  then have le: "runs s 0 \<le> unat (iter s) + 1" "unat (iter s) < N"
    using b by (simp_all add: runs_defs)
  show ?thesis
    using DecReady le iter_next(2) [OF N _ le(2)] unfolding t_def call_step_defs by (simp add: runs_defs)
next
  case (Task pc)
  then show ?thesis
    using b unfolding t_def call_step_defs by (cases pc) (simp_all add: runs_defs split: lock_pc.split)
qed (use assms in \<open>simp_all add: runs_defs call_step_defs\<close>)

lemma ap_step_bsp: "i \<noteq> 0 \<Longrightarrow> own_code i (cpc s i) \<Longrightarrow> cpc (call_step c i s) 0 = cpc s 0 \<and> iter (call_step c i s) = iter s
    \<and> (global_func (call_step c i s) \<longrightarrow> global_func s) \<and> (cpc s i \<noteq> ClearFunc \<longrightarrow> global_func (call_step c i s) = global_func s)"
  by (cases "cpc s i") (auto simp: call_step_defs own_code_def split: task_pc.splits lock_pc.splits)

lemma ap_runs_step:
  fixes cpu_count :: u32
  assumes "ap_runs (global_func s) (cpc s 0) (cpc s i) (runs s i)" "own_code i (cpc s i)" "i \<noteq> 0"
    and "global_func s \<longrightarrow> cpc s 0 \<noteq> SetFunc"
  defines "t \<equiv> call_step cpu_count i s"
  shows "ap_runs (global_func t) (cpc t 0) (cpc t i) (runs t i)"
proof (cases "cpc s i")
  case (Task pc)
  then show ?thesis
    using assms by (cases pc) (simp_all add: call_step_defs runs_defs split: lock_pc.split)
qed (use assms in \<open>auto simp: call_step_defs runs_defs\<close>)

lemma ap_runs_other:
  fixes cpu_count :: u32
  assumes "ap_runs (global_func s) (cpc s 0) (cpc s j) (runs s j)" "j \<noteq> 0" "i \<noteq> j" "own_code i (cpc s i)"
  defines "t \<equiv> call_step cpu_count i s"
  shows "ap_runs (global_func t) (cpc t 0) (cpc t j) (runs t j)"
proof (cases "i = 0")
  case True
  have "cpc t 0 \<noteq> SetFunc" "cpc s 0 \<noteq> SetFunc \<longrightarrow> global_func t = global_func s"
    using assms(4) True unfolding t_def
    by (cases "cpc s 0"; auto simp: call_step_defs own_code_def split: task_pc.splits lock_pc.splits)+
  then show ?thesis
    using assms(1-3) unfolding t_def by (auto simp: ap_runs_def)
next
  case False
  then show ?thesis
    using ap_step_bsp [OF False assms(4), of cpu_count] assms(1-3) unfolding t_def by (auto simp: ap_runs_def)
qed

definition runs_inv :: "nat \<Rightarrow> nat \<Rightarrow> calls \<Rightarrow> bool" where
  "runs_inv N n s \<longleftrightarrow> bsp_runs N (cpc s 0) (unat (iter s)) (runs s 0) \<and> (global_func s \<longrightarrow> cpc s 0 \<noteq> SetFunc)
     \<and> (\<forall>i<n. i \<noteq> 0 \<longrightarrow> ap_runs (global_func s) (cpc s 0) (cpc s i) (runs s i))"

lemma runs_inv_run:
  assumes "calls_run (of_nat N) n s" "N < 2 ^ 31"
  shows "runs_inv N n s"
  using assms(1)
proof (induction rule: calls_run.induct)
  case calls_start
  then show ?case
    by (simp add: runs_inv_def calls_init_def runs_defs)
next
  case (calls_next s i)
  note own = own_code_run [OF calls_next(1)]
  let ?t = "call_step (of_nat N) i s"
  have "ap_runs (global_func ?t) (cpc ?t 0) (cpc ?t j) (runs ?t j)" if "j < n" "j \<noteq> 0" for j
  proof (cases "i = j")
    case True
    then show ?thesis
      using ap_runs_step [of s j] that own calls_next(3) by (simp add: runs_inv_def)
  next
    case False
    then show ?thesis
      using ap_runs_other [of s j i] that own calls_next(3) by (simp add: runs_inv_def)
  qed
  moreover have "bsp_runs N (cpc ?t 0) (unat (iter ?t)) (runs ?t 0) \<and> (global_func ?t \<longrightarrow> cpc ?t 0 \<noteq> SetFunc)"
  proof (cases "i = 0")
    case True
    then have "cpc ?t 0 \<noteq> SetFunc"
      using own [of 0] by (cases "cpc s 0") (auto simp: call_step_defs own_code_def split: task_pc.splits lock_pc.splits)
    then show ?thesis
      using bsp_runs_step [OF _ own assms(2)] calls_next(3) True by (simp add: runs_inv_def)
  next
    case False
    then show ?thesis
      using ap_step_bsp [OF False own, of "of_nat N"] calls_next(3) by (auto simp: runs_inv_def)
  qed
  ultimately show ?case
    by (simp add: runs_inv_def)
qed

lemma waited_run:
  assumes "calls_run (of_nat N) n s" "N < 2 ^ 31" "0 < n"
  shows "cpc s 0 = WaitDone \<or> cpc s 0 = Displays \<Longrightarrow> N \<le> total_runs n s"
  using assms(1)
proof (induction rule: calls_run.induct)
  case calls_start
  then show ?case by (simp add: calls_init_def)
next
  case (calls_next s i)
  have mono: "total_runs n s \<le> total_runs n (call_step (of_nat N) i s)"
    using total_runs_step [OF calls_next(2), of "of_nat N" s] by (simp add: step_runs split: call_pc.splits task_pc.splits)
  show ?case
  proof (cases "cpc s 0 = WaitFinished \<and> i = 0")
    case True
    then have "\<not> sint (cpus_finished s) < sint (of_nat N :: u32)"
      using calls_next.prems by (auto simp: call_step_defs atomic_read_def fetch_and_add_def split: if_splits)
    then have "N \<le> unat (cpus_finished s)"
      using sint_small_less [of "of_nat N" "cpus_finished s"] unat_of_nat_lt [of N, where 'a = 32] assms(2) by simp
    then show ?thesis
      using mono finished_run [OF calls_next(1)] by simp
  next
    case False
    have "cpc s 0 = WaitDone \<or> cpc s 0 = Displays"
    proof (cases "i = 0")
      case True
      then show ?thesis
        using False calls_next.prems
        by (cases "cpc s 0") (auto simp: call_step_defs split: task_pc.splits lock_pc.splits if_splits)
    next
      case False
      then show ?thesis
        using calls_next.prems by simp
    qed
    then show ?thesis
      using mono calls_next.IH by simp
  qed
qed

lemma call_result:
  assumes "calls_run (of_nat N) n s" "N < 2 ^ 20" "0 < n" "n < 2 ^ 20" "cpc s 0 = Displays"
  shows "\<exists>r. N \<le> r \<and> r \<le> N + (n - 1) \<and> shared_result s = of_nat r * 500000500000
    \<and> (shared_result s = 500000500000 * of_nat N \<longleftrightarrow> r = N)"
proof -
  have small: "N < 2 ^ 31"
    using assms(2) by simp
  note inv = runs_inv_run [OF assms(1) small]
  let ?r = "total_runs n s"
  have "(\<Sum>j\<in>{..<n} - {0}. runs s j) \<le> (\<Sum>j\<in>{..<n} - {0}. 1)"
    using inv by (intro sum_mono) (auto simp: runs_inv_def ap_runs_def)
  moreover have "runs s 0 \<le> N"
    using inv assms(5) by (simp add: runs_inv_def bsp_runs_def waiting_def)
  moreover have "?r = runs s 0 + (\<Sum>j\<in>{..<n} - {0}. runs s j)"
    using assms(3) sum.remove [of "{..<n}" 0 "runs s"] by (simp add: total_runs_def)
  ultimately have "?r \<le> N + (n - 1)"
    using assms(3) by simp
  moreover have "N \<le> ?r"
    using waited_run [OF assms(1) small assms(3)] assms(5) by simp
  moreover have res: "shared_result s = of_nat ?r * 500000500000"
    using shared_result_run [OF assms(1)] by (simp add: local_sum_def sum_loop Sum_Ico_nat)
  moreover have "shared_result s = 500000500000 * of_nat N \<longleftrightarrow> ?r = N"
  proof
    assume "shared_result s = 500000500000 * of_nat N"
    then have "of_nat (?r * 500000500000) = (of_nat (500000500000 * N) :: u64)"
      using res by simp
    moreover have "?r * 500000500000 < 2 ^ 64" "500000500000 * N < 2 ^ 64"
      using \<open>?r \<le> N + (n - 1)\<close> assms(2,4) by simp_all
    then have "unat (of_nat (?r * 500000500000) :: u64) = ?r * 500000500000"
      "unat (of_nat (500000500000 * N) :: u64) = 500000500000 * N"
      by (intro unat_of_nat_lt; simp only: len_bit0 len_num1; simp)+
    ultimately have "?r * 500000500000 = 500000500000 * N"
      by metis
    then show "?r = N" by simp
  qed (use res in \<open>simp add: ac_simps\<close>)
  ultimately show ?thesis by blast
qed

text \<open>What the old kernel displays counts the runs of its task: when processor 0 comes to the
  result, the task has run at least \<open>cpu_count\<close> times, at most once more for each other processor, and
  the result is the number of runs times the sum; so the kernel reports success exactly when no
  processor has run the task on top of the \<open>cpu_count\<close> runs that processor 0 waits for.\<close>

theorem call_result_counts:
  assumes "calls_run (of_nat N) n s" "N < 2 ^ 20" "0 < n" "n < 2 ^ 20" "cpc s 0 = Displays"
  shows "\<exists>r. N \<le> r \<and> r \<le> N + (n - 1) \<and> shared_result s = of_nat r * 500000500000
    \<and> (shared_result s = 500000500000 * of_nat N \<longleftrightarrow> r = N)"
  by (rule call_result [OF assms])

section \<open>Processor 0 alone\<close>

definition in_task :: "call_pc \<Rightarrow> bool" where
  "in_task pc \<longleftrightarrow> adding pc \<or> added pc \<or> pc = ClearFunc"

definition alone :: "nat \<Rightarrow> calls \<Rightarrow> bool" where
  "alone n s \<longleftrightarrow> (\<forall>j<n. j \<noteq> 0 \<longrightarrow> runs s j = 0 \<and> \<not> in_task (cpc s j))"

definition solo :: "nat \<Rightarrow> calls \<Rightarrow> bool" where
  "solo N s \<longleftrightarrow> (let pc = cpc s 0; it = unat (iter s) in
     (setting pc \<longrightarrow> runs s 0 = 0 \<and> cores_done s = 0) \<and> (pc = SetFinished \<longrightarrow> unat (cpus_ready s) = N)
     \<and> (pc = NextCpu \<or> adding pc \<or> added pc \<longrightarrow> unat (cpus_ready s) = N - it)
     \<and> (pc = NextCpu \<or> adding pc \<longrightarrow> it \<le> N \<and> runs s 0 = it \<and> cores_done s = iter s \<and> cpus_finished s = iter s)
     \<and> (adding pc \<or> added pc \<longrightarrow> it < N) \<and> (added pc \<longrightarrow> runs s 0 = it + 1)
     \<and> (pc = Task Unlocking \<or> pc = Task Signal \<longrightarrow> cores_done s = iter s \<and> cpus_finished s = iter s)
     \<and> (pc = IncFinished \<longrightarrow> cores_done s = iter s + 1 \<and> cpus_finished s = iter s)
     \<and> (pc = DecReady \<longrightarrow> cores_done s = iter s + 1 \<and> cpus_finished s = iter s + 1)
     \<and> (waiting pc \<longrightarrow> runs s 0 = N \<and> cores_done s = of_nat N \<and> cpus_finished s = of_nat N))"

lemmas atomic_defs = atomic_read_def atomic_set_def atomic_inc_def atomic_dec_def fetch_and_add_def add_and_fetch_def sub_and_fetch_def
lemmas solo_defs = solo_def Let_def setting_def adding_def added_def unfinished_def waiting_def

lemma unat_dec: "0 < unat x \<Longrightarrow> unat (x - 1) = unat x - 1" for x :: u32
  by (subst unat_sub) (simp_all add: word_le_nat_alt)

lemma sint_positive: "unat x < 2 ^ 31 \<Longrightarrow> 0 < sint x \<longleftrightarrow> 0 < unat x" for x :: u32
  using sint_small [of x] by linarith

lemma solo_step:
  assumes so: "solo N s" and N: "N < 2 ^ 31" and "own_code 0 (cpc s 0)"
  shows "solo N (call_step (of_nat N) 0 s)"
proof (cases "cpc s 0")
  case NextCpu
  then have le: "unat (iter s) \<le> N" and f: "runs s 0 = unat (iter s)" "cores_done s = iter s" "cpus_finished s = iter s"
    "unat (cpus_ready s) = N - unat (iter s)"
    using so by (simp_all add: solo_defs)
  have pos: "0 < sint (cpus_ready s) \<longleftrightarrow> unat (iter s) < N"
    using sint_positive [of "cpus_ready s"] f(4) N by simp
  show ?thesis
  proof (cases "unat (iter s) < N")
    case True
    then have "call_step (of_nat N) 0 s = goto 0 (Task (Locking TestAndSet)) s"
      using NextCpu pos by (simp add: call_step_def iter_next(1) [OF N le] atomic_defs)
    then show ?thesis
      using True le f by (simp add: solo_defs)
  next
    case False
    then have "iter s = of_nat N"
      using le by (simp add: word_unat_eq_iff unat_of_nat_lt [OF order.strict_trans [OF N]])
    moreover have "call_step (of_nat N) 0 s = goto 0 WaitFinished s"
      using NextCpu False by (simp add: call_step_def iter_next(1) [OF N le])
    ultimately show ?thesis
      using False le f by (simp add: solo_defs)
  qed
next
  case DecReady
  then have f: "unat (iter s) < N" "runs s 0 = unat (iter s) + 1" "cores_done s = iter s + 1" "cpus_finished s = iter s + 1"
    "unat (cpus_ready s) = N - unat (iter s)"
    using so by (simp_all add: solo_defs)
  have "unat (iter s + 1) = unat (iter s) + 1" "unat (cpus_ready s - 1) = N - (unat (iter s) + 1)"
    using f N unat_add_const_lt [of "iter s" 1] unat_dec [of "cpus_ready s"] by simp_all
  then show ?thesis
    using DecReady f by (simp add: call_step_defs atomic_defs solo_defs)
next
  case SetReady
  then show ?thesis
    using so N unat_of_nat_lt [of N, where 'a = 32] by (simp add: call_step_defs atomic_defs solo_defs)
next
  case (Task pc)
  then show ?thesis
    using so by (cases pc) (simp_all add: call_step_defs atomic_defs solo_defs split: lock_pc.split)
qed (use assms in \<open>simp_all add: call_step_defs atomic_defs solo_defs own_code_def\<close>)

text \<open>As long as no other processor has taken the call, the others change their program counters only.\<close>

lemma alone_back:
  assumes t: "alone n (call_step c i s)" and "runs_inv N n s" "i < n"
  shows "alone n s"
proof -
  let ?t = "call_step c i s"
  have "runs s i = 0 \<and> \<not> in_task (cpc s i)" if "i \<noteq> 0"
  proof -
    have a: "runs ?t i = 0" "\<not> in_task (cpc ?t i)"
      using t that assms(3) by (simp_all add: alone_def)
    then have r: "runs s i = 0"
      by (auto simp: step_runs split: call_pc.splits task_pc.splits if_splits)
    then have "\<not> added (cpc s i)" "cpc s i \<noteq> ClearFunc"
      using assms(2,3) that by (auto simp: runs_inv_def ap_runs_def)
    moreover have "\<not> adding (cpc s i)"
      using a by (auto simp: call_step_defs in_task_def runs_defs split: call_pc.splits task_pc.splits lock_pc.splits if_splits)
    ultimately show ?thesis
      using r by (simp add: in_task_def)
  qed
  then show ?thesis
    using t unfolding alone_def by (metis call_step_other)
qed

lemma idle_step:
  assumes "\<not> in_task (cpc s i)" "own_code i (cpc s i)" "i \<noteq> 0"
  shows "\<exists>pc. call_step c i s = goto i pc s"
proof (cases "cpc s i")
  case NullCall
  then show ?thesis
    by (intro exI [of _ NullCall], cases s) (auto simp: call_step_defs)
next
  case (Task pc)
  then show ?thesis
    using assms(1) by (cases pc) (simp_all add: in_task_def runs_defs)
qed (use assms in \<open>auto simp: call_step_def own_code_def in_task_def runs_defs\<close>)

lemma solo_goto: "i \<noteq> 0 \<Longrightarrow> solo N (goto i pc s) = solo N s"
  by (simp add: solo_def)

lemma solo_run:
  assumes "calls_run (of_nat N) n s" "N < 2 ^ 31"
  shows "alone n s \<Longrightarrow> solo N s"
  using assms(1)
proof (induction rule: calls_run.induct)
  case calls_start
  then show ?case
    by (simp add: calls_init_def solo_defs)
next
  case (calls_next s i)
  note own = own_code_run [OF calls_next(1)]
  have a: "alone n s"
    by (rule alone_back [OF calls_next.prems runs_inv_run [OF calls_next(1) assms(2)] calls_next(2)])
  show ?case
  proof (cases "i = 0")
    case True
    then show ?thesis
      using solo_step [OF calls_next.IH [OF a] assms(2) own] by simp
  next
    case False
    then obtain pc where "call_step (of_nat N) i s = goto i pc s"
      using idle_step [of s i "of_nat N"] own a calls_next(2) unfolding alone_def by metis
    then show ?thesis
      using calls_next.IH [OF a] False by (simp add: solo_goto)
  qed
qed

text \<open>How far processor 0 is from the display.\<close>

definition stage :: "call_pc \<Rightarrow> nat" where
  "stage pc = (case pc of SetFunc \<Rightarrow> 13 | SetReady \<Rightarrow> 12 | SetFinished \<Rightarrow> 11 | NextCpu \<Rightarrow> 10
     | Task (Locking WaitFree) \<Rightarrow> 9 | Task (Locking TestAndSet) \<Rightarrow> 8 | Task LoadResult \<Rightarrow> 7 | Task (StoreResult _) \<Rightarrow> 6
     | Task Unlocking \<Rightarrow> 5 | Task Signal \<Rightarrow> 4 | IncFinished \<Rightarrow> 3 | DecReady \<Rightarrow> 2 | WaitFinished \<Rightarrow> 2 | WaitDone \<Rightarrow> 1 | _ \<Rightarrow> 0)"

definition distance :: "nat \<Rightarrow> calls \<Rightarrow> nat" where
  "distance N s = stage (cpc s 0) + (if setting (cpc s 0) then 10 * N else if waiting (cpc s 0) then 0 else 10 * (N - unat (iter s)))"

lemma alone_unlocked:
  assumes "calls_run c n s" "alone n s" "0 < n" "\<not> in_lock (cpc s 0)"
  shows "result_lock s = 0"
proof -
  have "\<not> in_lock (cpc s h)" if "h < n" for h
    using assms(2,4) that by (cases "h = 0") (auto simp: alone_def in_task_def runs_defs elim!: in_lock_cases)
  then show ?thesis
    using lock_run [OF assms(1)] by (auto simp: unlocked_def locked_by_def)
qed

lemma distance_step:
  assumes run: "calls_run (of_nat N) n s" and a: "alone n s" and N: "N < 2 ^ 31" "0 < n" and "cpc s 0 \<noteq> Displays"
  shows "distance N (call_step (of_nat N) 0 s) < distance N s"
proof -
  have so: "solo N s"
    by (rule solo_run [OF run N(1) a])
  have own: "own_code 0 (cpc s 0)"
    by (rule own_code_run [OF run])
  show ?thesis
  proof (cases "cpc s 0")
    case NextCpu
    then have le: "unat (iter s) \<le> N" "unat (cpus_ready s) = N - unat (iter s)"
      using so by (simp_all add: solo_defs)
    have "0 < sint (cpus_ready s) \<longleftrightarrow> unat (iter s) < N"
      using sint_positive [of "cpus_ready s"] le N by simp
    then show ?thesis
      using NextCpu le(1) by (simp add: call_step_def iter_next(1) [OF N(1) le(1)] atomic_defs distance_def stage_def solo_defs)
  next
    case DecReady
    then have "unat (iter s) < N"
      using so by (simp add: solo_defs)
    then show ?thesis
      using DecReady unat_add_const_lt [of "iter s" 1] N by (simp add: call_step_defs distance_def stage_def solo_defs)
  next
    case (Task pc)
    then show ?thesis
      using alone_unlocked [OF run a N(2)]
      by (cases pc) (simp_all add: call_step_defs distance_def stage_def solo_defs split: lock_pc.splits)
  qed (use so own assms(5) in \<open>simp_all add: call_step_defs distance_def stage_def solo_defs own_code_def atomic_defs\<close>)
qed

lemma alone_step: "alone n s \<Longrightarrow> alone n (call_step c 0 s)"
  by (simp add: alone_def)

text \<open>Processor 0 is the only one that takes steps.\<close>

interpretation alone: progressing "\<lambda>s. calls_run (of_nat N) n s \<and> 0 < n" "call_step (of_nat N)" 1 "\<lambda>s. alone n s \<and> N < 2 ^ 31"
  "\<lambda>s. cpc s 0 = Displays" "distance N" for N n
proof
  show "calls_run (of_nat N) n (call_step (of_nat N) i s) \<and> 0 < n" if "calls_run (of_nat N) n s \<and> 0 < n" "i < 1" for i s
    using that calls_next [of "of_nat N" n s 0] by simp
  show "\<exists>i<1. (alone n (call_step (of_nat N) i s) \<and> N < 2 ^ 31) \<and> distance N (call_step (of_nat N) i s) < distance N s"
    if "calls_run (of_nat N) n s \<and> 0 < n" "alone n s \<and> N < 2 ^ 31" "cpc s 0 \<noteq> Displays" for s
    using that distance_step [of N n s] alone_step [of n s] by auto
qed

lemma alone_arrives:
  assumes "calls_run (of_nat N) n s" "alone n s" "N < 2 ^ 31" "0 < n"
  shows "\<exists>k. let t = (call_step (of_nat N) 0 ^^ k) s in cpc t 0 = Displays \<and> alone n t \<and> calls_run (of_nat N) n t"
proof -
  obtain sched where "list_all (\<lambda>i. i < 1) sched" "calls_run (of_nat N) n (fold (call_step (of_nat N)) sched s)"
    "alone n (fold (call_step (of_nat N)) sched s)" "cpc (fold (call_step (of_nat N)) sched s) 0 = Displays"
    using alone.schedule_exists [of N n s] assms by blast
  then show ?thesis
    using only_processor_0 [of sched "call_step (of_nat N)" s] by (intro exI [of _ "length sched"]) (simp add: Let_def)
qed

text \<open>C33: When no other processor has taken part, processor 0 alone still gets to the result: it runs
  the task \<open>cpu_count\<close> times itself and the result is the one it expects, so success is reported
  although no application processor has computed anything, or even started.\<close>

theorem one_processor_succeeds:
  assumes "calls_run (of_nat N) n s" "N < 2 ^ 31" "0 < n"
    and "\<forall>j<n. j \<noteq> 0 \<longrightarrow> runs s j = 0 \<and> \<not> in_task (cpc s j)"
  shows "\<exists>k. let t = (call_step (of_nat N) 0 ^^ k) s in
    cpc t 0 = Displays \<and> runs t 0 = N \<and> shared_result t = 500000500000 * of_nat N"
proof -
  obtain k where k: "let t = (call_step (of_nat N) 0 ^^ k) s in cpc t 0 = Displays \<and> alone n t \<and> calls_run (of_nat N) n t"
    using alone_arrives [OF assms(1) _ assms(2,3)] assms(4) by (auto simp: alone_def)
  let ?t = "(call_step (of_nat N) 0 ^^ k) s"
  have t: "cpc ?t 0 = Displays" "alone n ?t" "calls_run (of_nat N) n ?t"
    using k by (simp_all add: Let_def)
  have r: "runs ?t 0 = N"
    using solo_run [OF t(3) assms(2) t(2)] t(1) by (simp add: solo_defs)
  have "total_runs n ?t = N"
    using t(2) r assms(3) sum.remove [of "{..<n}" 0 "runs ?t"] by (simp add: total_runs_def alone_def)
  then have "shared_result ?t = 500000500000 * of_nat N"
    using shared_result_run [OF t(3)] by (simp add: local_sum_def sum_loop Sum_Ico_nat)
  then show ?thesis
    using t(1) r by (intro exI [of _ k]) (simp add: Let_def)
qed

section \<open>Interleavings that go wrong\<close>

interpretation interleaved: interleaving "calls_run c n" "call_step c" n for c n
  by unfold_locales (rule calls_next)

lemmas eval_calls = call_step_defs atomic_defs calls_init_def fun_upd_def

text \<open>Processor 1 takes the call and adds its sum after processor 0 has done two.\<close>

definition late_run :: calls where
  "late_run = fold (call_step 2) ([0, 0, 0, 1, 1, 1] @ replicate 17 0 @ [1, 1, 1, 1] @ [0, 0]) calls_init"

lemma late_run_result: "cpc late_run 0 = Displays" "shared_result late_run = 3 * local_sum"
  by (simp_all add: late_run_def eval_calls numeral_nat)

text \<open>Processor 1 takes the call and finishes it before processor 0 resets \<open>cpus_finished\<close>.\<close>

definition lost_run :: calls where
  "lost_run = fold (call_step 2) ([0, 0] @ replicate 11 1 @ replicate 11 0) calls_init"

lemma lost_run_state: "cpc lost_run 0 = WaitFinished" "cpc lost_run 1 = Idle" "cpus_finished lost_run = 1" "\<not> global_func lost_run"
  by (simp_all add: lost_run_def eval_calls numeral_nat)

text \<open>Processor 2 clears \<open>global_func\<close> between the two reads of processor 1.\<close>

definition null_run :: calls where
  "null_run = fold (call_step 2) ([0, 0, 0, 1, 1] @ replicate 11 2 @ [1]) calls_init"

lemma null_run_state: "cpc null_run 1 = NullCall"
  by (simp add: null_run_def eval_calls numeral_nat)

lemma demo_runs: "calls_run 2 2 late_run" "calls_run 2 2 lost_run" "calls_run 2 3 null_run"
  unfolding late_run_def lost_run_def null_run_def by (rule interleaved.run_schedule [OF calls_start], simp add: list_all_iff)+

text \<open>With two processors there is an interleaving after which the kernel displays the sum of three
  runs and reports a mismatch; with three there is one in which a processor calls \<open>NULL\<close>.\<close>

theorem call_races:
  "(\<exists>s. calls_run 2 2 s \<and> cpc s 0 = Displays \<and> shared_result s = 3 * 500000500000 \<and> shared_result s \<noteq> 500000500000 * 2)
   \<and> (\<exists>s. calls_run 2 3 s \<and> cpc s 1 = NullCall)"
proof -
  have local: "local_sum = 500000500000"
    by (simp add: local_sum_def sum_loop Sum_Ico_nat)
  have "shared_result late_run = 3 * 500000500000 \<and> shared_result late_run \<noteq> 500000500000 * 2"
    unfolding late_run_result(2) local by simp
  then show ?thesis
    using demo_runs late_run_result(1) null_run_state by blast
qed

lemma lost_forever:
  assumes "cpc s 0 = WaitFinished" "cpc s 1 = Idle \<or> cpc s 1 = CheckFunc" "cpus_finished s = 1" "\<not> global_func s" "i < 2"
  defines "t \<equiv> call_step 2 i s"
  shows "cpc t 0 = WaitFinished \<and> (cpc t 1 = Idle \<or> cpc t 1 = CheckFunc) \<and> cpus_finished t = 1 \<and> \<not> global_func t"
proof -
  have "i = 0 \<or> i = 1"
    using assms(5) by auto
  then show ?thesis
    using assms by (auto simp: call_step_defs atomic_defs)
qed


section \<open>Witnesses\<close>

theorem spinlock_protects_witness: "unat (result_lock late_run) \<le> 1"
  using spinlock_protects [OF demo_runs(1)] by linarith

theorem call_result_counts_witness: "\<exists>r. 2 \<le> r \<and> r \<le> 3 \<and> shared_result late_run = of_nat r * 500000500000"
  using call_result_counts [of 2 2 late_run] demo_runs(1) late_run_result(1) by auto

theorem one_processor_succeeds_witness:
  "\<exists>k. shared_result ((call_step 4 0 ^^ k) calls_init) = 500000500000 * 4"
  using one_processor_succeeds [of 4 3 calls_init] calls_start [of 4 3]
  by (auto simp: calls_init_def in_task_def runs_defs Let_def)

end
