(* ===== verification/Old_Serial.thy ===== *)
theory Old_Serial
  imports Machine
begin

text \<open>
  \<^verbatim>\<open>archive/old-modular/serial.c\<close>: the serial line of the old kernel and its \<open>serial_printf\<close>.

  The console is that of theory \<^verbatim>\<open>Console\<close>, of which this code uses the ports only.  The variable
  arguments are a list; a format that makes the code read past its end or fetch an argument that is
  not there, which C leaves undefined, is the fault \<open>OutOfBounds\<close>.
\<close>

section \<open>The serial line\<close>

definition old_serial_init :: "console \<Rightarrow> console" where
  "old_serial_init c =
     (let c = outb (COM1 + 1) 0x00 c;
          c = outb (COM1 + 3) 0x80 c;
          c = outb (COM1 + 0) 0x03 c;
          c = outb (COM1 + 1) 0x00 c;
          c = outb (COM1 + 3) 0x03 c;
          c = outb (COM1 + 2) 0xC7 c
      in outb (COM1 + 4) 0x0B c)"

text \<open>The polling loop is the one of \<open>putc\<close>.\<close>

definition serial_putc :: "char \<Rightarrow> console \<Rightarrow> console" where
  "serial_putc ch c = outb COM1 (byte_of ch) (putc_wait c)"

fun serial_puts :: "string \<Rightarrow> console \<Rightarrow> console" where
  "serial_puts [] c = c"
| "serial_puts (ch # s) c =
     (let c = (if ch = newline_char then serial_putc return_char c else c)
      in serial_puts s (serial_putc ch c))"

section \<open>Formatted output\<close>

text \<open>The loop that fills \<open>buf\<close>, the least significant digit first.  The callers pass the bases 10 and
  16; a base below 2 would not end.\<close>

definition base_digit :: "nat \<Rightarrow> char" where
  "base_digit digit = (if digit < 10 then char_of (48 + digit) else char_of (97 + digit - 10))"

function num_buf :: "u64 \<Rightarrow> u64 \<Rightarrow> string" where
  "num_buf base num =
     (if 0 < num \<and> 1 < base then base_digit (unat (num mod base)) # num_buf base (num div base) else [])"
  by pat_completeness auto
termination
proof (relation "measure (\<lambda>(base, num). unat num)")
  fix base num :: u64
  assume "0 < num \<and> 1 < base"
  then have "0 < unat num" "1 < unat base"
    by (simp_all add: word_less_nat_alt)
  then show "((base, num div base), base, num) \<in> measure (\<lambda>(base, num). unat num)"
    by (simp add: unat_div)
qed simp

declare num_buf.simps [simp del]

definition print_num :: "u64 \<Rightarrow> u64 \<Rightarrow> console \<Rightarrow> console" where
  "print_num num base c =
     (if num = 0 then serial_putc CHR ''0'' c else fold serial_putc (rev (num_buf base num)) c)"

datatype va_arg = IntArg u32 | LongArg u64 | StrArg string

text \<open>\<open>val = -val\<close> overflows for the least integer, which C leaves undefined; compilers wrap.  The
  conversion of \<open>val\<close> to \<open>uint64_t\<close> extends its sign.\<close>

fun serial_printf :: "string \<Rightarrow> va_arg list \<Rightarrow> console \<Rightarrow> fault + console" where
  "serial_printf [] args c = Inr c"
| "serial_printf (ch # fmt) args c =
     (if ch = CHR ''%'' then
        case fmt of [] \<Rightarrow> Inl OutOfBounds
        | d # fmt \<Rightarrow>
            if d = CHR ''d'' then
              case args of IntArg val # args \<Rightarrow>
                let (val, c) = (if sint val < 0 then (- val, serial_putc CHR ''-'' c) else (val, c))
                in serial_printf fmt args (print_num (scast val) 10 c)
              | _ \<Rightarrow> Inl OutOfBounds
            else if d = CHR ''u'' then
              case args of IntArg val # args \<Rightarrow> serial_printf fmt args (print_num (ucast val) 10 c)
              | _ \<Rightarrow> Inl OutOfBounds
            else if d = CHR ''x'' then
              case args of IntArg val # args \<Rightarrow> serial_printf fmt args (print_num (ucast val) 16 c)
              | _ \<Rightarrow> Inl OutOfBounds
            else if d = CHR ''l'' then
              case fmt of [] \<Rightarrow> Inl OutOfBounds
              | e # fmt \<Rightarrow>
                  if e = CHR ''u'' then
                    case args of LongArg val # args \<Rightarrow> serial_printf fmt args (print_num val 10 c)
                    | _ \<Rightarrow> Inl OutOfBounds
                  else if e = CHR ''x'' then
                    case args of LongArg val # args \<Rightarrow> serial_printf fmt args (print_num val 16 c)
                    | _ \<Rightarrow> Inl OutOfBounds
                  else serial_printf fmt args c
            else if d = CHR ''s'' then
              case args of StrArg s # args \<Rightarrow> serial_printf fmt args (serial_puts s c)
              | _ \<Rightarrow> Inl OutOfBounds
            else if d = CHR ''%'' then serial_printf fmt args (serial_putc CHR ''%'' c)
            else serial_printf fmt args c
      else
        let c = (if ch = newline_char then serial_putc return_char c else c)
        in serial_printf fmt args (serial_putc ch c))"

declare serial_printf.simps(2) [simp del]

section \<open>What is sent\<close>

lemma serial_putc_eq: "serial_putc ch c = putc ch c"
  by (simp add: serial_putc_def putc_def)

text \<open>The characters of a string with carriage returns.\<close>

definition crlf_chars :: "string \<Rightarrow> string" where
  "crlf_chars s = concat (map (\<lambda>ch. if ch = newline_char then [return_char, newline_char] else [ch]) s)"

lemma crlf_chars_bytes: "map byte_of (crlf_chars s) = crlf s"
  by (induction s) (simp_all add: crlf_chars_def crlf_def byte_of_newline)

lemma crlf_append: "crlf (s @ t) = crlf s @ crlf t"
  by (simp add: crlf_def)

lemma serial_puts_fold: "serial_puts s c = fold serial_putc (crlf_chars s) c"
  by (induction s c rule: serial_puts.induct) (simp_all add: crlf_chars_def Let_def)

lemma wire_fold:
  "\<not> dlab (uart_of c) \<Longrightarrow> wire (uart_of (fold serial_putc s c)) = wire (uart_of c) @ map byte_of s
     \<and> \<not> dlab (uart_of (fold serial_putc s c))"
  by (induction s arbitrary: c) (simp_all add: serial_putc_eq wire_putc dlab_putc)

definition num_text :: "u64 \<Rightarrow> u64 \<Rightarrow> string" where
  "num_text base num = (if num = 0 then ''0'' else rev (num_buf base num))"

lemma print_num_fold: "print_num num base c = fold serial_putc (num_text base num) c"
  by (simp add: print_num_def num_text_def)

section \<open>Numerals\<close>

definition base_value :: "char \<Rightarrow> nat" where
  "base_value d = (let n = of_char d in if n < 97 then n - 48 else n + 10 - 97)"

text \<open>\<open>t\<close> is the numeral of \<open>n\<close> in base \<open>b\<close>: digits of the base, no leading zero, the value \<open>n\<close>.\<close>

definition numeral_in :: "nat \<Rightarrow> nat \<Rightarrow> string \<Rightarrow> bool" where
  "numeral_in b n t \<longleftrightarrow> t \<noteq> [] \<and> set t \<subseteq> base_digit ` {..<b} \<and> (hd t = CHR ''0'' \<longrightarrow> t = ''0'')
     \<and> foldl (\<lambda>a d. b * a + base_value d) 0 t = n"

lemma of_char_base_digit: "v < 16 \<Longrightarrow> of_char (base_digit v) = (if v < 10 then 48 + v else 87 + v)"
  by (simp add: base_digit_def)

lemma base_value_digit: "v < 16 \<Longrightarrow> base_value (base_digit v) = v"
  by (simp add: base_value_def Let_def of_char_base_digit)

lemma base_digit_zero: "v < 16 \<Longrightarrow> base_digit v = CHR ''0'' \<longleftrightarrow> v = 0"
proof -
  assume v: "v < 16"
  have "base_digit v = CHR ''0'' \<longleftrightarrow> (of_char (base_digit v) :: nat) = of_char CHR ''0''"
    by (simp only: of_char_eq_iff)
  then show ?thesis
    using of_char_base_digit [OF v] by simp
qed

lemma num_buf_props:
  assumes "1 < unat base" "unat base \<le> 16" "0 < num"
  shows "num_buf base num \<noteq> [] \<and> set (num_buf base num) \<subseteq> base_digit ` {..<unat base}
    \<and> last (num_buf base num) \<noteq> CHR ''0'' \<and> foldr (\<lambda>d a. unat base * a + base_value d) (num_buf base num) 0 = unat num
    \<and> (unat num < unat base ^ k \<longrightarrow> length (num_buf base num) \<le> k)"
  using assms
proof (induction base num arbitrary: k rule: num_buf.induct)
  case (1 base num)
  have b: "1 < base"
    using "1.prems" by (simp add: word_less_nat_alt)
  let ?d = "base_digit (unat (num mod base))" and ?q = "num div base"
  have buf: "num_buf base num = ?d # num_buf base ?q"
    using "1.prems" b by (subst num_buf.simps) simp
  have m: "unat (num mod base) = unat num mod unat base" "unat ?q = unat num div unat base"
    by (simp_all add: unat_mod unat_div)
  have lt: "unat (num mod base) < unat base" "unat (num mod base) < 16"
    using "1.prems"(1,2) m(1) mod_less_divisor [of "unat base" "unat num"] by linarith+
  show ?case
  proof (cases "?q = 0")
    case True
    then have "num_buf base ?q = []"
      by (subst num_buf.simps) simp
    moreover have "unat num div unat base = 0"
      using True m(2) by simp
    then have "unat num < unat base"
      using "1.prems"(1) by (simp add: div_eq_0_iff)
    moreover have "0 < unat num"
      using "1.prems"(3) by (simp add: word_less_nat_alt)
    moreover have "unat num < unat base ^ k \<longrightarrow> 1 \<le> k"
      using \<open>0 < unat num\<close> by (cases k) auto
    ultimately show ?thesis
      using lt m(1) base_digit_zero [OF lt(2)] base_value_digit [OF lt(2)] by (simp add: buf)
  next
    case False
    then have q: "0 < ?q"
      by (simp add: word_neq_0_conv)
    note IH = "1.IH" [OF conjI [OF "1.prems"(3) b] "1.prems"(1,2) q]
    have "unat num < unat base ^ k \<longrightarrow> length (num_buf base num) \<le> k"
    proof
      assume less: "unat num < unat base ^ k"
      have "0 < unat num div unat base"
        using q m(2) by (simp add: word_less_nat_alt)
      then have "unat base \<le> unat num"
        by (simp add: div_greater_zero_iff)
      then obtain k' where k: "k = Suc k'"
        using less "1.prems"(1) by (cases k) auto
      then have "unat num div unat base < unat base ^ k'"
        using less by (simp add: less_mult_imp_div_less mult.commute)
      then show "length (num_buf base num) \<le> k"
        using IH [of k'] k m(2) by (simp add: buf)
    qed
    moreover have "unat base * unat ?q + unat (num mod base) = unat num"
      using m by simp
    ultimately show ?thesis
      using IH [of 0] lt base_value_digit [OF lt(2)] by (auto simp: buf)
  qed
qed

lemma num_text_numeral:
  assumes "1 < unat base" "unat base \<le> 16"
  shows "numeral_in (unat base) (unat num) (num_text base num)"
proof (cases "num = 0")
  case True
  moreover have "base_digit 0 = CHR ''0''"
    by (simp add: base_digit_zero)
  ultimately show ?thesis
    using assms base_value_digit [of 0] by (auto simp: numeral_in_def num_text_def intro!: image_eqI [of _ _ 0])
next
  case False
  then show ?thesis
    using num_buf_props [OF assms, of num] by (auto simp: numeral_in_def num_text_def hd_rev foldl_conv_foldr word_neq_0_conv)
qed

text \<open>For the two bases that the code passes, \<open>print_num\<close> sends exactly the numeral of its argument:
  digits of the base without leading zero whose value is the argument, at most twenty or sixteen of
  them, so \<open>buf\<close> with its 32 places is never overrun.\<close>

theorem print_num_sends:
  assumes "base = 10 \<or> base = 16" "\<not> dlab (uart_of c)"
  shows "\<exists>t. wire (uart_of (print_num num base c)) = wire (uart_of c) @ map byte_of t
    \<and> numeral_in (unat base) (unat num) t \<and> length t \<le> (if base = 10 then 20 else 16)"
proof -
  have b: "1 < unat base" "unat base \<le> 16"
    using assms(1) by auto
  have "unat num < unat base ^ (if base = 10 then 20 else 16)"
    using assms(1) unsigned_less [of num, where 'a = nat] by auto
  then have "length (num_text base num) \<le> (if base = 10 then 20 else 16)"
    using num_buf_props [OF b, of num "if base = 10 then 20 else 16"] by (auto simp: num_text_def word_neq_0_conv)
  then show ?thesis
    using num_text_numeral [OF b, of num] wire_fold [OF assms(2)] by (auto simp: print_num_fold)
qed

section \<open>Formats\<close>

text \<open>A format as the list of its parts, with the arguments and the text of each.\<close>

datatype piece = Lit string | Dec u32 | Uns u32 | Hex u32 | LongU u64 | LongX u64 | Str string | Percent

fun piece_format :: "piece \<Rightarrow> string" where
  "piece_format (Lit s) = s"
| "piece_format (Dec v) = ''%d''"
| "piece_format (Uns v) = ''%u''"
| "piece_format (Hex v) = ''%x''"
| "piece_format (LongU v) = ''%lu''"
| "piece_format (LongX v) = ''%lx''"
| "piece_format (Str s) = ''%s''"
| "piece_format Percent = ''%%''"

fun piece_args :: "piece \<Rightarrow> va_arg list" where
  "piece_args (Dec v) = [IntArg v]"
| "piece_args (Uns v) = [IntArg v]"
| "piece_args (Hex v) = [IntArg v]"
| "piece_args (LongU v) = [LongArg v]"
| "piece_args (LongX v) = [LongArg v]"
| "piece_args (Str s) = [StrArg s]"
| "piece_args _ = []"

fun piece_text :: "piece \<Rightarrow> string" where
  "piece_text (Lit s) = s"
| "piece_text (Dec v) = (if sint v < 0 then ''-'' else []) @ num_text 10 (word_of_int \<bar>sint v\<bar>)"
| "piece_text (Uns v) = num_text 10 (ucast v)"
| "piece_text (Hex v) = num_text 16 (ucast v)"
| "piece_text (LongU v) = num_text 10 v"
| "piece_text (LongX v) = num_text 16 v"
| "piece_text (Str s) = s"
| "piece_text Percent = ''%''"

fun piece_ok :: "piece \<Rightarrow> bool" where
  "piece_ok (Lit s) = (CHR ''%'' \<notin> set s)"
| "piece_ok (Dec v) = (v \<noteq> 0x80000000)"
| "piece_ok _ = True"

lemma crlf_chars_digits: "newline_char \<notin> set s \<Longrightarrow> crlf_chars s = s"
  by (induction s) (auto simp: crlf_chars_def)

lemma num_text_no_newline: "1 < unat base \<Longrightarrow> unat base \<le> 16 \<Longrightarrow> newline_char \<notin> set (num_text base num)"
proof
  assume b: "1 < unat base" "unat base \<le> 16" and "newline_char \<in> set (num_text base num)"
  then have "newline_char \<in> base_digit ` {..<unat base}"
    using num_text_numeral [OF b, of num] by (auto simp: numeral_in_def)
  then obtain v where "v < unat base" "base_digit v = newline_char"
    by (elim imageE) simp
  then have "v < 16" "base_digit v = newline_char"
    using b by simp_all
  then have "of_char (base_digit v) = (10 :: nat)"
    by simp
  then show False
    using of_char_base_digit [OF \<open>v < 16\<close>] by (simp split: if_splits)
qed

text \<open>The absolute value, as the code computes it.\<close>

lemma negated_value:
  fixes v :: u32
  assumes "v \<noteq> 0x80000000"
  shows "scast (if sint v < 0 then - v else v) = (word_of_int \<bar>sint v\<bar> :: u64)"
proof (cases "sint v < 0")
  case False
  then have "\<bar>sint v\<bar> = sint v"
    by linarith
  then show ?thesis
    using False by (simp only: if_False scast_eq)
next
  case True
  define n where "n = unat v"
  have "n \<noteq> 2 ^ 31"
  proof
    assume "n = 2 ^ 31"
    then have "unat v = unat (0x80000000 :: u32)"
      by (simp add: n_def)
    then show False
      using assms by (simp only: word_unat_eq_iff)
  qed
  moreover have "n < 2 ^ 32"
    unfolding n_def using unsigned_less [of v, where 'a = nat] by simp
  ultimately have n: "n < 2 ^ 32" "n \<noteq> 2 ^ 31"
    by simp_all
  have big: "2 ^ 31 \<le> n"
  proof (rule ccontr)
    assume "\<not> 2 ^ 31 \<le> n"
    then have "sint v = int (unat v)"
      by (intro sint_small) (simp add: n_def)
    then show False
      using True by linarith
  qed
  then have sv: "sint v = int n - 2 ^ 32"
    using sint32 [of v] unfolding n_def by (simp only: not_less [symmetric] if_False)
  have "- v = of_nat (2 ^ 32 - n)"
    using n(1) by (simp add: of_nat_diff n_def)
  then have m: "unat (- v) = 2 ^ 32 - n"
    using unat_of_nat_lt [of "2 ^ 32 - n", where 'a = 32] big by simp
  moreover have "2 ^ 31 < n"
    using n big by simp
  ultimately have "unat (- v) < 2 ^ 31"
    by simp
  then have "sint (- v) = int (2 ^ 32 - n)"
    using sint_small [of "- v"] unfolding m by simp
  moreover have "int (2 ^ 32 - n) = \<bar>sint v\<bar>"
    using sv n by (simp add: of_nat_diff)
  ultimately show ?thesis
    using True by (simp only: if_True scast_eq)
qed

lemma printf_append:
  assumes "CHR ''%'' \<notin> set s"
  shows "serial_printf (s @ fmt) args c = serial_printf fmt args (serial_puts s c)"
  using assms
proof (induction s arbitrary: c)
  case (Cons ch s)
  then show ?case
    by (auto simp: serial_printf.simps(2) [of ch] Let_def)
qed simp

lemma printf_piece:
  assumes "piece_ok p"
  shows "serial_printf (piece_format p @ fmt) (piece_args p @ args) c
    = serial_printf fmt args (fold serial_putc (crlf_chars (piece_text p)) c)"
proof -
  have no10: "newline_char \<notin> set (num_text 10 n)" and no16: "newline_char \<notin> set (num_text 16 n)" for n
    by (rule num_text_no_newline; simp)+
  then have d: "crlf_chars (num_text 10 n) = num_text 10 n" "crlf_chars (num_text 16 n) = num_text 16 n"
    "crlf_chars (CHR ''-'' # num_text 10 n) = CHR ''-'' # num_text 10 n" for n
    by (intro crlf_chars_digits; simp)+
  show ?thesis
  proof (cases p)
    case (Lit s)
    then show ?thesis
      using assms by (simp add: printf_append serial_puts_fold)
  next
    case (Dec v)
    have "scast (if sint v < 0 then - v else v) = (word_of_int \<bar>sint v\<bar> :: u64)"
      using assms Dec by (intro negated_value) simp
    then show ?thesis
      by (cases "sint v < 0") (simp_all add: Dec serial_printf.simps(2) print_num_fold d)
  next
    case Percent
    then show ?thesis
      by (simp add: serial_printf.simps(2) crlf_chars_def)
  qed (simp_all add: serial_printf.simps(2) print_num_fold d serial_puts_fold)
qed

lemma printf_sends:
  assumes "list_all piece_ok ps" "\<not> dlab (uart_of c)"
  shows "\<exists>c'. serial_printf (concat (map piece_format ps)) (concat (map piece_args ps)) c = Inr c'
    \<and> wire (uart_of c') = wire (uart_of c) @ crlf (concat (map piece_text ps)) \<and> \<not> dlab (uart_of c')"
  using assms
proof (induction ps arbitrary: c)
  case Nil
  then show ?case by (simp add: crlf_def)
next
  case (Cons p ps)
  let ?c = "fold serial_putc (crlf_chars (piece_text p)) c"
  have w: "wire (uart_of ?c) = wire (uart_of c) @ crlf (piece_text p)" "\<not> dlab (uart_of ?c)"
    using wire_fold [OF Cons.prems(2)] by (simp_all add: crlf_chars_bytes)
  obtain c' where "serial_printf (concat (map piece_format ps)) (concat (map piece_args ps)) ?c = Inr c'"
    "wire (uart_of c') = wire (uart_of ?c) @ crlf (concat (map piece_text ps))" "\<not> dlab (uart_of c')"
    using Cons.IH [OF _ w(2)] Cons.prems(1) by auto
  then show ?case
    using printf_piece [of p "concat (map piece_format ps)" "concat (map piece_args ps)" c] Cons.prems(1) w
    by (simp add: crlf_append)
qed


text \<open>A \<open>%\<close> at the end of the format makes \<open>serial_printf\<close> step over the end of the string, and
  \<open>%d\<close> of the least integer prints the numeral of \<open>2^64 - 2^31\<close> after the minus sign.\<close>

theorem serial_printf_edges:
  "serial_printf ''%'' args c = Inl OutOfBounds \<and> serial_printf ''%l'' args c = Inl OutOfBounds
   \<and> serial_printf ''%d'' [IntArg 0x80000000] c
       = Inr (fold serial_putc (num_text 10 0xFFFFFFFF80000000) (serial_putc CHR ''-'' c))"
proof -
  have neg: "scast (- 0x80000000 :: u32) = (0xFFFFFFFF80000000 :: u64)" and less: "sint (0x80000000 :: u32) < 0"
    by simp_all
  have "serial_printf ''%d'' [IntArg v] c = Inr (fold serial_putc (num_text 10 (scast (- v))) (serial_putc CHR ''-'' c))"
    if "sint v < 0" for v
    using that by (simp add: serial_printf.simps(2) print_num_fold)
  from this [OF less] show ?thesis
    unfolding neg by (simp add: serial_printf.simps(2))
qed

section \<open>Witnesses\<close>

lemma quiet_up: "\<not> dlab (uart_of quiet_console)"
  unfolding quiet_console_def serial_init_def Let_def uart_of_outb by (simp add: uart_of_def)

theorem print_num_sends_witness:
  "\<exists>t. wire (uart_of (print_num 255 16 quiet_console)) = wire (uart_of quiet_console) @ map byte_of t \<and> numeral_in 16 255 t"
  using print_num_sends [of 16 quiet_console 255] quiet_up by auto


end
