(* ===== verification/Old_Kernel.thy ===== *)
theory Old_Kernel
  imports Old_Sync Old_Serial Acpi
begin

text \<open>
  The old kernel of \<^verbatim>\<open>archive/old-modular\<close>: \<^verbatim>\<open>acpi.c\<close>, \<^verbatim>\<open>smp.c\<close> and \<open>kernel_main\<close> of \<^verbatim>\<open>main.c\<close>.  What
  several processors do together is in theory \<^verbatim>\<open>Old_Sync\<close>, the serial line in \<^verbatim>\<open>Old_Serial\<close>.

  The state extends that of the APIC for its console, memory, model specific registers and memory
  mapped registers; this kernel has no memory manager and leaves the other fields alone.  Its static
  variables follow, in the order of the files; both files have a \<open>cpu_count\<close> of their own.
  \<open>old_env\<close> is what processor 0 finds in variables that others write: the values of \<open>cpus_booted\<close> read
  before and while it waits for a processor, by processor and read, its value at the end, and the result
  as displayed and as compared.
\<close>

record old_kernel = apic +
  rsdp :: u64
  madt :: u64
  acpi_cpu_ids :: "u8 list"
  acpi_cpu_count :: u32
  smp_cpu_count :: u32
  cpu_ids :: "u8 list"
  cpus_booted :: u32
  current_cpu_id :: u32
  per_cpu_ids :: "u32 list"

record old_layout = layout +
  trampoline_cr3_sym :: u64
  trampoline_stack_sym :: u64
  trampoline_entry_sym :: u64
  ap_boot_complete_sym :: u64

record old_env =
  booted_before :: "u32 \<Rightarrow> u32"
  booted_read :: "u32 \<Rightarrow> nat \<Rightarrow> u32"
  booted_at_end :: u32
  result_shown :: u64
  result_compared :: u64

text \<open>Sequences of calls that can fault, and the two ways to print.\<close>

fun and_then :: "fault + 's \<Rightarrow> ('s \<Rightarrow> fault + 't) \<Rightarrow> fault + 't" where
  "and_then (Inl e) f = Inl e"
| "and_then (Inr s) f = f s"

definition kputs :: "string \<Rightarrow> 'a machine_scheme \<Rightarrow> 'a machine_scheme" where
  "kputs s k = k\<lparr>con := serial_puts s (con k)\<rparr>"

definition kprintf :: "string \<Rightarrow> va_arg list \<Rightarrow> 'a machine_scheme \<Rightarrow> fault + 'a machine_scheme" where
  "kprintf fmt args k = and_then (serial_printf fmt args (con k)) (\<lambda>c. Inr (k\<lparr>con := c\<rparr>))"

abbreviation line :: "string \<Rightarrow> string" where "line s \<equiv> s @ [newline_char]"

text \<open>\<open>int\<close> loops with a body that can fault.\<close>

definition for_int :: "u32 \<Rightarrow> (u32 \<Rightarrow> 's \<Rightarrow> fault + 's) \<Rightarrow> 's \<Rightarrow> fault + 's" where
  "for_int n f s = (if sint n \<le> 0 then Inr s else for_up 0 n (\<lambda>i r. and_then r (f i)) (Inr s))"

section \<open>ACPI\<close>

definition old_acpi_checksum :: "memory \<Rightarrow> u64 \<Rightarrow> u32 \<Rightarrow> bool" where
  "old_acpi_checksum m p len = (checksum_loop (nat (sint len)) m p 0 = 0)"

text \<open>The search loop is the one of \<open>acpi_find_rsdp\<close>.\<close>

definition old_acpi_find_rsdp :: "memory \<Rightarrow> u64" where
  "old_acpi_find_rsdp m = (case find_rsdp_loop m 0xE0000 of Some p \<Rightarrow> p | None \<Rightarrow> 0)"

definition old_acpi_find_madt :: "u64 \<Rightarrow> 'a machine_scheme \<Rightarrow> u64 \<times> 'a machine_scheme" where
  "old_acpi_find_madt rsdp_ptr k =
     (let m = mem k;
          rsdt = (if 2 \<le> rsdp_revision m rsdp_ptr \<and> rsdp_xsdt_address m rsdp_ptr \<noteq> 0 then rsdp_xsdt_address m rsdp_ptr
                  else ucast (rsdp_rsdt_address m rsdp_ptr))
      in if \<not> old_acpi_checksum m rsdt (sdt_length m rsdt) then (0, kputs (line ''[ACPI] RSDT checksum failed'') k)
         else
           let entries = ucast ((ucast (sdt_length m rsdt) - 36 :: u64) div 4) :: u32;
               entry_ptr = rsdt + 36
           in if sint entries \<le> 0 then (0, k)
              else case find_up 0 entries (\<lambda>i. madt_signature m (ucast (load32 m (entry_ptr + 4 * ucast i)))) of
                Some i \<Rightarrow> (ucast (load32 m (entry_ptr + 4 * ucast i)), k)
              | None \<Rightarrow> (0, k))"

text \<open>The loop stops at sixteen processors; like the one of the later kernel it need not end.\<close>

definition old_madt_entry :: "u64 \<Rightarrow> 'a old_kernel_scheme \<Rightarrow> fault + 'a old_kernel_scheme" where
  "old_madt_entry ptr k =
     (if mem k ptr = 0 then
        if lapic_flags (mem k) ptr AND 1 \<noteq> 0 then
          let i = acpi_cpu_count k; apic_id = lapic_apic_id (mem k) ptr;
              k = k\<lparr>acpi_cpu_ids := (acpi_cpu_ids k)[unat i := apic_id], acpi_cpu_count := i + 1\<rparr>
          in kprintf (line ''[ACPI] CPU %d: APIC ID = %d'') [IntArg (acpi_cpu_count k - 1), IntArg (ucast apic_id)] k
        else Inr k
      else Inr k)"

partial_function (option) old_madt_loop :: "u64 \<Rightarrow> u64 \<Rightarrow> 'a old_kernel_scheme \<Rightarrow> (fault + 'a old_kernel_scheme) option" where
  "old_madt_loop ptr end_ptr k =
     (if ptr < end_ptr \<and> sint (acpi_cpu_count k) < 16 then
        case old_madt_entry ptr k of Inl f \<Rightarrow> Some (Inl f)
        | Inr k \<Rightarrow> old_madt_loop (ptr + ucast (mem k (ptr + 1))) end_ptr k
      else Some (Inr k))"

definition old_acpi_parse_madt :: "u64 \<Rightarrow> 'a old_kernel_scheme \<Rightarrow> fault + 'a old_kernel_scheme" where
  "old_acpi_parse_madt madt_header k =
     (let ptr = madt_header + 36 + 8;
          end_ptr = madt_header + ucast (sdt_length (mem k) madt_header);
          k = k\<lparr>acpi_cpu_count := 0\<rparr>
      in case old_madt_loop ptr end_ptr k of None \<Rightarrow> Inl Hang | Some r \<Rightarrow> r)"

definition acpi_init :: "u64 \<Rightarrow> 'a old_kernel_scheme \<Rightarrow> fault + 'a old_kernel_scheme" where
  "acpi_init rsdp_addr k =
     (let k = (if rsdp_addr \<noteq> 0 then k\<lparr>rsdp := rsdp_addr\<rparr>
               else let k = kputs (line ''[ACPI] Searching for RSDP...'') k in k\<lparr>rsdp := old_acpi_find_rsdp (mem k)\<rparr>)
      in if rsdp k = 0 then Inr (kputs (line ''[ACPI] RSDP not found!'') k)
         else
           and_then (kprintf (line ''[ACPI] RSDP found at 0x%lx'') [LongArg (rsdp k)] k) (\<lambda>k.
           let (p, k) = old_acpi_find_madt (rsdp k) k;
               k = k\<lparr>madt := p\<rparr>
           in if madt k = 0 then Inr (kputs (line ''[ACPI] MADT not found!'') k)
              else
                and_then (kprintf (line ''[ACPI] MADT found at 0x%lx'') [LongArg (madt k)] k) (\<lambda>k.
                and_then (old_acpi_parse_madt (madt k) k) (\<lambda>k.
                kprintf (line ''[ACPI] Detected %d CPUs'') [IntArg (acpi_cpu_count k)] k))))"

definition acpi_get_cpu_count :: "'a old_kernel_scheme \<Rightarrow> u32" where
  "acpi_get_cpu_count k = acpi_cpu_count k"

text \<open>The guard keeps the index below the count, and the count is at most the size of the array.\<close>

definition acpi_get_apic_id :: "u32 \<Rightarrow> 'a old_kernel_scheme \<Rightarrow> u8" where
  "acpi_get_apic_id index k =
     (if 0 \<le> sint index \<and> sint index < sint (acpi_cpu_count k) then acpi_cpu_ids k ! unat index else 0xFF)"

section \<open>Starting the other processors\<close>

text \<open>The registers are memory mapped only; the constants have the values of theory \<^verbatim>\<open>Apic\<close>.  A delay loop
  of \<open>n\<close> rounds is logged as \<open>Pauses n\<close>.\<close>

definition old_apic_read :: "u32 \<Rightarrow> 'a apic_scheme \<Rightarrow> u32 \<times> 'a apic_scheme" where
  "old_apic_read reg k = mmio_read (drop_bit 2 reg) k"

definition old_apic_write :: "u32 \<Rightarrow> u32 \<Rightarrow> 'a apic_scheme \<Rightarrow> 'a apic_scheme" where
  "old_apic_write reg v k = mmio_write (drop_bit 2 reg) v k"

definition smp_init :: "'a old_kernel_scheme \<Rightarrow> fault + 'a old_kernel_scheme" where
  "smp_init k =
     (let apic_msr = rdmsr APIC_BASE_MSR k;
          k = k\<lparr>apic_base := apic_msr AND 0xFFFFF000\<rparr>
      in and_then (kprintf (line ''[SMP] LAPIC base: 0x%lx'') [LongArg (apic_base k)] k) (\<lambda>k.
         let k = wrmsr APIC_BASE_MSR (apic_msr OR push_bit 11 1) k;
             (svr, k) = old_apic_read 0xF0 k;
             k = old_apic_write 0xF0 (svr OR 0x100) k;
             (idreg, k) = old_apic_read APIC_ID_REG k;
             bsp_id = drop_bit 24 idreg
         in and_then (kprintf (line ''[SMP] BSP APIC ID: %d'') [IntArg bsp_id] k) (\<lambda>k.
            let k = k\<lparr>smp_cpu_count := acpi_get_cpu_count k\<rparr>
            in and_then (for_int (smp_cpu_count k) (\<lambda>i k.
                 if unat i < length (cpu_ids k) then Inr (k\<lparr>cpu_ids := (cpu_ids k)[unat i := acpi_get_apic_id i k]\<rparr>)
                 else Inl OutOfBounds) k) (\<lambda>k.
               Inr (k\<lparr>per_cpu_ids := (per_cpu_ids k)[0 := 0], cpus_booted := atomic_inc (cpus_booted k)\<rparr>)))))"

text \<open>\<open>while (apic_read(APIC_ICR_LOW) & (1 << 12));\<close>\<close>

lemma icr_read_busy:
  assumes "fst (old_apic_read APIC_ICR_LOW k) AND push_bit 12 1 \<noteq> 0"
  shows "icr_left (snd (old_apic_read APIC_ICR_LOW k)) < icr_left k"
proof -
  have "(v AND NOT (push_bit 12 1)) AND push_bit 12 1 = 0" for v :: u32
    by (rule bit_word_eqI) (simp add: bit_simps)
  moreover have "icr_left k = 0 \<Longrightarrow> fst (old_apic_read APIC_ICR_LOW k)
      = mmio k (mmio_addr (drop_bit 2 APIC_ICR_LOW) k) AND NOT (push_bit 12 1)"
    by (simp add: old_apic_read_def mmio_read_def icr_low_addr_def Let_def)
  ultimately have "icr_left k \<noteq> 0"
    using assms by metis
  then show ?thesis
    by (simp add: old_apic_read_def mmio_read_def icr_low_addr_def Let_def)
qed

function icr_wait :: "'a apic_scheme \<Rightarrow> 'a apic_scheme" where
  "icr_wait k = (let (v, t) = old_apic_read APIC_ICR_LOW k in if v AND push_bit 12 1 \<noteq> 0 then icr_wait t else t)"
  by pat_completeness auto
termination
proof (relation "measure icr_left")
  fix k p :: "'a apic_scheme" and r v t
  assume "r = old_apic_read APIC_ICR_LOW k" "(v, t) = r" "v AND push_bit 12 1 \<noteq> 0"
  then show "(t, k) \<in> measure icr_left"
    using icr_read_busy [of k] by (metis fst_conv in_measure snd_conv)
qed simp

declare icr_wait.simps [simp del]

definition send_init_ipi :: "u8 \<Rightarrow> 'a apic_scheme \<Rightarrow> 'a apic_scheme" where
  "send_init_ipi apic_id k =
     (let k = old_apic_write APIC_ICR_HIGH (push_bit 24 (ucast apic_id)) k;
          k = old_apic_write APIC_ICR_LOW (0x500 OR 0x4000 OR 0x8000) k
      in icr_wait k)"

definition send_startup_ipi :: "u8 \<Rightarrow> u8 \<Rightarrow> 'a apic_scheme \<Rightarrow> 'a apic_scheme" where
  "send_startup_ipi apic_id vec k =
     (let k = old_apic_write APIC_ICR_HIGH (push_bit 24 (ucast apic_id)) k;
          k = old_apic_write APIC_ICR_LOW (0x600 OR ucast vec) k
      in icr_wait k)"

definition delay_ms :: "u64 \<Rightarrow> 'a cpu_scheme \<Rightarrow> 'a cpu_scheme" where
  "delay_ms ms k = cpu_do (Pauses (ms * 100000)) k"

text \<open>The wait for \<open>cpus_booted\<close> to change, by the value of \<open>timeout\<close>; \<open>p\<close> reads have been made.\<close>

fun wait_booted :: "u32 \<Rightarrow> (nat \<Rightarrow> u32) \<Rightarrow> nat \<Rightarrow> nat \<Rightarrow> 'a cpu_scheme \<Rightarrow> 'a cpu_scheme" where
  "wait_booted initial_count reads p 0 k = k"
| "wait_booted initial_count reads p (Suc timeout) k =
     (if reads p = initial_count then wait_booted initial_count reads (p + 1) timeout (delay_ms 1 k) else k)"

definition smp_boot_ap :: "old_env \<Rightarrow> u32 \<Rightarrow> 'a old_kernel_scheme \<Rightarrow> fault + 'a old_kernel_scheme" where
  "smp_boot_ap e i k =
     (if \<not> unat i < length (cpu_ids k) then Inl OutOfBounds
      else
        let apic_id = cpu_ids k ! unat i;
            (idreg, k) = old_apic_read APIC_ID_REG k;
            bsp_id = drop_bit 24 idreg
        in if ucast apic_id = bsp_id then Inr k
           else
             let k = k\<lparr>current_cpu_id := i\<rparr>;
                 k = send_init_ipi apic_id k;
                 k = delay_ms 10 k;
                 k = send_startup_ipi apic_id 0x08 k;
                 k = delay_ms 1 k;
                 k = send_startup_ipi apic_id 0x08 k;
                 k = delay_ms 10 k
             in Inr (wait_booted (booted_before e i) (booted_read e i) 0 1000 k))"

definition smp_boot_aps :: "old_layout \<Rightarrow> old_env \<Rightarrow> 'a old_kernel_scheme \<Rightarrow> fault + 'a old_kernel_scheme" where
  "smp_boot_aps ld e k =
     (let size = trampoline_end ld - trampoline_start ld;
          k = k\<lparr>mem := memcpy 0x8000 (trampoline_start ld) (unat size) (mem k)\<rparr>
      in and_then (for_int (smp_cpu_count k) (smp_boot_ap e) k) (\<lambda>k.
         let k = k\<lparr>cpus_booted := booted_at_end e\<rparr>
         in kprintf (line ''[SMP] Boot complete: %d/%d CPUs online'')
              [IntArg (fst (atomic_read (cpus_booted k))), IntArg (smp_cpu_count k)] k))"

definition smp_get_cpu_count :: "'a old_kernel_scheme \<Rightarrow> u32" where
  "smp_get_cpu_count k = smp_cpu_count k"

definition smp_processor_id :: "'a old_kernel_scheme \<Rightarrow> u32 \<times> 'a old_kernel_scheme" where
  "smp_processor_id k =
     (let (idreg, k) = old_apic_read APIC_ID_REG k;
          apic_id = drop_bit 24 idreg
      in if sint (smp_cpu_count k) \<le> 0 then (0, k)
         else case find_up 0 (smp_cpu_count k) (\<lambda>i. ucast (cpu_ids k ! unat i) = apic_id) of
           Some i \<Rightarrow> (i, k) | None \<Rightarrow> (0, k))"

text \<open>A started processor, up to its idle loop.\<close>

definition ap_boot_complete :: "'a old_kernel_scheme \<Rightarrow> 'a old_kernel_scheme" where
  "ap_boot_complete k =
     (let (cpu_id, k) = smp_processor_id k
      in k\<lparr>per_cpu_ids := (per_cpu_ids k)[unat cpu_id := cpu_id], cpus_booted := atomic_inc (cpus_booted k)\<rparr>)"

section \<open>The kernel\<close>

definition old_detect :: "'a old_kernel_scheme \<Rightarrow> fault + 'a old_kernel_scheme" where
  "old_detect k =
     (let k = k\<lparr>con := old_serial_init (con k)\<rparr>;
          k = kputs (newline_char # ''=== Boot Linux Minimal - 64-bit SMP Kernel ==='' @ [newline_char, newline_char]) k;
          k = kputs (line ''[Boot] Detecting CPUs via ACPI...'') k
      in acpi_init 0 k)"

text \<open>The trampoline's variables, before \<open>smp_boot_aps\<close> copies it: the low half of CR3, one stack for
  every processor, and the entry point.\<close>

definition old_patch_trampoline :: "old_layout \<Rightarrow> 'a cpu_scheme \<Rightarrow> 'a cpu_scheme" where
  "old_patch_trampoline ld k =
     (let k = k\<lparr>mem := store32 (trampoline_cr3_sym ld) (ucast (cr3 k)) (mem k)\<rparr>;
          k = k\<lparr>mem := store64 (trampoline_stack_sym ld) 0x7000 (mem k)\<rparr>
      in k\<lparr>mem := store64 (trampoline_entry_sym ld) (ap_boot_complete_sym ld) (mem k)\<rparr>)"

definition old_start :: "old_layout \<Rightarrow> old_env \<Rightarrow> u32 \<Rightarrow> 'a old_kernel_scheme \<Rightarrow> fault + 'a old_kernel_scheme" where
  "old_start ld e count k =
     and_then (kprintf (line ''[Boot] Using ACPI for SMP detection'') [] k) (\<lambda>k.
     and_then (kprintf (line ''[Boot] Detected %d possible CPUs'') [IntArg count] k) (\<lambda>k.
     and_then (smp_init (kputs (line ''[Boot] Initializing SMP...'') k)) (\<lambda>k.
     let k = old_patch_trampoline ld k;
         k = kputs (line ''[Boot] Starting Application Processors...'') k
     in and_then (smp_boot_aps ld e k) (\<lambda>k.
        let booted_cpus = smp_get_cpu_count k
        in and_then (kprintf (line ''[Boot] Boot complete: %d CPUs online'') [IntArg booted_cpus] k) (\<lambda>k.
           for_int count (\<lambda>i k.
             let apic_id = acpi_get_apic_id i k
             in kprintf (line ''[Core %d] APIC ID: %d'') [IntArg i, IntArg (ucast apic_id)] k) k)))))"

text \<open>After \<open>on_each_cpu\<close> and the wait for \<open>cores_done\<close>, which are steps of theory \<^verbatim>\<open>Old_Sync\<close>.\<close>

definition old_results :: "old_env \<Rightarrow> u32 \<Rightarrow> 'a machine_scheme \<Rightarrow> fault + 'a machine_scheme" where
  "old_results e count k =
     (let k = kputs (newline_char # line ''=== Results ==='') k
      in and_then (kprintf (line ''Total result: %lu'') [LongArg (result_shown e)] k) (\<lambda>k.
         and_then (kprintf (line ''Expected: %lu (per core) * %d (cores) = %lu'')
           [LongArg 500000500000, IntArg count, LongArg (500000500000 * scast count)] k) (\<lambda>k.
         let k = (if result_compared e = 500000500000 * scast count
                  then kputs (line ''[SUCCESS] All APs booted and functional!'') k
                  else kputs (line ''[ERROR] Result mismatch!'') k)
         in Inr (kputs (newline_char # line ''=== System Halted ==='') k))))"

definition old_kernel_main :: "old_layout \<Rightarrow> old_env \<Rightarrow> 'a old_kernel_scheme \<Rightarrow> fault + 'a old_kernel_scheme outcome" where
  "old_kernel_main ld e k =
     and_then (old_detect k) (\<lambda>k.
     let count = acpi_get_cpu_count k
     in if count = 0 then Inr (Halts (kputs (line ''[Boot] ERROR: No CPUs detected!'') k))
        else and_then (old_start ld e count k) (\<lambda>k.
             let k = kputs (newline_char # line ''[Computation] Starting parallel computation...'') k
             in and_then (old_results e count k) (\<lambda>k. Inr (Halts k))))"

section \<open>Printing keeps the rest\<close>

lemma kputs_frame [simp]:
  "mem (kputs s k) = mem k" "machine.more (kputs s k) = machine.more k" "con (kputs s k) = serial_puts s (con k)"
  by (simp_all add: kputs_def)

lemma kprintf_pieces:
  assumes "list_all piece_ok ps" "\<not> dlab (uart_of (con k))"
  shows "\<exists>c. kprintf (concat (map piece_format ps)) (concat (map piece_args ps)) k = Inr (k\<lparr>con := c\<rparr>)
    \<and> wire (uart_of c) = wire (uart_of (con k)) @ crlf (concat (map piece_text ps)) \<and> \<not> dlab (uart_of c)"
  using printf_sends [OF assms] by (auto simp: kprintf_def)

section \<open>The processors of the MADT\<close>

abbreviation line_up :: "'a machine_scheme \<Rightarrow> bool" where
  "line_up k \<equiv> \<not> dlab (uart_of (con k))"

lemma printf_two_decimals:
  assumes "line_up k" "a \<noteq> 0x80000000" "b \<noteq> 0x80000000" "CHR ''%'' \<notin> set (p @ q @ r)"
  shows "\<exists>c. kprintf (p @ ''%d'' @ q @ ''%d'' @ r) [IntArg a, IntArg b] k = Inr (k\<lparr>con := c\<rparr>) \<and> \<not> dlab (uart_of c)"
  using kprintf_pieces [of "[Lit p, Dec a, Lit q, Dec b, Lit r]" k] assms by auto

lemma small_not_min: "unat v < 2 ^ 31 \<Longrightarrow> v \<noteq> 0x80000000" for v :: u32
  by auto

lemma old_madt_entry_enabled:
  fixes p :: u64
  assumes "line_up k" "unat (acpi_cpu_count k) < 16" "length (acpi_cpu_ids k) = 16"
  defines "one \<equiv> enabled_ids (mem k) [p]" and "n \<equiv> unat (acpi_cpu_count k)"
  shows "\<exists>k'. old_madt_entry p k = Inr k' \<and> mem k' = mem k \<and> line_up k' \<and> unat (acpi_cpu_count k') = n + length one
    \<and> length (acpi_cpu_ids k') = 16 \<and> take (n + length one) (acpi_cpu_ids k') = take n (acpi_cpu_ids k) @ one"
proof (cases "mem k p = 0 \<and> lapic_flags (mem k) p AND 1 \<noteq> 0")
  case False
  then have "old_madt_entry p k = Inr k" "one = []"
    by (auto simp: old_madt_entry_def one_def enabled_ids_def)
  then show ?thesis
    using assms(1,3) by (simp add: n_def)
next
  case True
  let ?id = "lapic_apic_id (mem k) p"
  let ?k = "k\<lparr>acpi_cpu_ids := (acpi_cpu_ids k)[n := ?id], acpi_cpu_count := acpi_cpu_count k + 1\<rparr>"
  have c: "unat (acpi_cpu_count k + 1) = n + 1"
    using assms(2) unat_add_const_lt [of "acpi_cpu_count k" 1] by (simp add: n_def)
  have small: "acpi_cpu_count k \<noteq> 0x80000000"
    using assms(2) by (intro small_not_min) simp
  have "unat (ucast ?id :: u32) < 256"
    using unsigned_less [of ?id, where 'a = nat] by (simp add: unsigned_ucast_eq take_bit_nat_eq_self)
  then have id: "(ucast ?id :: u32) \<noteq> 0x80000000"
    by (intro small_not_min) simp
  obtain k' where "kprintf (line ''[ACPI] CPU %d: APIC ID = %d'') [IntArg (acpi_cpu_count k), IntArg (ucast ?id)] ?k = Inr (?k\<lparr>con := k'\<rparr>)"
    "\<not> dlab (uart_of k')"
    using printf_two_decimals [of ?k "acpi_cpu_count k" "ucast ?id" "''[ACPI] CPU ''" "'': APIC ID = ''" "[newline_char]"] small id assms(1) by auto
  moreover have "one = [?id]"
    using True by (simp add: one_def enabled_ids_def)
  ultimately show ?thesis
    using True assms(2,3) c by (simp add: old_madt_entry_def Let_def n_def [symmetric] take_Suc_conv_app_nth)
qed

lemma old_madt_loop_list:
  assumes "madt_list m e p ps" "mem k = m" "line_up k" "unat (acpi_cpu_count k) \<le> 16" "length (acpi_cpu_ids k) = 16"
  shows "\<exists>k'. old_madt_loop p e k = Some (Inr k') \<and> mem k' = m \<and> line_up k'
    \<and> unat (acpi_cpu_count k') = unat (acpi_cpu_count k) + length (take (16 - unat (acpi_cpu_count k)) (enabled_ids m ps))
    \<and> length (acpi_cpu_ids k') = 16
    \<and> take (unat (acpi_cpu_count k')) (acpi_cpu_ids k')
       = take (unat (acpi_cpu_count k)) (acpi_cpu_ids k) @ take (16 - unat (acpi_cpu_count k)) (enabled_ids m ps)"
  using assms
proof (induction p ps arbitrary: k rule: madt_list.induct)
  case (madt_end p)
  then show ?case
    by (subst old_madt_loop.simps) (auto simp: enabled_ids_def)
next
  case (madt_next p ps)
  let ?n = "unat (acpi_cpu_count k)" and ?one = "enabled_ids m [p]" and ?rest = "enabled_ids m ps"
  have sn: "sint (acpi_cpu_count k) = int ?n"
    using madt_next.prems(3) by (intro sint_small) simp
  show ?case
  proof (cases "?n < 16")
    case False
    then show ?thesis
      using madt_next.prems sn by (subst old_madt_loop.simps) simp
  next
    case True
    obtain k1 where k1: "old_madt_entry p k = Inr k1" "mem k1 = m" "line_up k1" "unat (acpi_cpu_count k1) = ?n + length ?one"
      "length (acpi_cpu_ids k1) = 16" "take (?n + length ?one) (acpi_cpu_ids k1) = take ?n (acpi_cpu_ids k) @ ?one"
      using old_madt_entry_enabled [OF madt_next.prems(2) True madt_next.prems(4), of p] madt_next.prems(1) by auto
    have one: "length ?one \<le> 1"
      by (simp add: enabled_ids_def)
    have split: "enabled_ids m (p # ps) = ?one @ ?rest"
      by (simp add: enabled_ids_def)
    have tk: "take (16 - ?n) (?one @ ?rest) = ?one @ take (16 - (?n + length ?one)) ?rest"
      using one True by (simp add: diff_diff_add)
    obtain k' where k': "old_madt_loop (p + ucast (m (p + 1))) e k1 = Some (Inr k')" "mem k' = m" "line_up k'"
      "unat (acpi_cpu_count k') = ?n + length ?one + length (take (16 - (?n + length ?one)) ?rest)" "length (acpi_cpu_ids k') = 16"
      "take (unat (acpi_cpu_count k')) (acpi_cpu_ids k') = take (?n + length ?one) (acpi_cpu_ids k1) @ take (16 - (?n + length ?one)) ?rest"
      using madt_next.IH [OF k1(2,3) _ k1(5)] one True unfolding k1(4) by auto
    have "sint (acpi_cpu_count k) < 16"
      using sn True by linarith
    then have "old_madt_loop p e k = Some (Inr k')"
      using madt_next.hyps(1) k1(1,2) k'(1) by (subst old_madt_loop.simps) simp
    then show ?thesis
      using k'(2-6) k1(6) unfolding split tk by simp
  qed
qed

text \<open>On a MADT whose entries lead from the header past its end the old parser returns with the
  first sixteen enabled processors in table order and no more: \<open>acpi_get_apic_id\<close> then gives their
  identifiers, and 0xFF for every other index, negative ones included.\<close>

theorem old_parse_madt_lists:
  assumes "madt_list (mem k) (hdr + ucast (sdt_length (mem k) hdr)) (hdr + 44) ps"
    and "length (acpi_cpu_ids k) = 16" "\<not> dlab (uart_of (con k))"
  defines "ids \<equiv> take 16 (enabled_ids (mem k) ps)"
  shows "\<exists>k'. old_acpi_parse_madt hdr k = Inr k' \<and> mem k' = mem k \<and> acpi_get_cpu_count k' = of_nat (length ids)
    \<and> (\<forall>i. acpi_get_apic_id i k' = (if unat i < length ids then ids ! unat i else 0xFF))"
proof -
  let ?k = "k\<lparr>acpi_cpu_count := 0\<rparr>"
  obtain k' where k': "old_madt_loop (hdr + 44) (hdr + ucast (sdt_length (mem k) hdr)) ?k = Some (Inr k')" "mem k' = mem k"
    "unat (acpi_cpu_count k') = length ids" "length (acpi_cpu_ids k') = 16" "take (length ids) (acpi_cpu_ids k') = ids"
    using old_madt_loop_list [OF assms(1), of ?k] assms(2,3) by (auto simp: ids_def)
  have len: "length ids \<le> 16"
    by (simp add: ids_def)
  then have s: "sint (acpi_cpu_count k') = int (length ids)"
    using sint_small [of "acpi_cpu_count k'"] k'(3) by simp
  have "acpi_get_apic_id i k' = (if unat i < length ids then ids ! unat i else 0xFF)" for i
  proof (cases "unat i < length ids")
    case True
    then have "sint i = int (unat i)"
      using len by (intro sint_small) simp
    then have "0 \<le> sint i \<and> sint i < sint (acpi_cpu_count k')"
      using True s by linarith
    moreover have "ids ! unat i = acpi_cpu_ids k' ! unat i"
      using k'(5) True nth_take [of "unat i" "length ids" "acpi_cpu_ids k'"] by simp
    ultimately show ?thesis
      using True by (simp add: acpi_get_apic_id_def)
  next
    case False
    have neg: "int (unat i) - 2 ^ 32 < 0"
      using unsigned_less [of i, where 'a = int] by simp
    have "\<not> (0 \<le> sint i \<and> sint i < int (length ids))"
    proof (cases "unat i < 2 ^ 31")
      case True
      then show ?thesis
        using False sint_small [of i] by linarith
    next
      case False
      then show ?thesis
        using neg sint32 [of i] by (simp only: if_False) linarith
    qed
    then show ?thesis
      using False s by (auto simp: acpi_get_apic_id_def)
  qed
  moreover have "acpi_get_cpu_count k' = of_nat (length ids)"
    using k'(3) len by (simp add: acpi_get_cpu_count_def word_unat_eq_iff unat_of_nat_lt)
  moreover have "old_acpi_parse_madt hdr k = Inr k'"
    using k'(1) by (simp add: old_acpi_parse_madt_def Let_def add.commute)
  ultimately show ?thesis
    using k'(2) by blast
qed

section \<open>The start sequence\<close>

lemma icr_wait_log: "cpu_log (icr_wait k) = cpu_log k \<and> mmio (icr_wait k) = mmio k \<and> apic_base (icr_wait k) = apic_base k
    \<and> apic.more (icr_wait k) = apic.more k \<and> con (icr_wait k) = con k"
proof (induction k rule: icr_wait.induct)
  case (1 k)
  obtain v t where r: "old_apic_read APIC_ICR_LOW k = (v, t)" by fastforce
  then have t: "cpu_log t = cpu_log k \<and> mmio t = mmio k \<and> apic_base t = apic_base k \<and> apic.more t = apic.more k \<and> con t = con k"
    by (auto simp: old_apic_read_def mmio_read_def Let_def split: if_splits)
  show ?case
    using "1.IH" [OF r [symmetric] refl] t by (subst (1 2 3 4 5) icr_wait.simps) (simp add: r)
qed

definition icr_high_addr :: "'a apic_scheme \<Rightarrow> u64" where
  "icr_high_addr k = mmio_addr (drop_bit 2 APIC_ICR_HIGH) k"

text \<open>A command: the destination in the high half, then the low half, which sends it.\<close>

definition command :: "'a apic_scheme \<Rightarrow> u8 \<Rightarrow> u32 \<Rightarrow> cpu_io list" where
  "command k apic_id flags = [MmioWrite (icr_high_addr k) (push_bit 24 (ucast apic_id)), MmioWrite (icr_low_addr k) flags]"

lemma old_write_log:
  "cpu_log (old_apic_write r v k) = cpu_log k @ [MmioWrite (mmio_addr (drop_bit 2 r) k) v]"
  "apic_base (old_apic_write r v k) = apic_base k" "apic.more (old_apic_write r v k) = apic.more k" "con (old_apic_write r v k) = con k"
  "mmio_addr i (old_apic_write r v k) = mmio_addr i k"
  using mmio_write_same [of k "drop_bit 2 r" v]
  by (simp_all add: old_apic_write_def apic_same_def mmio_write_sel)

lemma send_ipis_log:
  "cpu_log (send_init_ipi a k) = cpu_log k @ command k a 0xC500"
  "cpu_log (send_startup_ipi a vec k) = cpu_log k @ command k a (0x600 OR ucast vec)"
  "apic_base (send_init_ipi a k) = apic_base k" "apic_base (send_startup_ipi a vec k) = apic_base k"
  by (simp_all add: send_init_ipi_def send_startup_ipi_def Let_def icr_wait_log old_write_log command_def icr_high_addr_def icr_low_addr_def)

lemma command_cong: "apic_base t = apic_base k \<Longrightarrow> command t = command k"
  by (simp add: fun_eq_iff command_def icr_high_addr_def icr_low_addr_def mmio_addr_def)

lemma delay_ms_log: "cpu_log (delay_ms ms k) = cpu_log k @ [Pauses (ms * 100000)]" "apic_base (delay_ms ms a) = apic_base a"
  for k :: "'a cpu_scheme" and a :: "'b apic_scheme"
  by (simp_all add: delay_ms_def)

lemma wait_booted_log:
  "cpu_log (wait_booted n0 reads p t k) = cpu_log k @ replicate (length (takeWhile (\<lambda>j. reads j = n0) [p..<p + t])) (Pauses 100000)"
proof (induction t arbitrary: p k)
  case (Suc t)
  have "[p..<p + Suc t] = p # [Suc p..<Suc p + t]"
    by (simp add: upt_rec)
  then show ?case
    using Suc.IH [of "Suc p"] by (simp add: delay_ms_log)
qed simp

text \<open>The delays made while the count is still the one before.\<close>

definition booted_polls :: "old_env \<Rightarrow> u32 \<Rightarrow> nat" where
  "booted_polls e i = length (takeWhile (\<lambda>p. booted_read e i p = booted_before e i) [0..<1000])"

lemma polls_log:
  "cpu_log (wait_booted (booted_before e i) (booted_read e i) 0 1000 k) = cpu_log k @ replicate (booted_polls e i) (Pauses 100000)"
  unfolding booted_polls_def wait_booted_log [of _ _ 0 1000] by (simp only: add_0)

lemma polls_bound:
  "booted_polls e i \<le> 1000" "(\<exists>p<1000. booted_read e i p \<noteq> booted_before e i) \<or> booted_polls e i = 1000"
proof -
  show "booted_polls e i \<le> 1000"
    unfolding booted_polls_def using length_takeWhile_le [of _ "[0..<1000 :: nat]"] by (simp only: length_upt diff_zero)
  show "(\<exists>p<1000. booted_read e i p \<noteq> booted_before e i) \<or> booted_polls e i = 1000"
  proof (cases "\<exists>p<1000. booted_read e i p \<noteq> booted_before e i")
    case False
    then have "takeWhile (\<lambda>p. booted_read e i p = booted_before e i) [0..<1000] = [0..<1000]"
      unfolding takeWhile_eq_all_conv set_upt by (intro ballI) (simp only: atLeastLessThan_iff, blast)
    then show ?thesis
      by (intro disjI2) (simp only: booted_polls_def length_upt diff_zero)
  qed (rule disjI1)
qed

lemma id_read: "old_apic_read APIC_ID_REG k = (mmio k (mmio_addr (drop_bit 2 APIC_ID_REG) k), k)"
proof -
  have "mmio_addr (drop_bit 2 APIC_ID_REG) k \<noteq> mmio_addr (drop_bit 2 APIC_ICR_LOW) k"
    using mmio_addr_inj [of "drop_bit 2 APIC_ID_REG" k "drop_bit 2 APIC_ICR_LOW"] by (auto simp: APIC_ID_REG_def APIC_ICR_LOW_def)
  then show ?thesis
    by (simp add: old_apic_read_def mmio_read_def Let_def icr_low_addr_def)
qed

text \<open>\<open>smp_boot_aps\<close> skips the processor it runs on; to every other one it sends INIT, waits, and
  sends two start-up commands with vector 8, each with the destination written first, then waits at
  most 1000 rounds, until a read of \<open>cpus_booted\<close> differs from the one made after the commands.  A
  processor that has started by the time of that read is therefore waited for to the end.\<close>

theorem old_boot_sequence:
  assumes "unat i < length (cpu_ids k)"
  defines "a \<equiv> cpu_ids k ! unat i" and "bsp \<equiv> drop_bit 24 (mmio k (mmio_addr (drop_bit 2 APIC_ID_REG) k))"
  shows "\<exists>t. smp_boot_ap e i k = Inr t
    \<and> (if ucast a = bsp then t = k
       else cpu_log t = cpu_log k @ command k a 0xC500 @ [Pauses 1000000] @ command k a 0x608 @ [Pauses 100000]
              @ command k a 0x608 @ [Pauses 1000000]
              @ replicate (booted_polls e i) (Pauses 100000))
    \<and> booted_polls e i \<le> 1000 \<and> ((\<exists>p<1000. booted_read e i p \<noteq> booted_before e i) \<or> booted_polls e i = 1000)"
proof (cases "ucast a = bsp")
  case True
  then have "smp_boot_ap e i k = Inr k"
    using assms(1) by (simp add: smp_boot_ap_def id_read a_def bsp_def)
  then show ?thesis
    using True polls_bound [where e = e and i = i] by (intro exI [of _ k]) (simp only: if_True simp_thms)
next
  case False
  let ?c = "command k a"
  define k1 where "k1 = delay_ms 10 (send_init_ipi a (k\<lparr>current_cpu_id := i\<rparr>))"
  define k2 where "k2 = delay_ms 1 (send_startup_ipi a 8 k1)"
  define k3 where "k3 = delay_ms 10 (send_startup_ipi a 8 k2)"
  have base: "apic_base k1 = apic_base k" "apic_base k2 = apic_base k"
    by (simp_all add: k1_def k2_def delay_ms_log send_ipis_log)
  have "cpu_log k1 = cpu_log k @ ?c 0xC500 @ [Pauses 1000000]"
    by (simp add: k1_def delay_ms_log send_ipis_log command_cong [of "k\<lparr>current_cpu_id := i\<rparr>" k])
  moreover have "cpu_log k2 = cpu_log k1 @ ?c 0x608 @ [Pauses 100000]"
    by (simp add: k2_def delay_ms_log send_ipis_log command_cong [OF base(1)])
  moreover have "cpu_log k3 = cpu_log k2 @ ?c 0x608 @ [Pauses 1000000]"
    by (simp add: k3_def delay_ms_log send_ipis_log command_cong [OF base(2)])
  moreover have "smp_boot_ap e i k = Inr (wait_booted (booted_before e i) (booted_read e i) 0 1000 k3)"
    using assms(1) False unfolding k1_def k2_def k3_def by (simp add: smp_boot_ap_def id_read Let_def a_def bsp_def)
  ultimately show ?thesis
    using False polls_bound [where e = e and i = i] polls_log [of e i k3]
    by (intro exI [of _ "wait_booted (booted_before e i) (booted_read e i) 0 1000 k3"]) (simp only: if_False append_assoc simp_thms)
qed

section \<open>The verdict\<close>

lemma kputs_wire:
  "line_up k \<Longrightarrow> wire (uart_of (con (kputs s k))) = wire (uart_of (con k)) @ crlf s \<and> line_up (kputs s k)"
  using wire_fold [of "con k" "crlf_chars s"] by (simp add: serial_puts_fold crlf_chars_bytes)

definition results_text :: "u64 \<Rightarrow> u32 \<Rightarrow> bool \<Rightarrow> string" where
  "results_text r c good = newline_char # line ''=== Results ==='' @ ''Total result: '' @ num_text 10 r @ newline_char #
     ''Expected: '' @ num_text 10 500000500000 @ '' (per core) * '' @ piece_text (Dec c) @ '' (cores) = ''
     @ num_text 10 (500000500000 * scast c) @ newline_char #
     (if good then line ''[SUCCESS] All APs booted and functional!'' else line ''[ERROR] Result mismatch!'')
     @ newline_char # line ''=== System Halted ===''"

lemma old_results_sends:
  assumes "line_up k" "c \<noteq> 0x80000000"
  shows "\<exists>k'. old_results e c k = Inr k' \<and> wire (uart_of (con k')) = wire (uart_of (con k))
    @ crlf (results_text (result_shown e) c (result_compared e = 500000500000 * scast c))"
proof -
  let ?k1 = "kputs (newline_char # line ''=== Results ==='') k"
  note k1 = kputs_wire [OF assms(1), of "newline_char # line ''=== Results ===''"]
  obtain c2 where c2: "kprintf (line ''Total result: %lu'') [LongArg (result_shown e)] ?k1 = Inr (?k1\<lparr>con := c2\<rparr>)"
    "wire (uart_of c2) = wire (uart_of (con ?k1)) @ crlf (''Total result: '' @ num_text 10 (result_shown e) @ [newline_char])" "\<not> dlab (uart_of c2)"
    using kprintf_pieces [of "[Lit ''Total result: '', LongU (result_shown e), Lit [newline_char]]" ?k1] k1 by auto
  let ?k2 = "?k1\<lparr>con := c2\<rparr>"
  obtain c3 where c3: "kprintf (line ''Expected: %lu (per core) * %d (cores) = %lu'')
      [LongArg 500000500000, IntArg c, LongArg (500000500000 * scast c)] ?k2 = Inr (?k2\<lparr>con := c3\<rparr>)"
    "wire (uart_of c3) = wire (uart_of c2) @ crlf (''Expected: '' @ num_text 10 500000500000 @ '' (per core) * '' @ piece_text (Dec c)
       @ '' (cores) = '' @ num_text 10 (500000500000 * scast c) @ [newline_char])" "\<not> dlab (uart_of c3)"
    using kprintf_pieces [of "[Lit ''Expected: '', LongU 500000500000, Lit '' (per core) * '', Dec c, Lit '' (cores) = '',
        LongU (500000500000 * scast c), Lit [newline_char]]" ?k2] c2(3) assms(2) by auto
  let ?good = "result_compared e = 500000500000 * scast c"
  let ?v = "if ?good then line ''[SUCCESS] All APs booted and functional!'' else line ''[ERROR] Result mismatch!''"
  let ?k3 = "?k2\<lparr>con := c3\<rparr>"
  have "old_results e c k = Inr (kputs (newline_char # line ''=== System Halted ==='') (kputs ?v ?k3))"
    using c2(1) c3(1) by (simp add: old_results_def Let_def)
  moreover have "line_up ?k3"
    using c3(3) by simp
  note kputs_wire [OF this, of ?v]
  moreover from this have "line_up (kputs ?v ?k3)" ..
  note kputs_wire [OF this, of "newline_char # line ''=== System Halted ===''"]
  ultimately show ?thesis
    using k1 c2(2) c3(2) by (simp add: results_text_def crlf_def)
qed

text \<open>The old kernel's verdict, over every interleaving of \<open>n\<close> processors: it displays the number
  \<open>r\<close> of runs of the task times the sum, \<open>r\<close> being \<open>cpu_count\<close> or up to \<open>n - 1\<close> more, and
  reports success exactly when it is \<open>cpu_count\<close>.\<close>

theorem old_verdict_counts:
  assumes "calls_run (of_nat N) n s" "N < 2 ^ 20" "0 < n" "n < 2 ^ 20" "cpc s 0 = Displays"
    and "result_shown e = shared_result s" "result_compared e = shared_result s" "\<not> dlab (uart_of (con k))"
  shows "\<exists>k' r. old_results e (of_nat N) k = Inr k' \<and> N \<le> r \<and> r \<le> N + (n - 1)
    \<and> wire (uart_of (con k')) = wire (uart_of (con k)) @ crlf (results_text (of_nat r * 500000500000) (of_nat N) (r = N))"
proof -
  obtain r where r: "N \<le> r" "r \<le> N + (n - 1)" "shared_result s = of_nat r * 500000500000"
    "shared_result s = 500000500000 * of_nat N \<longleftrightarrow> r = N"
    using call_result [OF assms(1-5)] by blast
  have N: "N < 2 ^ 31"
    using assms(2) by simp
  have "sint (of_nat N :: u32) = int N"
    by (rule sint_of_nat32 [OF N])
  then have sc: "scast (of_nat N :: u32) = (of_nat N :: u64)"
    by (simp add: scast_eq)
  have "(of_nat N :: u32) \<noteq> 0x80000000"
    using unat_of_nat_lt [of N, where 'a = 32] N by (intro small_not_min) simp
  from old_results_sends [OF assms(8) this, of e] r show ?thesis
    unfolding assms(6,7) sc by auto
qed

text \<open>Without a root pointer in the BIOS area the old kernel halts with an error message: the memory is
  untouched, nothing is written to the processor or the APIC, no other processor is started.\<close>

theorem old_kernel_halts_without_cpus:
  assumes "old_acpi_find_rsdp (mem k) = 0" "acpi_cpu_count k = 0"
  shows "\<exists>k' c. old_kernel_main ld e k = Inr (Halts k') \<and> mem k' = mem k \<and> cpu_log k' = cpu_log k
    \<and> con k' = serial_puts (line ''[Boot] ERROR: No CPUs detected!'') c"
proof -
  let ?k = "k\<lparr>con := old_serial_init (con k)\<rparr>"
  let ?k = "kputs (newline_char # ''=== Boot Linux Minimal - 64-bit SMP Kernel ==='' @ [newline_char, newline_char]) ?k"
  let ?k = "kputs (line ''[ACPI] Searching for RSDP...'') (kputs (line ''[Boot] Detecting CPUs via ACPI...'') ?k)"
  let ?k = "kputs (line ''[ACPI] RSDP not found!'') (?k\<lparr>rsdp := 0\<rparr>)"
  have "old_detect k = Inr ?k"
    using assms(1) by (simp add: old_detect_def acpi_init_def Let_def)
  moreover have "acpi_get_cpu_count ?k = 0" "cpu_log ?k = cpu_log k"
    using assms(2) by (simp_all add: acpi_get_cpu_count_def kputs_def)
  ultimately have "old_kernel_main ld e k = Inr (Halts (kputs (line ''[Boot] ERROR: No CPUs detected!'') ?k))"
    by (simp add: old_kernel_main_def)
  then show ?thesis
    by (intro exI [of _ "kputs (line ''[Boot] ERROR: No CPUs detected!'') ?k"] exI [of _ "con ?k"]) (simp add: kputs_def)
qed

section \<open>Witnesses\<close>

definition old_demo :: "memory \<Rightarrow> old_kernel" where
  "old_demo m = apic.extend ((apic_demo 0)\<lparr>mem := m, con := quiet_console\<rparr>)
     (old_kernel.fields 0 0 (replicate 16 0) 0 0 [0, 5] 0 0 (replicate 16 0))"

lemma old_demo_sel: "mem (old_demo m) = m" "con (old_demo m) = quiet_console" "acpi_cpu_ids (old_demo m) = replicate 16 0"
  "acpi_cpu_count (old_demo m) = 0" "cpu_ids (old_demo m) = [0, 5]"
  by (simp_all add: old_demo_def apic.defs old_kernel.defs)

definition old_env_demo :: "u64 \<Rightarrow> old_env" where
  "old_env_demo r = \<lparr>booted_before = (\<lambda>_. 2), booted_read = (\<lambda>_ _. 2), booted_at_end = 2, result_shown = r, result_compared = r\<rparr>"

lemma old_env_demo_sel: "booted_read (old_env_demo r) i p = booted_before (old_env_demo r) i"
  "result_shown (old_env_demo r) = r" "result_compared (old_env_demo r) = r"
  by (simp_all add: old_env_demo_def)

theorem old_parse_madt_lists_witness:
  "\<exists>k'. old_acpi_parse_madt 0x7000 (old_demo (madt_bytes(0x702D := 8))) = Inr k' \<and> acpi_get_apic_id 0 k' = 5
    \<and> acpi_get_apic_id 1 k' = 0xFF"
  using old_parse_madt_lists [of "old_demo (madt_bytes(0x702D := 8))" "0x7000" "[0x702C, 0x7034, 0x703C]"] madt_demo_list quiet_up
  unfolding old_demo_sel madt_demo_ids by (auto simp: madt_demo_end)

theorem old_boot_sequence_witness:
  "\<exists>t. smp_boot_ap (old_env_demo 0) 1 (old_demo madt_bytes) = Inr t
    \<and> (drop 9 (cpu_log t) = [] \<or> booted_polls (old_env_demo 0) 1 = 1000)"
  using old_boot_sequence [of 1 "old_demo madt_bytes" "old_env_demo 0"] by (auto simp: old_demo_sel old_env_demo_sel)

theorem old_verdict_counts_witness:
  "\<exists>k' r. old_results (old_env_demo (shared_result late_run)) 2 (old_demo madt_bytes) = Inr k' \<and> 2 \<le> r \<and> r \<le> (3 :: nat)"
  using old_verdict_counts [of 2 2 late_run "old_env_demo (shared_result late_run)" "old_demo madt_bytes"] demo_runs(1) late_run_result(1) quiet_up
  by (auto simp: old_demo_sel old_env_demo_sel)

lemma no_signature: "(\<And>p. \<not> rsdp_signature m p) \<Longrightarrow> find_rsdp_loop m q = None"
  by (induction m q rule: find_rsdp_loop.induct) (subst find_rsdp_loop.simps, simp)

theorem old_kernel_halts_without_cpus_witness:
  "\<exists>k'. old_kernel_main ld e (old_demo (\<lambda>_. 0)) = Inr (Halts k')"
proof -
  have "old_acpi_find_rsdp (\<lambda>_. 0) = 0"
    by (simp add: old_acpi_find_rsdp_def no_signature rsdp_signature_def byte_of_def)
  then show ?thesis
    using old_kernel_halts_without_cpus [of "old_demo (\<lambda>_. 0)" ld e] by (auto simp: old_demo_sel)
qed

end
