(* ===== verification/Steps.thy ===== *)
theory Steps
  imports Kernel_Main Old_Kernel
begin

text \<open>
  The kernels that came before, \<^verbatim>\<open>archive/step1-8\<close>: \<^verbatim>\<open>minimal.c\<close>, \<^verbatim>\<open>minimal_acpi.c\<close> (step 1),
  \<^verbatim>\<open>minimal_step2.c\<close> and \<^verbatim>\<open>minimal_step3.c\<close>.  They print on the serial line only, count the processors
  of the MADT, turn on the APIC in xAPIC mode and, in step 3, copy the start-up code.  What they share
  with the final kernel word for word is that of the theories of the final kernel; their \<open>putc\<close> and
  \<open>puts\<close> are the \<open>serial_putc\<close> and \<open>serial_puts\<close> of the old modular kernel.

  \<open>line_say\<close> is the console without screen.  In step 3 the three variables of the start-up code are
  symbols of \<open>old_layout\<close>.
\<close>

section \<open>The console without screen\<close>

definition line_dec :: "u32 \<Rightarrow> console \<Rightarrow> console" where
  "line_dec num c = (if num = 0 then serial_putc CHR ''0'' c else serial_puts (dec_loop 11 num []) c)"

definition line_dec_64 :: "u64 \<Rightarrow> console \<Rightarrow> console" where
  "line_dec_64 num c = (if num = 0 then serial_putc CHR ''0'' c else serial_puts (dec_loop 23 num []) c)"

fun line_emit :: "msg \<Rightarrow> console \<Rightarrow> console" where
  "line_emit (S s) c = serial_puts s c"
| "line_emit (Ln s) c = serial_puts (s @ [newline_char]) c"
| "line_emit (D n) c = line_dec n c"
| "line_emit (Q n) c = line_dec_64 n c"
| "line_emit (H n) c = serial_puts (hex_buf 8 n) c"
| "line_emit (X n) c = serial_puts (hex_buf 16 n) c"

definition line_say :: "msg list \<Rightarrow> console \<Rightarrow> console" where
  "line_say ms c = fold line_emit ms c"

definition line_print :: "msg list \<Rightarrow> 'a machine_scheme \<Rightarrow> 'a machine_scheme" where
  "line_print ms k = k\<lparr>con := line_say ms (con k)\<rparr>"

text \<open>The hexadecimal printer of steps 1 to 3: sixteen digits from the right, and the leading zeros
  skipped but for the last digit.\<close>

fun hex_loop :: "nat \<Rightarrow> u64 \<Rightarrow> string \<Rightarrow> string" where
  "hex_loop 0 num buf = buf"
| "hex_loop (Suc i) num buf = hex_loop i (drop_bit 4 num) (''0123456789ABCDEF'' ! unat (num AND 0xF) # buf)"

fun skip_zeros :: "string \<Rightarrow> string" where
  "skip_zeros (d # e # s) = (if d = CHR ''0'' then skip_zeros (e # s) else d # e # s)"
| "skip_zeros s = s"

definition step_print_hex :: "u64 \<Rightarrow> console \<Rightarrow> console" where
  "step_print_hex num c = serial_puts (skip_zeros (hex_loop 16 num [])) c"

section \<open>The first kernel\<close>

definition minimal_main :: "'a machine_scheme \<Rightarrow> 'a machine_scheme outcome" where
  "minimal_main k =
     (let k = k\<lparr>con := serial_init (con k)\<rparr>;
          k = line_print [Ln '''', rule_line, Ln ''  Ultra-Minimal 64-bit Kernel'', rule_line, Ln ''''] k;
          k = line_print [Ln ''[OK] Serial port initialized (COM1)'', Ln ''[OK] Running in 64-bit long mode'',
                Ln ''[OK] Kernel started successfully!'', Ln ''''] k;
          k = line_print [Ln ''Hello from minimal kernel!'', Ln ''''] k
      in Halts (line_print [Ln ''System halted.''] k))"

section \<open>Step 1: the processors\<close>

text \<open>The MADT is only counted: no array, no bound.\<close>

definition step1_madt_entry :: "u64 \<Rightarrow> u32 \<Rightarrow> 'a machine_scheme \<Rightarrow> u32 \<times> 'a machine_scheme" where
  "step1_madt_entry ptr count k =
     (if mem k ptr = 0 then
        if lapic_flags (mem k) ptr AND 1 \<noteq> 0 then
          let k = line_print [S ''[ACPI] CPU '', D count, Ln '' detected''] k
          in (count + 1, k)
        else (count, k)
      else (count, k))"

partial_function (option) step1_madt_loop :: "u64 \<Rightarrow> u64 \<Rightarrow> u32 \<Rightarrow> 'a machine_scheme \<Rightarrow> (u32 \<times> 'a machine_scheme) option" where
  "step1_madt_loop ptr end_ptr count k =
     (if ptr < end_ptr then
        let len = ucast (mem k (ptr + 1)) :: u64; (count, k) = step1_madt_entry ptr count k
        in step1_madt_loop (ptr + len) end_ptr count k
      else Some (count, k))"

definition step1_parse_madt :: "u64 \<Rightarrow> 'a machine_scheme \<Rightarrow> (u32 \<times> 'a machine_scheme) option" where
  "step1_parse_madt madt_at k =
     (let ptr = madt_at + 44; end_ptr = madt_at + ucast (sdt_length (mem k) madt_at)
      in step1_madt_loop ptr end_ptr 0 k)"

text \<open>\<open>goto halt\<close> on a missing table is \<open>Halts\<close>.\<close>

definition step_detect :: "'a machine_scheme \<Rightarrow> fault + (u32 \<times> 'a machine_scheme) outcome" where
  "step_detect k =
     (let k = line_print [Ln ''[ACPI] Searching for RSDP...''] k;
          rsdp_at = acpi_find_rsdp (mem k) in
      if rsdp_at = 0 then Inr (Halts (0, line_print [Ln ''[ERROR] RSDP not found!''] k))
      else
        let k = line_print [Ln ''[ACPI] RSDP found!'', Ln ''[ACPI] Searching for MADT...''] k;
            madt_at = acpi_find_madt (mem k) rsdp_at in
        if madt_at = 0 then Inr (Halts (0, line_print [Ln ''[ERROR] MADT not found!''] k))
        else
          let k = line_print [Ln ''[ACPI] MADT found!'', Ln ''[ACPI] Parsing MADT entries...''] k
          in case step1_parse_madt madt_at k of None \<Rightarrow> Inl Hang | Some (count, k) \<Rightarrow> Inr (Returns (count, k)))"

definition step_banner :: "string \<Rightarrow> 'a machine_scheme \<Rightarrow> 'a machine_scheme" where
  "step_banner title k =
     (let k = k\<lparr>con := serial_init (con k)\<rparr>;
          k = line_print [Ln '''', rule_line, Ln title, rule_line, Ln ''''] k
      in line_print [Ln ''[OK] Serial port initialized (COM1)'', Ln ''[OK] Running in 64-bit long mode'', Ln ''''] k)"

definition step1_main :: "'a machine_scheme \<Rightarrow> fault + 'a machine_scheme outcome" where
  "step1_main k =
     (let k = step_banner ''  Minimal Kernel - Step 1: ACPI Detection'' k
      in case step_detect k of Inl f \<Rightarrow> Inl f
         | Inr (Halts (_, k)) \<Rightarrow> Inr (Halts (line_print [Ln ''System halted.''] k))
         | Inr (Returns (count, k)) \<Rightarrow>
             let k = line_print [S (newline_char # ''[SUCCESS] Detected ''), D count, Ln '' CPU(s)''] k
             in Inr (Halts (line_print [Ln ''System halted.''] k)))"

section \<open>Step 2: the APIC\<close>

text \<open>Memory mapped registers only.  \<open>label\<close> is the text before the identifier, which step 4 changes.\<close>

definition step_apic_init :: "string \<Rightarrow> 'a apic_scheme \<Rightarrow> 'a apic_scheme" where
  "step_apic_init label k =
     (let k = line_print [Ln (newline_char # ''[APIC] Initializing Local APIC...'')] k;
          apic_msr = rdmsr APIC_BASE_MSR k;
          apic_phys_addr = apic_msr AND 0xFFFFF000;
          k = line_print [Ln ''[APIC] Physical address: 0xFEE00000 (default)''] k;
          k = k\<lparr>apic_base := apic_phys_addr\<rparr>;
          k = (if apic_msr AND push_bit 11 1 = 0 then
                 let k = line_print [Ln ''[APIC] Enabling APIC in MSR...''] k
                 in wrmsr APIC_BASE_MSR (apic_msr OR push_bit 11 1) k
               else k);
          (svr, k) = old_apic_read APIC_SVR_REG k;
          k = line_print [Ln ''[APIC] Enabling APIC (SVR register)...''] k;
          k = old_apic_write APIC_SVR_REG (svr OR APIC_ENABLE) k;
          (id_reg, k) = old_apic_read APIC_ID_REG k;
          apic_id = drop_bit 24 id_reg;
          k = line_print [S (''[APIC] '' @ label @ '': ''), D apic_id, Ln ''''] k
      in line_print [Ln ''[APIC] Local APIC initialized successfully!''] k)"

definition step2_main :: "'a apic_scheme \<Rightarrow> fault + 'a apic_scheme outcome" where
  "step2_main k =
     (let k = step_banner ''  Step 2: ACPI + Local APIC Init'' k
      in case step_detect k of Inl f \<Rightarrow> Inl f
         | Inr (Halts (_, k)) \<Rightarrow> Inr (Halts (line_print [Ln (newline_char # ''System halted.'')] k))
         | Inr (Returns (count, k)) \<Rightarrow>
             let k = line_print [S (newline_char # ''[ACPI] Detected ''), D count, Ln '' CPU(s)''] k;
                 k = step_apic_init ''Current CPU APIC ID'' k;
                 k = line_print [Ln (newline_char # ''[SUCCESS] Step 2 complete!'')] k
             in Inr (Halts (line_print [Ln (newline_char # ''System halted.'')] k)))"

section \<open>Step 3: the start-up code\<close>

text \<open>The code is copied first; the three variables are then set in the original.\<close>

definition step3_setup_trampoline :: "old_layout \<Rightarrow> 'a cpu_scheme \<Rightarrow> 'a cpu_scheme" where
  "step3_setup_trampoline ld k =
     (let k = line_print [Ln (newline_char # ''[SMP] Setting up trampoline...'')] k;
          tsize = trampoline_end ld - trampoline_start ld;
          k = line_print [S ''[SMP] Trampoline size: '', D_of tsize, Ln '' bytes''] k;
          k = k\<lparr>mem := memcpy 0x8000 (trampoline_start ld) (unat tsize) (mem k)\<rparr>;
          k = line_print [Ln ''[SMP] Trampoline copied to 0x8000''] k;
          k = k\<lparr>mem := store32 (trampoline_cr3_sym ld) (ucast (cr3 k)) (mem k)\<rparr>;
          k = k\<lparr>mem := store64 (trampoline_stack_sym ld) (ap_stacks_sym ld + 1 * AP_STACK_SIZE + AP_STACK_SIZE) (mem k)\<rparr>;
          k = k\<lparr>mem := store64 (trampoline_entry_sym ld) (ap_entry_sym ld) (mem k)\<rparr>
      in line_print [Ln ''[SMP] Trampoline configured:'', Ln ''[SMP]   CR3 = [set]'', Ln ''[SMP]   Stack = [set]'',
           Ln ''[SMP]   Entry = [set]''] k)"

definition step3_main :: "old_layout \<Rightarrow> 'a apic_scheme \<Rightarrow> fault + 'a apic_scheme outcome" where
  "step3_main ld k =
     (let k = step_banner ''  Step 3: Trampoline SMP'' k
      in case step_detect k of Inl f \<Rightarrow> Inl f
         | Inr (Halts (_, k)) \<Rightarrow> Inr (Halts (line_print [Ln (newline_char # ''System halted.'')] k))
         | Inr (Returns (count, k)) \<Rightarrow>
             let k = line_print [S (newline_char # ''[ACPI] Detected ''), D count, Ln '' CPU(s)''] k;
                 k = step_apic_init ''Current CPU APIC ID'' k;
                 k = step3_setup_trampoline ld k;
                 k = line_print [Ln (newline_char # ''[SUCCESS] Step 3 complete!''), Ln ''[INFO] Trampoline ready for AP boot (Step 4)''] k
             in Inr (Halts (line_print [Ln (newline_char # ''System halted.'')] k)))"

section \<open>The same bytes\<close>

text \<open>A step that leaves the screen out does to the rest of the console what the later one does.\<close>

lemma putc_wait_screen: "putc_wait (c\<lparr>screen := v\<rparr>) = (putc_wait c)\<lparr>screen := v\<rparr>"
proof (induction c rule: putc_wait.induct)
  case (1 c)
  have "inb (COM1 + 5) (c\<lparr>screen := v\<rparr>) = (fst (inb (COM1 + 5) c), (snd (inb (COM1 + 5) c))\<lparr>screen := v\<rparr>)"
    by (simp add: inb_def Let_def)
  with "1.IH" [OF refl prod.collapse] show ?case
    by (subst (1 2) putc_wait.simps) (simp add: case_prod_unfold Let_def)
qed

lemma serial_putc_is: "serial_putc ch c = putc ch c"
  by (simp add: serial_putc_def putc_def)

lemma putc_on_screen: "putc ch (c\<lparr>screen := v\<rparr>) = (putc ch c)\<lparr>screen := v\<rparr>"
  by (simp add: putc_def outb_def Let_def putc_wait_screen)

lemma serial_puts_is: "serial_puts s c = (puts s (c\<lparr>screen := v\<rparr>))\<lparr>screen := screen c\<rparr>"
proof (induction s arbitrary: c v)
  case (Cons ch s)
  let ?c = "if ch = newline_char then putc return_char c else c"
  have "serial_puts (ch # s) c = serial_puts s (putc ch ?c)"
    by (simp add: serial_putc_is Let_def)
  also have "\<dots> = (puts s ((putc ch ?c)\<lparr>screen := vga_putchar ch v\<rparr>))\<lparr>screen := screen c\<rparr>"
    by (subst Cons [of _ "vga_putchar ch v"]) (simp add: frame)
  also have "\<dots> = (puts (ch # s) (c\<lparr>screen := v\<rparr>))\<lparr>screen := screen c\<rparr>"
    by (simp add: putc_on_screen Let_def)
  finally show ?case .
qed simp

lemma line_emit_is: "line_emit m c = (emit m (c\<lparr>screen := v\<rparr>))\<lparr>screen := screen c\<rparr>"
proof -
  have "serial_putc ch c = (putc ch (c\<lparr>screen := v\<rparr>))\<lparr>screen := screen c\<rparr>" for ch
    using screen_putc [of ch c] by (cases "putc ch c") (simp add: serial_putc_is putc_on_screen)
  then show ?thesis
    by (cases m) (simp_all add: line_dec_def print_dec_def line_dec_64_def print_dec_64_def print_hex_def print_hex_64_def
        serial_puts_is [where v = v])
qed

lemma line_say_is: "line_say ms c = (say ms (c\<lparr>screen := v\<rparr>))\<lparr>screen := screen c\<rparr>"
proof (induction ms arbitrary: c v)
  case (Cons m ms)
  let ?e = "emit m (c\<lparr>screen := v\<rparr>)"
  have "line_say (m # ms) c = line_say ms (?e\<lparr>screen := screen c\<rparr>)"
    by (simp add: line_say_def line_emit_is [of m c v])
  also have "\<dots> = (say ms ?e)\<lparr>screen := screen c\<rparr>"
    by (subst Cons [of _ "screen ?e"]) simp
  finally show ?case
    by (simp add: say_def)
qed (simp add: line_say_def say_def)

text \<open>Without the screen the kernel's messages are the same bytes with the same waits: printing on
  the serial line only is printing on both with the screen put back.\<close>

theorem serial_console_equiv: "line_say ms c = (say ms c)\<lparr>screen := screen c\<rparr>"
  using line_say_is [of ms c "screen c"] by simp

lemma line_print_frame [simp]: "mem (line_print ms k) = mem k" "machine.more (line_print ms k) = machine.more k"
  "con (line_print ms k) = line_say ms (con k)"
  by (simp_all add: line_print_def)

lemma line_say_append [simp]: "line_say b (line_say a c) = line_say (a @ b) c"
  by (simp add: line_say_def)

section \<open>The hexadecimal printer\<close>

definition hex_numeral :: "nat \<Rightarrow> string \<Rightarrow> bool" where
  "hex_numeral n t \<longleftrightarrow> hex_value t = n \<and> t \<noteq> [] \<and> (hd t \<noteq> CHR ''0'' \<or> t = ''0'')"

lemma hex_loop_digits:
  "hex_loop i num buf = map (\<lambda>j. nibble_char (unat (drop_bit (4 * (i - 1) - j * 4) num AND 0xF))) [0..<i] @ buf"
proof (induction i arbitrary: num buf)
  case (Suc i)
  have d: "''0123456789ABCDEF'' ! unat (num AND 0xF) = nibble_char (unat (num AND 0xF))"
    by (rule nibble_char_table) (simp add: unat_nibble)
  have eq: "map (\<lambda>j. nibble_char (unat (drop_bit (4 * (i - 1) - j * 4) (drop_bit 4 num) AND 0xF))) [0..<i]
      = map (\<lambda>j. nibble_char (unat (drop_bit (4 * i - j * 4) num AND 0xF))) [0..<i]"
  proof (rule map_cong [OF refl])
    fix j assume "j \<in> set [0..<i]"
    then have "4 * (i - 1) - j * 4 + 4 = 4 * i - j * 4"
      by auto
    then show "nibble_char (unat (drop_bit (4 * (i - 1) - j * 4) (drop_bit 4 num) AND 0xF))
        = nibble_char (unat (drop_bit (4 * i - j * 4) num AND 0xF))"
      by (simp add: drop_bit_drop_bit)
  qed
  have "hex_loop (Suc i) num buf = map (\<lambda>j. nibble_char (unat (drop_bit (4 * i - j * 4) num AND 0xF))) [0..<i]
      @ nibble_char (unat (num AND 0xF)) # buf"
    unfolding hex_loop.simps Suc.IH d eq ..
  then show ?case
    by (simp add: mult.commute)
qed simp

lemma hex_value_zero: "hex_value (CHR ''0'' # s) = hex_value s"
  by (simp add: hex_value_def hex_digit_value_def)

lemma skip_zeros_props:
  "hex_value (skip_zeros s) = hex_value s" "length (skip_zeros s) \<le> length s" "set (skip_zeros s) \<subseteq> set s"
  "s \<noteq> [] \<Longrightarrow> skip_zeros s \<noteq> [] \<and> (hd (skip_zeros s) \<noteq> CHR ''0'' \<or> skip_zeros s = ''0'')"
proof -
  show "hex_value (skip_zeros s) = hex_value s"
    by (induction s rule: skip_zeros.induct) (simp_all add: hex_value_zero)
  show "length (skip_zeros s) \<le> length s"
    by (induction s rule: skip_zeros.induct) (auto intro: le_SucI)
  show "set (skip_zeros s) \<subseteq> set s"
    by (induction s rule: skip_zeros.induct) auto
  show "s \<noteq> [] \<Longrightarrow> skip_zeros s \<noteq> [] \<and> (hd (skip_zeros s) \<noteq> CHR ''0'' \<or> skip_zeros s = ''0'')"
    by (induction s rule: skip_zeros.induct) auto
qed

lemma serial_puts_wire: "\<not> dlab (uart_of c) \<Longrightarrow> wire (uart_of (serial_puts s c)) = wire (uart_of c) @ crlf s"
  using serial_puts_is [of s c "screen c"] puts_wire [of c s] by simp

text \<open>The hexadecimal printer of the first steps sends the canonical numeral of its argument, without
  prefix or leading zeros, in at most sixteen digits.\<close>

theorem step_print_hex_canonical:
  assumes "\<not> dlab (uart_of c)"
  shows "\<exists>t. wire (uart_of (step_print_hex num c)) = wire (uart_of c) @ map byte_of t
    \<and> hex_numeral (unat num) t \<and> length t \<le> 16"
proof -
  let ?s = "hex_loop 16 num []" and ?t = "skip_zeros (hex_loop 16 num [])"
  have s: "?s = map (\<lambda>j. nibble_char (unat (drop_bit (4 * (16 - 1) - j * 4) num AND 0xF))) [0..<16]"
    by (subst hex_loop_digits) simp
  have "unat num < 16 ^ 16"
    using unsigned_less [of num, where 'a = nat] by simp
  from hex_prefix_value [OF this le_refl] have v: "hex_value ?s = unat num"
    unfolding s by simp
  have len: "length ?s = 16"
    unfolding s by simp
  have ne: "?s \<noteq> []"
    unfolding s by simp
  have "newline_char \<notin> set ?s"
  proof -
    have "newline_char \<noteq> nibble_char (m mod 16)" for m
      using nibble_char_printable [of "m mod 16"] by auto
    then show ?thesis
      unfolding s by (auto simp: unat_nibble)
  qed
  then have nl: "newline_char \<notin> set ?t"
    using skip_zeros_props(3) by blast
  have "crlf u = map byte_of u" if "newline_char \<notin> set u" for u
    using that by (induction u) (auto simp: crlf_def)
  then have "wire (uart_of (step_print_hex num c)) = wire (uart_of c) @ map byte_of ?t"
    using serial_puts_wire [OF assms] nl by (simp add: step_print_hex_def)
  moreover have "hex_numeral (unat num) ?t"
    using skip_zeros_props(4) [OF ne] v skip_zeros_props(1) [of ?s] by (simp add: hex_numeral_def)
  moreover have "length ?t \<le> 16"
    using skip_zeros_props(2) [of ?s] len by simp
  ultimately show ?thesis by blast
qed

section \<open>The start-up code of step 3\<close>

text \<open>The offset of a variable in the start-up code.  \<open>vars_inside\<close>: the three variables lie in the code,
  as the assembler places them, apart from each other; the code is not at \<open>0x8000\<close> yet.\<close>

definition offset_of :: "old_layout \<Rightarrow> u64 \<Rightarrow> nat" where
  "offset_of ld v = unat (v - trampoline_start ld)"

definition code_length :: "old_layout \<Rightarrow> nat" where
  "code_length ld = unat (trampoline_end ld - trampoline_start ld)"

definition vars_inside :: "old_layout \<Rightarrow> bool" where
  "vars_inside ld \<longleftrightarrow>
     offset_of ld (trampoline_cr3_sym ld) + 4 \<le> code_length ld
     \<and> offset_of ld (trampoline_stack_sym ld) + 8 \<le> code_length ld
     \<and> offset_of ld (trampoline_entry_sym ld) + 8 \<le> code_length ld
     \<and> disjoint_ranges (trampoline_cr3_sym ld) 4 (trampoline_stack_sym ld) 8
     \<and> disjoint_ranges (trampoline_cr3_sym ld) 4 (trampoline_entry_sym ld) 8
     \<and> (\<forall>i<code_length ld. \<forall>j<code_length ld. trampoline_start ld + of_nat i \<noteq> tramp j)"

lemma var_not_low:
  assumes "vars_inside ld" "offset_of ld v + l \<le> code_length ld" "j < code_length ld"
  shows "\<not> in_range v l (tramp j)"
proof
  assume "in_range v l (tramp j)"
  then have i: "unat (tramp j - v) < l"
    by (simp add: in_range_def)
  have "trampoline_start ld + of_nat (offset_of ld v + unat (tramp j - v)) = tramp j"
    by (simp add: offset_of_def)
  moreover have "offset_of ld v + unat (tramp j - v) < code_length ld"
    using i assms(2) by simp
  ultimately show False
    using assms(1,3) unfolding vars_inside_def by blast
qed

text \<open>A word inside a copy is the word at the place it was copied from.\<close>

lemma load32_moved:
  assumes copy: "\<And>i. i < len \<Longrightarrow> m' (tramp i) = m (src + of_nat i)" and c: "c = src + of_nat d" "d + 4 \<le> len"
  shows "load32 m' (tramp d) = load32 m c"
proof -
  have "load_le n m' (tramp (d + (4 - n))) = (load_le n m (c + of_nat (4 - n)) :: u32)" if "n \<le> 4" for n
    using that
  proof (induction n)
    case (Suc n)
    let ?i = "d + (4 - Suc n)"
    have "?i < len"
      using c(2) by linarith
    from copy [OF this] have "m' (tramp ?i) = m (c + of_nat (4 - Suc n))"
      by (simp add: c(1) add.assoc)
    moreover have "tramp ?i + 1 = tramp (d + (4 - n))" "c + of_nat (4 - Suc n) + 1 = c + of_nat (4 - n)"
      using Suc.prems by (simp_all add: tramp_def Suc_diff_Suc flip: of_nat_Suc add.assoc)
    ultimately show ?case
      using Suc by (simp add: algebra_simps)
  qed simp
  from this [of 4] show ?thesis
    by (simp add: load32_def)
qed

text \<open>C40: Step 3 sets the variables of the start-up code after it has copied it: the copy at \<open>0x8000\<close>, which
  a processor would run, stays the code as assembled, with the old values of page table, stack and entry
  point; the page table is in the original only.\<close>

theorem step3_trampoline_unpatched:
  fixes k :: "'a cpu_scheme"
  assumes "vars_inside ld"
  defines "k' \<equiv> step3_setup_trampoline ld k" and "c \<equiv> trampoline_cr3_sym ld"
  shows "(\<forall>i<code_length ld. mem k' (tramp i) = mem k (trampoline_start ld + of_nat i))
    \<and> load32 (mem k') (tramp (offset_of ld c)) = load32 (mem k) c \<and> load32 (mem k') c = ucast (cr3 k)"
proof -
  let ?m = "memcpy 0x8000 (trampoline_start ld) (code_length ld) (mem k)"
  note ok = assms(1) [unfolded vars_inside_def, folded c_def]
  have m: "mem k' = store64 (trampoline_entry_sym ld) (ap_entry_sym ld)
      (store64 (trampoline_stack_sym ld) (ap_stacks_sym ld + 1 * AP_STACK_SIZE + AP_STACK_SIZE) (store32 c (ucast (cr3 k)) ?m))"
    by (simp add: k'_def c_def step3_setup_trampoline_def Let_def code_length_def line_print_def)
  have copy: "mem k' (tramp i) = mem k (trampoline_start ld + of_nat i)" if i: "i < code_length ld" for i
  proof -
    have "mem k' (tramp i) = ?m (tramp i)"
      unfolding m store64_def store32_def using var_not_low [OF assms(1) _ i] ok by (simp add: store_le_other)
    also have "\<dots> = mem k (trampoline_start ld + of_nat i)"
      unfolding tramp_def using i ok unsigned_less [of "trampoline_end ld - trampoline_start ld", where 'a = nat]
      by (intro memcpy_nth) (auto simp: tramp_def code_length_def)
    finally show ?thesis .
  qed
  moreover have "load32 (mem k') (tramp (offset_of ld c)) = load32 (mem k) c"
    using ok copy by (intro load32_moved [of "code_length ld"]) (simp_all add: offset_of_def)
  moreover have "load32 (mem k') c = ucast (cr3 k)"
  proof -
    have "load32 (mem k') c = load32 (store32 c (ucast (cr3 k)) ?m) c"
      unfolding load32_def m store64_def using ok by (intro load_le_cong) (simp add: disjoint_ranges_def store_le_other)
    then show ?thesis
      by simp
  qed
  ultimately show ?thesis by blast
qed

section \<open>The processors counted\<close>

definition counted_text :: "nat \<Rightarrow> nat \<Rightarrow> msg list" where
  "counted_text start n = concat (map (\<lambda>i. [S ''[ACPI] CPU '', D (of_nat i), Ln '' detected'']) [start..<start + n])"

lemma line_print_line_print: "line_print b (line_print a k) = line_print (a @ b) k"
  by (simp add: line_print_def)

lemma enabled_ids_Cons:
  "length (enabled_ids m (p # ps)) = (if m p = 0 \<and> lapic_flags m p AND 1 \<noteq> 0 then 1 else 0) + length (enabled_ids m ps)"
  by (simp add: enabled_ids_def)

lemma step1_loop_list:
  assumes "madt_list m end_ptr p ps" "mem k = m"
  shows "step1_madt_loop p end_ptr (of_nat start) k
    = Some (of_nat (start + length (enabled_ids m ps)), line_print (counted_text start (length (enabled_ids m ps))) k)"
  using assms
proof (induction p ps arbitrary: k start rule: madt_list.induct)
  case (madt_end p)
  then show ?case
    by (subst step1_madt_loop.simps) (simp add: enabled_ids_def counted_text_def line_print_def line_say_def)
next
  case (madt_next p ps)
  let ?k = "line_print [S ''[ACPI] CPU '', D (of_nat start), Ln '' detected''] k"
  have more: "counted_text start (Suc n) = [S ''[ACPI] CPU '', D (of_nat start), Ln '' detected''] @ counted_text (Suc start) n" for n
    by (simp add: counted_text_def upt_conv_Cons del: upt_Suc)
  show ?case
    using madt_next.hyps madt_next.prems madt_next.IH [of ?k "Suc start"] madt_next.IH [of k start]
    by (subst step1_madt_loop.simps)
      (simp add: step1_madt_entry_def Let_def enabled_ids_Cons more line_print_line_print add.commute)
qed

text \<open>A machine whose tables are found, with the entries \<open>ps\<close> in the MADT, and what the first steps have
  printed when they come to the count.\<close>

definition tables_found :: "memory \<Rightarrow> u64 list \<Rightarrow> bool" where
  "tables_found m ps \<longleftrightarrow>
     (let r = acpi_find_rsdp m; t = acpi_find_madt m r
      in r \<noteq> 0 \<and> t \<noteq> 0 \<and> madt_list m (t + ucast (sdt_length m t)) (t + 44) ps)"

definition banner_text :: "string \<Rightarrow> msg list" where
  "banner_text title = [Ln '''', rule_line, Ln title, rule_line, Ln '''', Ln ''[OK] Serial port initialized (COM1)'',
     Ln ''[OK] Running in 64-bit long mode'', Ln '''']"

definition found_text :: "nat \<Rightarrow> msg list" where
  "found_text n = [Ln ''[ACPI] Searching for RSDP...'', Ln ''[ACPI] RSDP found!'', Ln ''[ACPI] Searching for MADT...'',
     Ln ''[ACPI] MADT found!'', Ln ''[ACPI] Parsing MADT entries...''] @ counted_text 0 n"

lemma step_banner_eq: "step_banner title k = line_print (banner_text title) (k\<lparr>con := serial_init (con k)\<rparr>)"
  by (simp add: step_banner_def banner_text_def Let_def line_print_line_print)

lemma step_detect_found:
  assumes "tables_found (mem k) ps"
  defines "n \<equiv> length (enabled_ids (mem k) ps)"
  shows "step_detect k = Inr (Returns (of_nat n, line_print (found_text n) k))"
proof -
  note t = assms(1) [unfolded tables_found_def Let_def]
  let ?t = "acpi_find_madt (mem k) (acpi_find_rsdp (mem k))"
  let ?k = "line_print (take 5 (found_text 0)) k"
  have "step1_parse_madt ?t ?k = Some (of_nat n, line_print (counted_text 0 n) ?k)"
    using t step1_loop_list [of "mem k" "?t + ucast (sdt_length (mem k) ?t)" "?t + 44" ps ?k 0]
    by (simp add: step1_parse_madt_def n_def)
  then show ?thesis
    using t by (simp add: step_detect_def Let_def line_print_line_print found_text_def)
qed

text \<open>Step 1 tells the number of processors: on tables that can be found, with any number of entries, it
  halts with the memory untouched and reports each enabled processor, from 0, and then how many there
  are; without tables it halts with the error.\<close>

theorem step1_counts_cpus:
  "(\<forall>ps. tables_found (mem k) ps \<longrightarrow>
      step1_main k = Inr (Halts (k\<lparr>con := line_say (banner_text ''  Minimal Kernel - Step 1: ACPI Detection''
        @ found_text (length (enabled_ids (mem k) ps))
        @ [S (newline_char # ''[SUCCESS] Detected ''), D (of_nat (length (enabled_ids (mem k) ps))), Ln '' CPU(s)'',
           Ln ''System halted.'']) (serial_init (con k))\<rparr>)))
   \<and> (acpi_find_rsdp (mem k) = 0 \<longrightarrow>
      step1_main k = Inr (Halts (k\<lparr>con := line_say (banner_text ''  Minimal Kernel - Step 1: ACPI Detection''
        @ [Ln ''[ACPI] Searching for RSDP...'', Ln ''[ERROR] RSDP not found!'', Ln ''System halted.'']) (serial_init (con k))\<rparr>)))"
proof -
  let ?k = "step_banner ''  Minimal Kernel - Step 1: ACPI Detection'' k"
  have m: "mem ?k = mem k"
    by (simp add: step_banner_eq)
  show ?thesis
    using step_detect_found [of ?k, unfolded m]
    by (simp add: step1_main_def step_detect_def m Let_def line_print_line_print)
      (simp add: step_banner_eq line_print_def)
qed

section \<open>Witnesses\<close>

definition steps_layout :: old_layout where
  "steps_layout = layout.extend smp_layout (old_layout.fields 0x2000E8 0x2000F0 0x2000F8 0x101000)"

lemma steps_layout_sel:
  "trampoline_start steps_layout = trampoline_start smp_layout" "trampoline_end steps_layout = trampoline_end smp_layout"
  "trampoline_cr3_sym steps_layout = 0x2000E8" "trampoline_stack_sym steps_layout = 0x2000F0" "trampoline_entry_sym steps_layout = 0x2000F8"
  by (simp_all add: steps_layout_def layout.defs old_layout.defs)

lemma steps_layout_ok: "vars_inside steps_layout"
proof -
  have s: "trampoline_start smp_layout = 0x200000" "trampoline_end smp_layout = 0x200100"
    by (simp_all add: smp_layout_def)
  then have n: "code_length steps_layout = 0x100" "unat (trampoline_size smp_layout) = 0x100"
    by (simp_all add: code_length_def trampoline_size_def steps_layout_sel)
  have d: "disjoint_ranges (0x2000E8 :: u64) 4 0x2000F0 8" "disjoint_ranges (0x2000E8 :: u64) 4 0x2000F8 8"
    by (rule disjoint_below; simp)+
  have "\<forall>i<0x100. \<forall>j<0x100. trampoline_start smp_layout + of_nat i \<noteq> tramp j"
    using smp_layout_ok unfolding trampoline_ok_def n by blast
  then show ?thesis
    unfolding vars_inside_def n offset_of_def steps_layout_sel using d by (simp add: s)
qed

theorem step3_trampoline_unpatched_witness:
  "load32 (mem (step3_setup_trampoline steps_layout ((smp_demo 4)\<lparr>mem := \<lambda>_. 0, cr3 := 0x101000\<rparr>))) (tramp 0xE8) = 0
   \<and> load32 (mem (step3_setup_trampoline steps_layout ((smp_demo 4)\<lparr>mem := \<lambda>_. 0, cr3 := 0x101000\<rparr>))) 0x2000E8 = 0x101000"
proof -
  have "offset_of steps_layout 0x2000E8 = 0xE8"
    by (simp add: offset_of_def steps_layout_sel smp_layout_def)
  moreover have "load32 (\<lambda>_. 0) a = 0" for a
    by (simp add: load_bytes)
  ultimately show ?thesis
    using step3_trampoline_unpatched [OF steps_layout_ok, of "(smp_demo 4)\<lparr>mem := \<lambda>_. 0, cr3 := 0x101000\<rparr>"]
    by (simp add: steps_layout_sel)
qed

theorem step_print_hex_canonical_witness:
  "\<exists>t. wire (uart_of (step_print_hex 0x1F quiet_console)) = wire (uart_of quiet_console) @ map byte_of t \<and> hex_numeral 31 t \<and> length t \<le> 16"
  using step_print_hex_canonical [OF quiet_console_ready, of "0x1F"] by simp

theorem step1_counts_cpus_witness:
  "\<exists>k'. step1_main (main_demo one_cpu_mem) = Inr (Halts k') \<and> mem k' = one_cpu_mem"
proof -
  have "tables_found one_cpu_mem [0x702C]"
    using one_cpu_acpi [OF refl] by (simp add: tables_found_def Let_def)
  with step1_counts_cpus [of "main_demo one_cpu_mem"] show ?thesis
    by (auto simp: main_demo_sel)
qed

end
