(* ===== verification/Steps_Smp.thy ===== *)
theory Steps_Smp
  imports Steps Hybrid
begin

text \<open>
  Steps 4 to 8 of \<^verbatim>\<open>archive/step1-8\<close>: starting the processors (4), the parallel tests (5), the
  descriptor table (6), x2APIC (7) and the timer (8).  Their functions are those of the final kernel
  except the ones below; the final kernel differs by its memory management, its screen, and the timers
  of the other processors.

  These kernels have no screen.  \<open>serial_only\<close> runs a kernel written with the messages of the final one
  and puts the screen back at the end, which is the same by theorem \<open>serial_console_equiv\<close>.  In steps 4 to
  6 the x2APIC flag does not exist: \<open>use_x2apic\<close> is false there, and the lemmas \<open>step4_ipi\<close> show that
  \<open>send_ipi\<close> is then the one of these steps.  The environment \<open>e\<close> is that of theory
  \<^verbatim>\<open>Kernel_Main\<close>.
\<close>

definition screen_back :: "'a machine_scheme \<Rightarrow> 'a machine_scheme \<Rightarrow> 'a machine_scheme" where
  "screen_back k t = t\<lparr>con := (con t)\<lparr>screen := screen (con k)\<rparr>\<rparr>"

definition serial_only ::
  "('a machine_scheme \<Rightarrow> fault + 'a machine_scheme outcome) \<Rightarrow> 'a machine_scheme \<Rightarrow> fault + 'a machine_scheme outcome" where
  "serial_only main k =
     (case main k of Inl f \<Rightarrow> Inl f | Inr (Halts t) \<Rightarrow> Inr (Halts (screen_back k t)) | Inr (Returns t) \<Rightarrow> Inr (Returns (screen_back k t)))"

section \<open>Step 4: starting the processors\<close>

fun step4_wait_loop :: "nat \<Rightarrow> 'a apic_scheme \<Rightarrow> 'a apic_scheme" where
  "step4_wait_loop 0 k = snd (old_apic_read APIC_ICR_LOW k)"
| "step4_wait_loop (Suc timeout) k =
     (let (v, k) = old_apic_read APIC_ICR_LOW k
      in if v AND push_bit 12 1 \<noteq> 0 then step4_wait_loop timeout (cpu_do (Pauses 1) k) else k)"

definition step4_wait_icr :: "'a apic_scheme \<Rightarrow> 'a apic_scheme" where
  "step4_wait_icr k = step4_wait_loop 1000000 k"

definition step4_send_ipi :: "u32 \<Rightarrow> u32 \<Rightarrow> 'a apic_scheme \<Rightarrow> 'a apic_scheme" where
  "step4_send_ipi apic_id flags k =
     (let k = step4_wait_icr k;
          k = old_apic_write APIC_ICR_HIGH (push_bit 24 apic_id) k;
          k = old_apic_write APIC_ICR_LOW flags k
      in step4_wait_icr k)"

definition step4_ap_entry :: "'a smp_scheme \<Rightarrow> 'a smp_scheme" where
  "step4_ap_entry k = k\<lparr>cpus_online := cpus_online k + 1\<rparr>"

definition step_tsc :: "'a cpu_scheme \<Rightarrow> 'a cpu_scheme" where
  "step_tsc k =
     (let k = kprint [Ln ''[TSC] Calibrating Time Stamp Counter...''] k;
          k = calibrate_tsc k
      in kprint [S ''[TSC] TSC frequency: '', D_of (tsc_khz k), Ln '' kHz''] k)"

definition step4_find_cpus :: "'a acpi_scheme \<Rightarrow> fault + 'a acpi_scheme outcome" where
  "step4_find_cpus k =
     (let k = kprint [Ln (newline_char # ''[ACPI] Searching for RSDP...'')] k;
          rsdp_at = acpi_find_rsdp (mem k) in
      if rsdp_at = 0 then Inr (Halts (kprint [Ln ''[ERROR] RSDP not found!''] k))
      else
        let k = kprint [Ln ''[ACPI] RSDP found!'', Ln ''[ACPI] Searching for MADT...''] k;
            madt_at = acpi_find_madt (mem k) rsdp_at in
        if madt_at = 0 then Inr (Halts (kprint [Ln ''[ERROR] MADT not found!''] k))
        else
          let k = kprint [Ln ''[ACPI] MADT found!'', Ln ''[ACPI] Parsing MADT entries...''] k
          in case acpi_parse_madt madt_at k of None \<Rightarrow> Inl Hang
             | Some (count, k) \<Rightarrow>
                 let k = k\<lparr>cpu_count := count\<rparr>
                 in Inr (Returns (kprint [S (newline_char # ''[ACPI] Detected ''), D (cpu_count k), Ln '' CPU(s)''] k)))"

definition step4_start_cpus :: "layout \<Rightarrow> 'a smp_scheme \<Rightarrow> fault + 'a smp_scheme" where
  "step4_start_cpus ld k =
     (let k = step_apic_init ''BSP APIC ID'' k;
          k = setup_trampoline ld k;
          k = kprint [Ln (newline_char # ''[SMP] Starting AP boot sequence...'')] k
      in boot_all_aps ld k)"

definition step_halt :: "'a machine_scheme \<Rightarrow> 'a machine_scheme outcome" where
  "step_halt k = Halts (kprint [Ln (newline_char # ''System halted.'')] k)"

definition step4_report :: "u32 \<Rightarrow> 'a smp_scheme \<Rightarrow> 'a smp_scheme" where
  "step4_report started k =
     (let k = k\<lparr>cpus_online := cpus_online k + started\<rparr>;
          k = kprint [Ln (newline_char # ''[SMP] Application Processors booted''), S ''[SMP] CPUs online: '', D (cpus_online k),
                S '' / '', D (cpu_count k), Ln ''''] k
      in if cpus_online k = cpu_count k
         then kprint [Ln (newline_char # ''[SUCCESS] All CPUs booted successfully!''), Ln ''[SUCCESS] Step 4 complete!''] k
         else kprint [Ln (newline_char # ''[WARNING] Not all CPUs came online''), Ln ''[INFO] This may be normal in some environments''] k)"

definition step4_run :: "layout \<Rightarrow> u32 \<Rightarrow> 'a smp_scheme \<Rightarrow> fault + 'a smp_scheme outcome" where
  "step4_run ld started k =
     (let k = step_banner ''  Step 4: Boot APs (INIT-SIPI-SIPI)'' k;
          k = step_tsc k
      in case step4_find_cpus k of Inl f \<Rightarrow> Inl f | Inr (Halts k) \<Rightarrow> Inr (step_halt k) | Inr (Returns k) \<Rightarrow>
         case step4_start_cpus ld k of Inl f \<Rightarrow> Inl f | Inr k \<Rightarrow> Inr (step_halt (step4_report started k)))"

definition step4_main :: "layout \<Rightarrow> u32 \<Rightarrow> 'a smp_scheme \<Rightarrow> fault + 'a smp_scheme outcome" where
  "step4_main ld started = serial_only (step4_run ld started)"

section \<open>Step 5: the parallel tests\<close>

text \<open>\<open>ap_entry\<close> up to the tests, which are the actions of theory \<^verbatim>\<open>Parallel\<close>.\<close>

definition step5_ap_entry :: "'a smp_scheme \<Rightarrow> u32 \<times> 'a smp_scheme" where
  "step5_ap_entry k =
     (let my_id = cpus_online k;
          k = k\<lparr>cpus_online := cpus_online k + 1\<rparr>
      in (my_id, cpu_do (Pauses 100000) k))"

definition step5_verdict :: "env \<Rightarrow> bool \<Rightarrow> 'a smp_scheme \<Rightarrow> 'a smp_scheme" where
  "step5_verdict e barrier_ok k =
     (let k = kprint [Ln '''', rule_line] k;
          k = (if total_shown e = expected_sum \<and> barrier_ok
               then kprint [Ln ''[SUCCESS] All tests passed!'', Ln ''[SUCCESS] Step 5 complete!''] k
               else kprint [Ln ''[WARNING] Some tests failed''] k)
      in kprint [rule_line] k)"

definition step5_results :: "env \<Rightarrow> 'a smp_scheme \<Rightarrow> fault + 'a smp_scheme" where
  "step5_results e k =
     (case kernel_result_1 e k of Inl f \<Rightarrow> Inl f | Inr k \<Rightarrow>
      case kernel_result_2 e k of Inl f \<Rightarrow> Inl f | Inr k \<Rightarrow>
      case kernel_result_3 e k of Inl f \<Rightarrow> Inl f | Inr (barrier_ok, k) \<Rightarrow>
      Inr (step5_verdict e barrier_ok k))"

definition step5_run :: "layout \<Rightarrow> env \<Rightarrow> 'a smp_scheme \<Rightarrow> fault + 'a smp_scheme outcome" where
  "step5_run ld e k =
     (let k = step_banner ''  Step 5: Parallel Computation'' k;
          k = step_tsc k
      in case step4_find_cpus k of Inl f \<Rightarrow> Inl f | Inr (Halts k) \<Rightarrow> Inr (step_halt k) | Inr (Returns k) \<Rightarrow>
         case step4_start_cpus ld k of Inl f \<Rightarrow> Inl f | Inr k \<Rightarrow>
         let k = kernel_report_cpus (aps_started e) k;
             k = kernel_run_tests k in
         case step5_results e k of Inl f \<Rightarrow> Inl f | Inr k \<Rightarrow> Inr (step_halt k))"

definition step5_main :: "layout \<Rightarrow> env \<Rightarrow> 'a smp_scheme \<Rightarrow> fault + 'a smp_scheme outcome" where
  "step5_main ld e = serial_only (step5_run ld e)"

section \<open>Steps 6 and 7: the descriptor table and x2APIC\<close>

text \<open>The table is cleared, and the first 32 gates are set; nothing else is.\<close>

definition clear_gate :: "nat \<Rightarrow> 'a idt_state_scheme \<Rightarrow> 'a idt_state_scheme" where
  "clear_gate i k =
     k\<lparr>idt := (idt k)[i := (idt k ! i)\<lparr>offset_low := 0, offset_mid := 0, offset_high := 0, selector := 0, ist := 0,
       type_attr := 0, zero := 0\<rparr>]\<rparr>"

definition step6_idt_init :: "layout \<Rightarrow> 'a idt_state_scheme \<Rightarrow> 'a idt_state_scheme" where
  "step6_idt_init ld k =
     (let k = for_up (0 :: u32) 256 (\<lambda>i. clear_gate (unat i)) k;
          k = for_up (0 :: u32) 32 (\<lambda>i. idt_set_gate (ucast i) (exception_stub_sym ld (unat i)) 0x08 0x8E) k;
          k = k\<lparr>idtr_limit := 256 * 16 - 1, idtr_base := idt_sym ld\<rparr>
      in idt_load k)"

text \<open>The handler never returns: the result is the state in its \<open>hlt\<close> loop.\<close>

definition step6_exception_handler :: "u64 \<Rightarrow> u64 \<Rightarrow> u64 \<Rightarrow> 'a idt_state_scheme \<Rightarrow> 'a idt_state_scheme" where
  "step6_exception_handler vec error_code rip k =
     (let k = k\<lparr>exception_count := exception_count k + 1\<rparr>;
          k = kprint [S ([newline_char] @ ''[EXCEPTION] '')] k;
          k = (if vec < 32 then kprint [S (exception_names ! unat vec)] k else kprint [S ''Unknown Exception''] k);
          k = kprint [S '' (Vector '', H_of vec, Ln '')''] k;
          k = kprint [S ''  Error Code: '', X error_code, Ln ''''] k;
          k = kprint [S ''  RIP: '', X rip, Ln ''''] k
      in kprint [Ln ''[HALT] System halted due to exception''] k)"

definition step6_exception_common :: "u64 list \<Rightarrow> u64 list \<Rightarrow> 'a idt_state_scheme \<Rightarrow> 'a idt_state_scheme" where
  "step6_exception_common regs st k =
     (let st = rev regs @ st;
          rdi = st ! 15; rsi = st ! 16; rdx = st ! 17
      in step6_exception_handler rdi rsi rdx k)"

text \<open>\<open>42 / zero\<close>: the processor takes the gate of vector 0; \<open>regs\<close> and \<open>frame\<close> are the registers and
  the frame it pushes (RIP first).  Without a present gate to the stub it is a fault of its own.\<close>

definition divide_by_zero :: "layout \<Rightarrow> u64 list \<Rightarrow> u64 list \<Rightarrow> 'a idt_state_scheme \<Rightarrow> fault + 'a idt_state_scheme outcome" where
  "divide_by_zero ld regs frame k =
     (if bit (type_attr (idt k ! 0)) 7 \<and> gate_handler (idt k ! 0) = exception_stub_sym ld 0
      then Inr (Halts (step6_exception_common regs (exception_stub 0 frame) k)) else Inl DivideError)"

definition step6_exception_test :: "layout \<Rightarrow> u64 list \<Rightarrow> u64 list \<Rightarrow> 'a idt_state_scheme \<Rightarrow> fault + 'a idt_state_scheme outcome" where
  "step6_exception_test ld regs frame k =
     (let k = kprint [Ln '''', rule_line, Ln ''  IDT Exception Test'', rule_line, Ln '''', Ln ''[IDT TEST] Testing exception handling...'',
                Ln ''[IDT TEST] Triggering division by zero exception...'',
                Ln ''[IDT TEST] This should be caught by the IDT handler!'', Ln ''''] k
      in case divide_by_zero ld regs frame k of
           Inr (Returns k) \<Rightarrow> Inr (step_halt (kprint [Ln ''[ERROR] Exception was not caught! IDT failed!''] k))
         | r \<Rightarrow> r)"

definition step6_tables :: "layout \<Rightarrow> 'a idt_state_scheme \<Rightarrow> 'a idt_state_scheme" where
  "step6_tables ld k =
     (let k = kprint [Ln ''[IDT] Initializing Interrupt Descriptor Table...''] k;
          k = step6_idt_init ld k;
          k = kprint [Ln ''[IDT] IDT initialized with 32 exception handlers'', Ln ''[IDT] IDT loaded successfully!'', Ln ''''] k
      in step_tsc k)"

text \<open>After the processors have been started, both steps go on alike.\<close>

definition step6_rest :: "layout \<Rightarrow> env \<Rightarrow> u64 list \<Rightarrow> u64 list \<Rightarrow> 'a smp_scheme \<Rightarrow> fault + 'a smp_scheme outcome" where
  "step6_rest ld e regs frame k =
     (let k = kernel_report_cpus (aps_started e) k;
          k = kernel_run_tests k
      in case kernel_results e k of Inl f \<Rightarrow> Inl f | Inr k \<Rightarrow> step6_exception_test ld regs frame k)"

definition step6_run :: "layout \<Rightarrow> env \<Rightarrow> u64 list \<Rightarrow> u64 list \<Rightarrow> 'a smp_scheme \<Rightarrow> fault + 'a smp_scheme outcome" where
  "step6_run ld e regs frame k =
     (let k = step_banner ''  Step 6: IDT Setup'' k;
          k = step6_tables ld k
      in case step4_find_cpus k of Inl f \<Rightarrow> Inl f | Inr (Halts k) \<Rightarrow> Inr (step_halt k) | Inr (Returns k) \<Rightarrow>
         case step4_start_cpus ld k of Inl f \<Rightarrow> Inl f | Inr k \<Rightarrow> step6_rest ld e regs frame k)"

definition step6_main :: "layout \<Rightarrow> env \<Rightarrow> u64 list \<Rightarrow> u64 list \<Rightarrow> 'a smp_scheme \<Rightarrow> fault + 'a smp_scheme outcome" where
  "step6_main ld e regs frame = serial_only (step6_run ld e regs frame)"

definition step6_ap_entry :: "'a smp_scheme \<Rightarrow> u32 \<times> 'a smp_scheme" where
  "step6_ap_entry k =
     (let k = idt_load k;
          my_id = cpus_online k;
          k = k\<lparr>cpus_online := cpus_online k + 1\<rparr>
      in (my_id, cpu_do (Pauses 100000) k))"

definition step7_apic_init :: "'a apic_scheme \<Rightarrow> 'a apic_scheme" where
  "step7_apic_init k =
     (let k = kprint [Ln (newline_char # ''[APIC] Initializing Local APIC...'')] k;
          (eax, ebx, ecx, edx) = cpuid 1 k;
          x2apic_available = drop_bit 21 ecx AND 1;
          k = (if x2apic_available \<noteq> 0 then
                 let k = kprint [Ln ''[APIC] x2APIC supported - enabling x2APIC mode''] k;
                     apic_msr = rdmsr APIC_BASE_MSR k;
                     (apic_msr, k) =
                       (if apic_msr AND APIC_BASE_ENABLE = 0 then
                          let apic_msr = apic_msr OR APIC_BASE_ENABLE in (apic_msr, wrmsr APIC_BASE_MSR apic_msr k)
                        else (apic_msr, k));
                     apic_msr = apic_msr OR X2APIC_ENABLE;
                     k = wrmsr APIC_BASE_MSR apic_msr k;
                     k = k\<lparr>use_x2apic := True\<rparr>;
                     svr = ucast (rdmsr X2APIC_SVR k) :: u32;
                     k = wrmsr X2APIC_SVR (ucast (svr OR APIC_ENABLE)) k;
                     apic_id = ucast (rdmsr X2APIC_APICID k) :: u32
                 in kprint [Ln ''[APIC] x2APIC mode enabled (MSR-based)'', S ''[APIC] BSP APIC ID: '', D apic_id, Ln ''''] k
               else
                 let k = kprint [Ln ''[APIC] x2APIC not available - using xAPIC mode''] k;
                     apic_msr = rdmsr APIC_BASE_MSR k;
                     apic_phys_addr = apic_msr AND 0xFFFFF000;
                     k = kprint [Ln ''[APIC] Physical address: 0xFEE00000 (default)''] k;
                     k = k\<lparr>apic_base := apic_phys_addr\<rparr>;
                     k = (if apic_msr AND APIC_BASE_ENABLE = 0 then
                            let k = kprint [Ln ''[APIC] Enabling APIC in MSR...''] k
                            in wrmsr APIC_BASE_MSR (apic_msr OR APIC_BASE_ENABLE) k
                          else k);
                     (svr, k) = apic_read APIC_SVR_REG k;
                     k = kprint [Ln ''[APIC] Enabling APIC (SVR register)...''] k;
                     k = apic_write APIC_SVR_REG (svr OR APIC_ENABLE) k;
                     (id_reg, k) = apic_read APIC_ID_REG k;
                     apic_id = drop_bit 24 id_reg;
                     k = kprint [S ''[APIC] BSP APIC ID: '', D apic_id, Ln ''''] k
                 in k\<lparr>use_x2apic := False\<rparr>)
      in kprint [Ln ''[APIC] Local APIC initialized successfully!''] k)"

definition step7_start_cpus :: "layout \<Rightarrow> 'a smp_scheme \<Rightarrow> fault + 'a smp_scheme" where
  "step7_start_cpus ld k =
     (let k = step7_apic_init k;
          k = setup_trampoline ld k;
          k = kprint [Ln (newline_char # ''[SMP] Starting AP boot sequence...'')] k
      in boot_all_aps ld k)"

definition step7_run :: "layout \<Rightarrow> env \<Rightarrow> u64 list \<Rightarrow> u64 list \<Rightarrow> 'a smp_scheme \<Rightarrow> fault + 'a smp_scheme outcome" where
  "step7_run ld e regs frame k =
     (let k = step_banner ''  Step 7: x2APIC'' k;
          k = step6_tables ld k
      in case step4_find_cpus k of Inl f \<Rightarrow> Inl f | Inr (Halts k) \<Rightarrow> Inr (step_halt k) | Inr (Returns k) \<Rightarrow>
         case step7_start_cpus ld k of Inl f \<Rightarrow> Inl f | Inr k \<Rightarrow> step6_rest ld e regs frame k)"

definition step7_main :: "layout \<Rightarrow> env \<Rightarrow> u64 list \<Rightarrow> u64 list \<Rightarrow> 'a smp_scheme \<Rightarrow> fault + 'a smp_scheme outcome" where
  "step7_main ld e regs frame = serial_only (step7_run ld e regs frame)"

definition step7_ap_entry :: "'a smp_scheme \<Rightarrow> u32 \<times> 'a smp_scheme" where
  "step7_ap_entry k =
     (let k = idt_load k;
          k = (if use_x2apic k then
                 let apic_msr = rdmsr APIC_BASE_MSR k;
                     (apic_msr, k) =
                       (if apic_msr AND APIC_BASE_ENABLE = 0 then
                          let apic_msr = apic_msr OR APIC_BASE_ENABLE in (apic_msr, wrmsr APIC_BASE_MSR apic_msr k)
                        else (apic_msr, k));
                     apic_msr = apic_msr OR X2APIC_ENABLE;
                     k = wrmsr APIC_BASE_MSR apic_msr k;
                     svr = ucast (rdmsr X2APIC_SVR k) :: u32
                 in wrmsr X2APIC_SVR (ucast (svr OR APIC_ENABLE)) k
               else k);
          my_id = cpus_online k;
          k = k\<lparr>cpus_online := cpus_online k + 1\<rparr>
      in (my_id, cpu_do (Pauses 100000) k))"

section \<open>Step 8: the timer\<close>

definition step8_apic_init :: "'a apic_scheme \<Rightarrow> 'a apic_scheme" where
  "step8_apic_init k =
     (let k = kprint [Ln (newline_char # ''[APIC] Initializing Local APIC...'')] k;
          k = disable_pic k;
          (eax, ebx, ecx, edx) = cpuid 1 k;
          x2apic_available = drop_bit 21 ecx AND 1;
          k = (if x2apic_available \<noteq> 0 then
                 let k = kprint [Ln ''[APIC] x2APIC supported - enabling x2APIC mode''] k;
                     apic_msr = rdmsr APIC_BASE_MSR k;
                     (apic_msr, k) =
                       (if apic_msr AND APIC_BASE_ENABLE = 0 then
                          let apic_msr = apic_msr OR APIC_BASE_ENABLE in (apic_msr, wrmsr APIC_BASE_MSR apic_msr k)
                        else (apic_msr, k));
                     apic_msr = apic_msr OR X2APIC_ENABLE;
                     k = wrmsr APIC_BASE_MSR apic_msr k;
                     k = k\<lparr>use_x2apic := True\<rparr>;
                     k = wrmsr X2APIC_SVR (ucast (APIC_ENABLE OR SPURIOUS_VECTOR)) k;
                     apic_id = ucast (rdmsr X2APIC_APICID k) :: u32
                 in kprint [Ln ''[APIC] x2APIC mode enabled (MSR-based)'', S ''[APIC] BSP APIC ID: '', D apic_id, Ln ''''] k
               else
                 let k = kprint [Ln ''[APIC] x2APIC not available - using xAPIC mode''] k;
                     apic_msr = rdmsr APIC_BASE_MSR k;
                     apic_phys_addr = apic_msr AND 0xFFFFF000;
                     k = kprint [Ln ''[APIC] Physical address: 0xFEE00000 (default)''] k;
                     k = k\<lparr>apic_base := apic_phys_addr\<rparr>;
                     k = (if apic_msr AND APIC_BASE_ENABLE = 0 then
                            let k = kprint [Ln ''[APIC] Enabling APIC in MSR...''] k
                            in wrmsr APIC_BASE_MSR (apic_msr OR APIC_BASE_ENABLE) k
                          else k);
                     k = kprint [Ln ''[APIC] Enabling APIC (SVR register)...''] k;
                     k = apic_write APIC_SVR_REG (APIC_ENABLE OR SPURIOUS_VECTOR) k;
                     (id_reg, k) = apic_read APIC_ID_REG k;
                     apic_id = drop_bit 24 id_reg;
                     k = kprint [S ''[APIC] BSP APIC ID: '', D apic_id, Ln ''''] k
                 in k\<lparr>use_x2apic := False\<rparr>)
      in kprint [Ln ''[APIC] Local APIC initialized successfully!''] k)"

text \<open>\<open>tss_init\<close> is never called: the bytes of the segment at \<open>tss64\<close>, 104 of them, are cleared and the
  two last hold its size.\<close>

definition tss_init :: "u64 \<Rightarrow> 'a machine_scheme \<Rightarrow> 'a machine_scheme" where
  "tss_init tss64 k =
     (let k = k\<lparr>mem := for_up (0 :: u32) 104 (\<lambda>i m. m(tss64 + ucast i := 0)) (mem k)\<rparr>
      in k\<lparr>mem := (mem k)(tss64 + 102 := 104, tss64 + 103 := 0)\<rparr>)"

definition dump_idt_entry :: "u32 \<Rightarrow> 'a idt_state_scheme \<Rightarrow> 'a idt_state_scheme" where
  "dump_idt_entry vec k =
     (let g = idt k ! unat vec;
          k = kprint [S ''[IDT DEBUG] Vector '', D vec, Ln '':''] k;
          k = kprint [S ''  Offset Low:  '', H_of (offset_low g), Ln '''', S ''  Selector:    '', H_of (selector g), Ln ''''] k;
          k = kprint [S ''  Type/Attr:   '', H_of (type_attr g), Ln '''', S ''  Offset Mid:  '', H_of (offset_mid g), Ln ''''] k;
          k = kprint [S ''  Offset High: '', H (offset_high g), Ln ''''] k;
          full_offset = push_bit 32 (ucast (offset_high g)) OR push_bit 16 (ucast (offset_mid g)) OR ucast (offset_low g)
      in kprint [S ''  Full Handler: '', X full_offset, Ln ''''] k)"

record step8 = smp +
  ap_timer_debug :: "u32 list list"

definition debug_set :: "u32 \<Rightarrow> nat \<Rightarrow> u32 \<Rightarrow> 'a step8_scheme \<Rightarrow> 'a step8_scheme" where
  "debug_set my_id i v k =
     k\<lparr>ap_timer_debug := (ap_timer_debug k)[unat my_id := (ap_timer_debug k ! unat my_id)[i := v]]\<rparr>"

definition step8_ap_apic :: "u32 \<Rightarrow> 'a step8_scheme \<Rightarrow> 'a step8_scheme" where
  "step8_ap_apic my_id k =
     (if use_x2apic k then
        let apic_msr = rdmsr APIC_BASE_MSR k;
            (apic_msr, k) =
              (if apic_msr AND APIC_BASE_ENABLE = 0 then
                 let apic_msr = apic_msr OR APIC_BASE_ENABLE in (apic_msr, wrmsr APIC_BASE_MSR apic_msr k)
               else (apic_msr, k));
            apic_msr = apic_msr OR X2APIC_ENABLE;
            k = wrmsr APIC_BASE_MSR apic_msr k;
            k = wrmsr X2APIC_SVR (ucast (APIC_ENABLE OR SPURIOUS_VECTOR)) k
        in debug_set my_id 6 (ucast (rdmsr X2APIC_SVR k)) k
      else
        let apic_msr = rdmsr APIC_BASE_MSR k;
            k = (if apic_msr AND APIC_BASE_ENABLE = 0 then wrmsr APIC_BASE_MSR (apic_msr OR APIC_BASE_ENABLE) k else k);
            k = apic_write APIC_SVR_REG (APIC_ENABLE OR SPURIOUS_VECTOR) k;
            (svr, k) = apic_read APIC_SVR_REG k
        in debug_set my_id 6 svr k)"

text \<open>Up to the tests.  The first thing done with the number is to index the debug table.\<close>

definition step8_ap_entry :: "'a step8_scheme \<Rightarrow> fault + u32 \<times> 'a step8_scheme" where
  "step8_ap_entry k =
     (let my_id = cpus_online k;
          k = k\<lparr>cpus_online := cpus_online k + 1\<rparr>
      in if length (ap_timer_debug k) \<le> unat my_id then Inl OutOfBounds
         else
           let k = debug_set my_id 0 1 k;
               k = idt_load k;
               k = debug_set my_id 1 1 k;
               k = step8_ap_apic my_id k;
               k = debug_set my_id 2 1 k;
               k = cpu_do (Pauses 100000) k;
               k = cpu_do Sti k;
               k = debug_set my_id 3 1 k;
               k = debug_set my_id 4 0 k;
               k = debug_set my_id 5 0 k;
               (lvt, k) = (if use_x2apic k then (ucast (rdmsr X2APIC_LVT_TIMER k), k) else apic_read APIC_TIMER_LVT k)
           in Inr (my_id, debug_set my_id 7 lvt k))"

definition step8_tables :: "layout \<Rightarrow> 'a idt_state_scheme \<Rightarrow> 'a idt_state_scheme" where
  "step8_tables ld k =
     (let k = kprint [Ln ''[IDT] Initializing Interrupt Descriptor Table...''] k;
          k = idt_init ld k;
          k = kprint [Ln ''[IDT] IDT initialized with 32 exception handlers'', Ln ''[IDT] IDT loaded successfully!'', Ln ''''] k
      in step_tsc k)"

definition step8_start_cpus :: "layout \<Rightarrow> 'a smp_scheme \<Rightarrow> fault + 'a smp_scheme" where
  "step8_start_cpus ld k =
     (let k = step8_apic_init k;
          k = setup_trampoline ld k;
          k = kprint [Ln (newline_char # ''[SMP] Starting AP boot sequence...'')] k
      in boot_all_aps ld k)"

definition step8_start_timer :: "'a smp_scheme \<Rightarrow> 'a smp_scheme" where
  "step8_start_timer k =
     (let k = kprint [Ln (newline_char # ''[TIMER] Enabling interrupts and starting APIC Timer...'')] k;
          k = cpu_do Sti k;
          k = apic_timer_init k;
          k = kprint [Ln ''[DEBUG] BSP Timer Init:'', S ''  LVT before:  '', H (timer_init_debug k ! 0), Ln '''',
                S ''  LVT after:   '', H (timer_init_debug k ! 1), Ln '''', S ''  DCR:         '', H (timer_init_debug k ! 2), Ln '''',
                S ''  ICR:         '', H (timer_init_debug k ! 3), Ln ''''] k;
          (bsp_lvt, k) = (if use_x2apic k then (ucast (rdmsr X2APIC_LVT_TIMER k), k) else apic_read APIC_TIMER_LVT k);
          k = kprint [S ''  LVT current: '', H bsp_lvt, Ln '''', Ln ''[TIMER] BSP timer started successfully!''] k
      in kprint [Ln '''', Ln ''[NOTE] AP timers are NOT started in this minimal kernel'',
           Ln ''[NOTE] Reason: xAPIC MMIO (0xFEE00000) access from APs causes triple fault'',
           Ln ''[NOTE] This is a known limitation - only BSP timer is functional'',
           Ln ''[NOTE] For production OS, would need proper APIC MMIO mapping in page tables''] k)"

definition step8_done :: "'a smp_scheme \<Rightarrow> 'a smp_scheme outcome" where
  "step8_done k =
     (let k = kprint [Ln '''', rule_line, Ln ''  Step 8 Complete!'', rule_line, Ln ''''] k;
          k = kprint [Ln ''[SUCCESS] APIC Timer is working on BSP'', Ln ''[SUCCESS] All 4 CPUs are running in parallel'',
                Ln ''[SUCCESS] Interrupts (sti) are enabled'', Ln ''[SUCCESS] IDT is configured with 256 entries'',
                Ln ''[SUCCESS] Legacy PIC (8259) is disabled'', Ln ''''] k;
          k = kprint [Ln ''[INFO] Step 8 demonstrates:'', Ln ''  - APIC Timer in periodic mode'',
                Ln ''  - Hardware interrupt handling (IRQ)'', Ln ''  - EOI (End of Interrupt) acknowledgment'',
                Ln ''  - Per-CPU tick counters'', Ln ''  - SMP-safe interrupt handling'', Ln ''''] k
      in Halts (kprint [Ln ''System halted successfully.''] k))"

definition step8_run :: "layout \<Rightarrow> env \<Rightarrow> 'a smp_scheme \<Rightarrow> fault + 'a smp_scheme outcome" where
  "step8_run ld e k =
     (let k = step_banner ''  Step 8: APIC Timer'' k;
          k = step8_tables ld k
      in case kernel_find_cpus k of Inl f \<Rightarrow> Inl f | Inr (Halts k) \<Rightarrow> Inr (Halts k) | Inr (Returns k) \<Rightarrow>
         case step8_start_cpus ld k of Inl f \<Rightarrow> Inl f | Inr k \<Rightarrow>
         let k = kernel_report_cpus (aps_started e) k;
             k = step8_start_timer k;
             k = kernel_run_tests k in
         case kernel_results e k of Inl f \<Rightarrow> Inl f | Inr k \<Rightarrow>
         case kernel_timer_report e k of Inl f \<Rightarrow> Inl f | Inr k \<Rightarrow>
         Inr (step8_done k))"

definition step8_main :: "layout \<Rightarrow> env \<Rightarrow> 'a smp_scheme \<Rightarrow> fault + 'a smp_scheme outcome" where
  "step8_main ld e = serial_only (step8_run ld e)"

section \<open>The interrupt command register\<close>

lemma old_read_is: "\<not> use_x2apic k \<Longrightarrow> apic_read reg k = old_apic_read reg k"
  by (simp add: apic_read_def old_apic_read_def)

lemma old_write_is: "\<not> use_x2apic k \<Longrightarrow> apic_write reg v k = old_apic_write reg v k"
  by (simp add: apic_write_def old_apic_write_def)

lemma step4_wait_is: "\<not> use_x2apic k \<Longrightarrow> step4_wait_loop n k = wait_icr_loop n k"
proof (induction n arbitrary: k)
  case (Suc n)
  obtain v t where r: "old_apic_read APIC_ICR_LOW k = (v, t)"
    by (cases "old_apic_read APIC_ICR_LOW k")
  then have "use_x2apic t = use_x2apic k"
    using apic_sameD(1) [OF apic_read_same [of k APIC_ICR_LOW]] Suc.prems by (simp add: old_read_is)
  then show ?case
    using Suc r by (simp add: old_read_is cpu_do_def)
qed (simp add: old_read_is)

text \<open>Steps 4 to 6 know the memory mapped registers only; while the x2APIC flag is off the later
  \<open>send_ipi\<close> and its wait do exactly what theirs do.\<close>

theorem step4_ipi_same:
  assumes "\<not> use_x2apic k"
  shows "step4_send_ipi apic_id flags k = send_ipi apic_id flags k \<and> step4_wait_icr k = apic_wait_icr k"
proof -
  have w: "step4_wait_icr k = apic_wait_icr k" if "\<not> use_x2apic k" for k :: "'a apic_scheme"
    using that by (simp add: step4_wait_icr_def apic_wait_icr_def step4_wait_is)
  have x: "use_x2apic (apic_wait_icr k) = use_x2apic k" "use_x2apic (apic_write r v k) = use_x2apic k" for r v and k :: "'a apic_scheme"
    by (simp_all add: wait_icr apic_sameD(1) [OF apic_write_same])
  have nx: "\<not> use_x2apic (apic_write r v (apic_wait_icr k))" "\<not> use_x2apic (apic_write r v (apic_write s u (apic_wait_icr k)))" for r v s u
    using assms by (simp_all add: x)
  show ?thesis
    using assms by (simp add: step4_send_ipi_def send_ipi_def Let_def w x flip: old_write_is)
qed

section \<open>The tables\<close>

lemma clear_loop:
  assumes "n \<le> 256" "length (idt k) = 256"
  shows "fold (\<lambda>i. clear_gate i) [0..<n] k = k\<lparr>idt := map (\<lambda>v. if v < n then make_gate 0 0 0 else idt k ! v) [0..<256]\<rparr>"
  using assms
proof (induction n)
  case 0
  have "map (\<lambda>v. idt k ! v) [0..<256] = idt k"
    using 0(2) map_nth [of "idt k"] by simp
  then show ?case by simp
next
  case (Suc n)
  then show ?case
    by (simp add: clear_gate_def map_upto_update make_gate_def)
qed

definition step6_gate :: "layout \<Rightarrow> nat \<Rightarrow> idt_entry" where
  "step6_gate ld v = (if v < 32 then make_gate (exception_stub_sym ld v) 8 0x8E else make_gate 0 0 0)"

lemma step6_idt_eq:
  assumes "length (idt k) = 256"
  shows "step6_idt_init ld k = cpu_do (Lidt 4095 (idt_sym ld))
    (k\<lparr>idt := map (step6_gate ld) [0..<256], idtr_limit := 4095, idtr_base := idt_sym ld\<rparr>)"
proof -
  have "for_up (0 :: u32) 256 (\<lambda>i. clear_gate (unat i)) k = fold clear_gate [0..<256] k"
  proof -
    have "fold (\<lambda>v. clear_gate (unat (of_nat v :: u32))) [0..<256] k = fold clear_gate [0..<256] k"
      by (rule fold_cong) (simp_all add: unsigned_of_nat take_bit_nat_eq_self)
    then show ?thesis
      by (simp add: for_up_fold)
  qed
  also have "\<dots> = k\<lparr>idt := map (\<lambda>v. make_gate 0 0 0) [0..<256]\<rparr>"
    using clear_loop [of 256 k] assms by (simp cong: map_cong)
  finally have k1: "for_up (0 :: u32) 256 (\<lambda>i. clear_gate (unat i)) k = k\<lparr>idt := map (\<lambda>v. make_gate 0 0 0) [0..<256]\<rparr>" .
  have "for_up (0 :: u32) 32 (\<lambda>i. idt_set_gate (ucast i) (exception_stub_sym ld (unat i)) 8 0x8E) (k\<lparr>idt := map (\<lambda>v. make_gate 0 0 0) [0..<256]\<rparr>)
      = k\<lparr>idt := map (step6_gate ld) [0..<256]\<rparr>"
    using gates_loop [of 32 "k\<lparr>idt := map (\<lambda>v. make_gate 0 0 0) [0..<256]\<rparr>" "exception_stub_sym ld"]
    by (auto simp: step6_gate_def intro!: nth_equalityI)
  then show ?thesis
    unfolding step6_idt_init_def Let_def idt_load_def k1 by (simp add: cpu_do_def)
qed

text \<open>The table of steps 6 and 7: vectors 0 to 31 lead to their stubs through present gates, and no
  other vector has a present gate, so that every interrupt from a device would be a protection fault;
  the table of step 8 and after has a present gate for each of them.\<close>

theorem step6_table_traps:
  assumes "length (idt k) = 256"
  shows "let k' = step6_idt_init ld k in
      (\<forall>v<256. bit (type_attr (idt k' ! v)) 7 = (v < 32)) \<and> (\<forall>v<32. gate_handler (idt k' ! v) = exception_stub_sym ld v)
      \<and> (\<forall>v<256. bit (type_attr (idt (idt_init ld k) ! v)) 7)
      \<and> cpu_log k' = cpu_log k @ [Lidt 4095 (idt_sym ld)] \<and> con k' = con k \<and> mem k' = mem k"
  unfolding step6_idt_eq [OF assms] idt_init_eq [OF assms] Let_def
  by (simp add: cpu_do_def step6_gate_def) (simp add: make_gate_def)

text \<open>The dump of a gate shows the address that \<open>idt_set_gate\<close> was given, put together again from its
  three parts.\<close>

theorem dump_shows_handler:
  assumes "unat vec < length (idt k)" "unat num = unat vec"
  shows "\<exists>ms. dump_idt_entry vec (idt_set_gate num handler sel flags k)
    = kprint (ms @ [S ''  Full Handler: '', X handler, Ln '''']) (idt_set_gate num handler sel flags k)"
proof -
  let ?g = "make_gate handler sel flags"
  have "push_bit 32 (ucast (offset_high ?g)) OR push_bit 16 (ucast (offset_mid ?g)) OR ucast (offset_low ?g) = handler"
    using gate_handler_make [of handler sel flags] by (simp add: gate_handler_def or.commute or.left_commute)
  moreover have "idt (idt_set_gate num handler sel flags k) ! unat vec = ?g"
    using assms by (simp add: set_gate_eq)
  ultimately show ?thesis
    unfolding dump_idt_entry_def Let_def kprint_kprint
    by (intro exI [of _ "[S ''[IDT DEBUG] Vector '', D vec, Ln '':'', S ''  Offset Low:  '', H_of (offset_low ?g), Ln '''',
      S ''  Selector:    '', H_of (selector ?g), Ln '''', S ''  Type/Attr:   '', H_of (type_attr ?g), Ln '''', S ''  Offset Mid:  '',
      H_of (offset_mid ?g), Ln '''', S ''  Offset High: '', H (offset_high ?g), Ln '''']"]) simp
qed

section \<open>How the kernels end\<close>

text \<open>A kernel that halts after some text has sent that text on the line and left the screen alone.\<close>

lemma serial_only_text:
  assumes "f k = Inr (Halts t)" "con t = say ms c"
  shows "\<exists>k' c'. serial_only f k = Inr (Halts k') \<and> con k' = line_say ms c' \<and> screen (con k') = screen (con k)"
proof -
  have "line_say ms (c\<lparr>screen := screen (con k)\<rparr>) = (say ms c)\<lparr>screen := screen (con k)\<rparr>"
    using line_say_is [of ms "c\<lparr>screen := screen (con k)\<rparr>" "screen c"] by simp
  then show ?thesis
    using assms by (simp add: serial_only_def screen_back_def) metis
qed

lemma step_inits_more:
  "apic.more (step_apic_init label k) = apic.more k" "apic.more (step7_apic_init k) = apic.more k"
  "apic.more (step8_apic_init k) = apic.more k"
proof -
  have w: "apic.more (apic_write r v k) = apic.more k" "apic.more (snd (apic_read r k)) = apic.more k" for r v and k :: "'b apic_scheme"
    by (simp_all add: apic_write_same [THEN apic_sameD(8)] apic_read_same [THEN apic_sameD(8)])
  have o: "apic.more (old_apic_write r v k) = apic.more k" "apic.more (snd (old_apic_read r k)) = apic.more k" for r v and k :: "'b apic_scheme"
    by (simp_all add: old_apic_write_def old_apic_read_def mmio_write_def mmio_read_def Let_def cpu_do_def)
  have d: "apic.more (disable_pic k) = apic.more k" for k :: "'b apic_scheme"
    by (simp add: disable_pic_def Let_def)
  have l: "apic.more (line_print ms k) = apic.more k" for ms and k :: "'b apic_scheme"
    by (simp add: line_print_def)
  show "apic.more (step_apic_init label k) = apic.more k"
    by (simp add: step_apic_init_def Let_def case_prod_unfold o l)
  show "apic.more (step7_apic_init k) = apic.more k"
    by (simp add: step7_apic_init_def Let_def case_prod_unfold w)
  show "apic.more (step8_apic_init k) = apic.more k"
    by (simp add: step8_apic_init_def Let_def case_prod_unfold w d)
qed

lemma start_after:
  fixes k k0 :: "'a smp_scheme"
  assumes "apic.more k0 = apic.more k" and n: "cpu_count k = of_nat n" "1 \<le> n" "n \<le> 16"
  shows "\<exists>k'. boot_all_aps ld (kprint ms (setup_trampoline ld k0)) = Inr k' \<and> cpu_count k' = of_nat n \<and> cpus_online k' = 1 \<and> idt k' = idt k"
proof -
  let ?k2 = "kprint ms (setup_trampoline ld k0)"
  have m: "apic.more ?k2 = apic.more k"
    using assms(1) by (simp add: setup_trampoline_more)
  then have "cpu_count ?k2 = of_nat n"
    using smp_more_fields(1) n(1) by metis
  then obtain k' where "boot_all_aps ld ?k2 = Inr k'" "apic.more k' = apic.more (?k2\<lparr>cpus_online := 1\<rparr>)"
    using boot_all_effect [of ?k2 n ld] n by blast
  moreover from this(2) m have "cpu_count k' = cpu_count k \<and> cpus_online k' = 1 \<and> idt k' = idt k"
    by (cases k', cases ?k2, cases k) simp
  ultimately show ?thesis
    using n(1) by metis
qed

text \<open>The report of step 4: it says that all processors have been started exactly when \<open>started\<close>
  others have been counted by then, and otherwise warns; then it halts.\<close>

theorem step4_reports_started:
  assumes "step4_find_cpus (step_tsc (step_banner ''  Step 4: Boot APs (INIT-SIPI-SIPI)'' k)) = Inr (Returns k2)"
    and "cpu_count k2 = of_nat n" "1 \<le> n" "n \<le> 16" "started < n"
  shows "\<exists>k' c. step4_main ld (of_nat started) k = Inr (Halts k')
    \<and> con k' = line_say ((if started + 1 = n
        then [Ln (newline_char # ''[SUCCESS] All CPUs booted successfully!''), Ln ''[SUCCESS] Step 4 complete!'']
        else [Ln (newline_char # ''[WARNING] Not all CPUs came online''), Ln ''[INFO] This may be normal in some environments''])
      @ [Ln (newline_char # ''System halted.'')]) c"
proof -
  obtain k3 where k3: "step4_start_cpus ld k2 = Inr k3" "cpu_count k3 = of_nat n" "cpus_online k3 = 1"
    using start_after [OF step_inits_more(1) assms(2-4)] unfolding step4_start_cpus_def Let_def by blast
  have "(1 + of_nat started :: u32) = of_nat n \<longleftrightarrow> started + 1 = n"
  proof -
    have "unat (of_nat (started + 1) :: u32) = started + 1" "unat (of_nat n :: u32) = n"
      using assms(4,5) by (intro unat_of_nat_lt; simp)+
    then have "(of_nat (started + 1) :: u32) = of_nat n \<longleftrightarrow> started + 1 = n"
      by metis
    then show ?thesis
      by simp
  qed
  note eq = this
  let ?m = "if started + 1 = n
        then [Ln (newline_char # ''[SUCCESS] All CPUs booted successfully!''), Ln ''[SUCCESS] Step 4 complete!'']
        else [Ln (newline_char # ''[WARNING] Not all CPUs came online''), Ln ''[INFO] This may be normal in some environments'']"
  let ?h = "[Ln (newline_char # ''System halted.'')]"
  define t where "t = kprint [Ln (newline_char # ''[SMP] Application Processors booted''), S ''[SMP] CPUs online: '', D (1 + of_nat started),
    S '' / '', D (of_nat n), Ln ''''] (k3\<lparr>cpus_online := 1 + of_nat started\<rparr>)"
  have "step4_report (of_nat started) k3 = kprint ?m t"
    using eq k3(2,3) by (simp add: step4_report_def Let_def t_def kprint_def)
  then have "step4_run ld (of_nat started) k = Inr (Halts (kprint (?m @ ?h) t))"
    using assms(1) k3(1) by (simp only: step4_run_def Let_def step_halt_def sum.case outcome.case kprint_kprint)
  from serial_only_text [of "step4_run ld (of_nat started)", OF this, of "?m @ ?h" "con t"] show ?thesis
    unfolding step4_main_def con_kprint by blast
qed

lemma madt_entry_idt: "idt (snd (madt_entry p count k)) = idt k"
  by (simp add: madt_entry_def Let_def kprint_def)

lemma madt_loop_idt: "madt_loop p end_ptr count k = Some r \<Longrightarrow> idt (snd r) = idt k"
proof (induction rule: madt_loop.raw_induct [rotated 1, consumes 1])
  case (1 loop p end_ptr count k r)
  show ?case
  proof (cases "p < end_ptr")
    case True
    obtain c k1 where e: "madt_entry p count k = (c, k1)" by fastforce
    then have "loop (p + ucast (mem k (p + 1))) end_ptr c k1 = Some r"
      using "1"(2) True by (simp add: Let_def)
    then show ?thesis
      using "1"(1) madt_entry_idt [of p count k] e by simp
  next
    case False
    then show ?thesis
      using "1"(2) by auto
  qed
qed

lemma find_cpus_idt: "step4_find_cpus k = Inr (Returns t) \<Longrightarrow> idt t = idt k"
  by (auto simp: step4_find_cpus_def Let_def acpi_parse_madt_def kprint_def split: if_splits option.splits dest!: madt_loop_idt)

lemma report_tests_idt: "idt (kernel_run_tests (kernel_report_cpus m k)) = idt k"
  "cpu_count (kernel_run_tests (kernel_report_cpus m k)) = cpu_count k"
  by (simp_all add: kernel_run_tests_def kernel_report_cpus_def Let_def cpu_do_def kprint_def)

lemma tables_idt:
  assumes "length (idt k) = 256"
  shows "idt (step6_tables ld (step_banner title k)) = map (step6_gate ld) [0..<256]"
proof -
  have "length (idt (kprint ms (step_banner title k))) = 256" for ms
    using assms by (simp add: step_banner_def line_print_def kprint_def Let_def)
  then show ?thesis
    by (simp add: step6_tables_def Let_def step6_idt_eq step_tsc_def calibrate_tsc_def cpu_do_def kprint_def)
qed

definition exception_text :: "u64 \<Rightarrow> msg list" where
  "exception_text rip = [S (newline_char # ''[EXCEPTION] ''), S ''Division By Zero'', S '' (Vector '', H 0, Ln '')'',
     S ''  Error Code: '', X 0, Ln '''', S ''  RIP: '', X rip, Ln '''', Ln ''[HALT] System halted due to exception'']"

lemma divide_reports:
  assumes "idt k = map (step6_gate ld) [0..<256]" "length regs = 15"
  shows "\<exists>pre. step6_exception_test ld regs (rip # frame) k
    = Inr (Halts (kprint (pre @ exception_text rip) (k\<lparr>exception_count := exception_count k + 1\<rparr>)))"
proof -
  let ?pre = "[Ln '''', rule_line, Ln ''  IDT Exception Test'', rule_line, Ln '''', Ln ''[IDT TEST] Testing exception handling...'',
                Ln ''[IDT TEST] Triggering division by zero exception...'',
                Ln ''[IDT TEST] This should be caught by the IDT handler!'', Ln '''']"
  have g: "idt k ! 0 = make_gate (exception_stub_sym ld 0) 8 0x8E"
    using assms(1) by (simp add: step6_gate_def)
  then have "bit (type_attr (idt k ! 0)) 7"
    by (simp add: make_gate_def)
  moreover have "exception_stub 0 (rip # frame) = 0 # 0 # rip # frame"
    by (simp add: exception_stub_def EXCEPTION_STUB_NOERR_def)
  moreover have "(rev regs @ 0 # 0 # rip # frame) ! 15 = 0" "(rev regs @ 0 # 0 # rip # frame) ! 16 = 0"
    "(rev regs @ 0 # 0 # rip # frame) ! 17 = rip"
    using assms(2) by (simp_all add: nth_append)
  ultimately have "step6_exception_test ld regs (rip # frame) k
    = Inr (Halts (kprint (?pre @ exception_text rip) (k\<lparr>exception_count := exception_count k + 1\<rparr>)))"
    by (simp add: step6_exception_test_def divide_by_zero_def g step6_exception_common_def step6_exception_handler_def Let_def
        exception_text_def exception_names_def kprint_def)
  then show ?thesis by blast
qed

lemma rest_reports:
  assumes "idt k = map (step6_gate ld) [0..<256]" "length regs = 15" and n: "cpu_count k = of_nat n" "n \<le> 16" "env_sizes e"
  shows "\<exists>t c pre. step6_rest ld e regs (rip # frame) k = Inr (Halts t)
    \<and> con t = say (text_1 e n @ text_2 e n @ text_3 e n @ verdict_text (all_good e n) @ pre @ exception_text rip) c"
proof -
  let ?k = "kernel_run_tests (kernel_report_cpus (aps_started e) k)"
  let ?r = "text_1 e n @ text_2 e n @ text_3 e n @ verdict_text (all_good e n)"
  have r: "kernel_results e ?k = Inr (kprint ?r ?k)"
    using n by (intro results_text) (simp_all add: report_tests_idt)
  have "idt (kprint ?r ?k) = map (step6_gate ld) [0..<256]"
    using assms(1) report_tests_idt(1) [of "aps_started e" k] by (simp add: kprint_def)
  from divide_reports [OF this assms(2), of rip frame]
  obtain pre where d: "step6_exception_test ld regs (rip # frame) (kprint ?r ?k)
      = Inr (Halts (kprint (pre @ exception_text rip) ((kprint ?r ?k)\<lparr>exception_count := exception_count (kprint ?r ?k) + 1\<rparr>)))"
    by blast
  let ?t = "kprint (pre @ exception_text rip) ((kprint ?r ?k)\<lparr>exception_count := exception_count (kprint ?r ?k) + 1\<rparr>)"
  have "con ?t = say (?r @ pre @ exception_text rip) (con ?k)"
    by (simp add: kprint_def)
  moreover have "step6_rest ld e regs (rip # frame) k = Inr (Halts ?t)"
    using r d by (simp add: step6_rest_def Let_def)
  ultimately show ?thesis
    by (metis append.assoc)
qed



section \<open>Witnesses\<close>

theorem step4_ipi_same_witness: "step4_send_ipi 5 0x4500 (main_demo one_cpu_mem) = send_ipi 5 0x4500 (main_demo one_cpu_mem)"
proof -
  have "\<not> use_x2apic (main_demo one_cpu_mem)"
    using smp_demo_sel(2) [of 0] by (simp add: main_demo_def)
  then show ?thesis
    using step4_ipi_same by blast
qed

lemma demo_idt_length: "length (idt (main_demo m)) = 256"
  by (simp add: main_demo_def smp_demo_def acpi.defs smp.defs madt_demo_def idt_state.defs idt_demo_def apic.defs)

theorem step6_table_traps_witness:
  "\<not> bit (type_attr (idt (step6_idt_init small_layout (main_demo one_cpu_mem)) ! 33)) 7"
  using step6_table_traps [OF demo_idt_length, of small_layout] by (simp add: Let_def)

theorem dump_shows_handler_witness:
  "\<exists>ms. dump_idt_entry 14 (idt_set_gate 14 0x123456789ABC 8 0x8E (main_demo one_cpu_mem))
    = kprint (ms @ [S ''  Full Handler: '', X 0x123456789ABC, Ln '''']) (idt_set_gate 14 0x123456789ABC 8 0x8E (main_demo one_cpu_mem))"
  using dump_shows_handler [of 14 "main_demo one_cpu_mem" 14] by (simp add: demo_idt_length)

lemma demo_found:
  assumes same: "\<And>x. unat x < 0x100000 \<Longrightarrow> mem k x = one_cpu_mem x" and len: "length (cpu_apic_ids k) = 16"
  obtains k2 where "step4_find_cpus k = Inr (Returns k2)" "cpu_count k2 = of_nat 1"
proof -
  note a = one_cpu_acpi [OF same]
  let ?k = "kprint [Ln ''[ACPI] MADT found!'', Ln ''[ACPI] Parsing MADT entries...'']
    (kprint [Ln ''[ACPI] RSDP found!'', Ln ''[ACPI] Searching for MADT...'']
      (kprint [Ln (newline_char # ''[ACPI] Searching for RSDP...'')] k))"
  have len': "length (cpu_apic_ids ?k) = 16"
    using len by (simp add: kprint_def)
  obtain k2 where "acpi_parse_madt 0x7000 ?k = Some (1, k2)"
    using madt_loop_list [OF a(4) _ len', of 0] a(3,5) by (auto simp: acpi_parse_madt_def Let_def)
  then show thesis
    using that [of "kprint [S (newline_char # ''[ACPI] Detected ''), D 1, Ln '' CPU(s)''] (k2\<lparr>cpu_count := 1\<rparr>)"] a(1,2)
    by (simp add: step4_find_cpus_def Let_def)
qed

lemma tsc_frame: "mem (step_tsc k) = mem k" "cpu.more (step_tsc k) = cpu.more k"
  by (simp_all add: step_tsc_def Let_def calibrate_tsc_def kprint_def)

lemma banner_frame: "mem (step_banner title k) = mem k" "machine.more (step_banner title k) = machine.more k"
  by (simp_all add: step_banner_def Let_def line_print_def)

lemma demo_ids:
  fixes k :: "'a acpi_scheme"
  shows "cpu_apic_ids (step_tsc (step_banner title k)) = cpu_apic_ids k"
proof -
  have "cpu.more (step_tsc (step_banner title k)) = cpu.more (step_banner title k)"
    by (rule tsc_frame)
  then have "cpu_apic_ids (step_tsc (step_banner title k)) = cpu_apic_ids (step_banner title k)"
    by (cases "step_tsc (step_banner title k)", cases "step_banner title k") simp
  then show ?thesis
    using banner_frame(2) [of title k] by (cases "step_banner title k", cases k) simp
qed

theorem step4_reports_started_witness:
  "\<exists>k'. step4_main small_layout 0 (main_demo one_cpu_mem) = Inr (Halts k')"
proof -
  let ?k = "step_tsc (step_banner ''  Step 4: Boot APs (INIT-SIPI-SIPI)'' (main_demo one_cpu_mem))"
  obtain k2 where "step4_find_cpus ?k = Inr (Returns k2)" "cpu_count k2 = of_nat 1"
    using demo_found [of ?k] by (auto simp: demo_ids tsc_frame banner_frame main_demo_sel)
  from step4_reports_started [OF this, of 0 small_layout] show ?thesis
    by auto
qed

lemma demo_tables:
  fixes k :: "'a acpi_scheme"
  assumes "length (idt k) = 256"
  shows "mem (step6_tables ld (step_banner title k)) = mem k" "cpu_apic_ids (step6_tables ld (step_banner title k)) = cpu_apic_ids k"
    "mem (step8_tables ld (step_banner title k)) = mem k" "cpu_apic_ids (step8_tables ld (step_banner title k)) = cpu_apic_ids k"
proof -
  have len: "length (idt (kprint ms (step_banner title k))) = 256" for ms
    using assms by (simp add: step_banner_def line_print_def kprint_def Let_def)
  have b: "cpu_apic_ids (step_banner title k) = cpu_apic_ids k"
    using banner_frame(2) [of title k] by (cases "step_banner title k", cases k) simp
  have t: "cpu_apic_ids (step_tsc k) = cpu_apic_ids k" for k :: "'a acpi_scheme"
    using tsc_frame(2) [of k] by (cases "step_tsc k", cases k) simp
  show "mem (step6_tables ld (step_banner title k)) = mem k" "cpu_apic_ids (step6_tables ld (step_banner title k)) = cpu_apic_ids k"
    "mem (step8_tables ld (step_banner title k)) = mem k" "cpu_apic_ids (step8_tables ld (step_banner title k)) = cpu_apic_ids k"
    by (simp_all add: step6_tables_def step8_tables_def Let_def step6_idt_eq [OF len] idt_init_eq [OF len] t tsc_frame banner_frame b cpu_do_def)
      (simp_all add: kprint_def b)
qed

lemma demo_env: "env_sizes (env_of tests_init)"
  by (simp add: env_of_def env_sizes_def tests_init_def barrier.defs par.defs)



end
