(* ===== verification/Kernel_Types.thy ===== *)
theory Kernel_Types
  imports Kernel_Main
begin

text \<open>
  The static arrays of \<^verbatim>\<open>c/kernel/minimal_step9.c\<close> keep their lengths, \<open>cpu_apic_ids[16]\<close>,
  \<open>idt[256]\<close>, \<open>timer_ticks[16]\<close> and \<open>timer_init_debug[4]\<close>, and the interrupt table, once loaded, keeps
  its contents.  This is the type invariant of the kernel's state: \<open>shape\<close> is what an operation has to
  leave alone, one lemma for each operation that could change it, and the whole of \<open>kernel_main\<close> and the
  timer interrupt follow from these.
\<close>

definition shape :: "'a smp_scheme \<Rightarrow> (nat \<times> nat \<times> nat) \<times> idt_entry list \<times> u16 \<times> u64" where
  "shape k = ((length (cpu_apic_ids k), length (timer_ticks k), length (timer_init_debug k)), idt k, idtr_limit k, idtr_base k)"

definition arrays_ok :: "'a smp_scheme \<Rightarrow> bool" where
  "arrays_ok k \<longleftrightarrow> length (cpu_apic_ids k) = 16 \<and> length (idt k) = 256 \<and> length (timer_ticks k) = 16
     \<and> length (timer_init_debug k) = 4"

text \<open>The table that \<open>idt_init\<close> builds, and the register that points to it.\<close>

definition table_loaded :: "layout \<Rightarrow> 'a smp_scheme \<Rightarrow> bool" where
  "table_loaded ld k \<longleftrightarrow> idt k = map (\<lambda>v. make_gate (vector_handler ld v) 8 0x8E) [0..<256]
     \<and> idtr_limit k = 4095 \<and> idtr_base k = idt_sym ld"

lemma shape_ok: "shape t = shape k \<Longrightarrow> arrays_ok t = arrays_ok k \<and> table_loaded ld t = table_loaded ld k"
  by (simp add: shape_def arrays_ok_def table_loaded_def)

named_theorems shape

section \<open>Operations\<close>

lemma shape_kprint [shape]: "shape (kprint ms k) = shape k"
  by (simp add: shape_def kprint_def)

lemma shape_cpu_do [shape]: "shape (cpu_do io k) = shape k"
  by (simp add: shape_def cpu_do_def)

lemma shape_fields [shape]: "shape (k\<lparr>cpus_online := c\<rparr>) = shape k" "shape (k\<lparr>cpu_count := n\<rparr>) = shape k"
  "shape (k\<lparr>mem := m\<rparr>) = shape k"
  by (simp_all add: shape_def)

lemma shape_apic:
  assumes "apic.more t = apic.more k" "length (timer_init_debug t) = length (timer_init_debug k)"
  shows "shape t = shape k"
  using assms by (cases k, cases t) (simp add: shape_def)

lemma debug_writes [simp]:
  "timer_init_debug (apic_write r v k) = timer_init_debug k" "timer_init_debug (wrmsr m w k) = timer_init_debug k"
  "timer_init_debug (disable_pic k) = timer_init_debug k"
  by (simp_all add: apic_write_def mmio_write_def wrmsr_def cpu_do_def Let_def disable_pic_def kprint_def)

lemma debug_wait [simp]: "timer_init_debug (apic_wait_icr k) = timer_init_debug k"
  by (simp add: wait_icr)

lemma debug_send [simp]: "timer_init_debug (send_ipi a f k) = timer_init_debug k"
  by (simp add: send_ipi_def Let_def)

lemma shape_apic_init [shape]: "shape (apic_init k) = shape k"
proof (rule shape_apic)
  show "length (timer_init_debug (apic_init k)) = length (timer_init_debug k)"
    by (simp add: apic_init_def Let_def case_prod_unfold kprint_def)
qed (rule apic_init_more)

lemma shape_setup [shape]: "shape (setup_trampoline ld k) = shape k"
  by (simp add: setup_trampoline_def Let_def wbinvd_def shape)

lemma shape_timer_init [shape]: "shape (apic_timer_init k) = shape k"
proof (rule shape_apic)
  have d: "length (timer_init_debug (debug_read i m r k)) = length (timer_init_debug k)" for i m r and k :: "'b apic_scheme"
    by (simp add: debug_read_def Let_def case_prod_unfold)
  have w: "timer_init_debug (timer_reg_write m r v k) = timer_init_debug k" for m r v and k :: "'b apic_scheme"
    by (simp add: timer_reg_write_def)
  show "length (timer_init_debug (apic_timer_init k)) = length (timer_init_debug k)"
    by (simp add: apic_timer_init_def Let_def d w)
qed (rule timer_init_more)

lemma shape_apic_read [shape]: "shape (snd (apic_read r k)) = shape k"
  by (rule shape_apic) (simp_all add: apic_read_same [THEN apic_sameD(8)])

lemma shape_tsc [shape]: "shape (calibrate_tsc k) = shape k"
  by (simp add: calibrate_tsc_def shape_def)

lemma shape_timer_interrupt [shape]: "shape (timer_interrupt_handler k) = shape k"
proof -
  have e: "shape (send_eoi k) = shape k" for k :: "'b smp_scheme"
    by (rule shape_apic) (simp_all add: send_eoi_def apic_write_same [THEN apic_sameD(8)])
  have t: "shape (k\<lparr>timer_ticks := (timer_ticks k)[i := v]\<rparr>) = shape k" "shape (k\<lparr>global_timer_calls := c\<rparr>) = shape k" for i v c and k :: "'b smp_scheme"
    by (simp_all add: shape_def)
  show ?thesis
    by (simp add: timer_interrupt_handler_def Let_def case_prod_unfold e t shape)
qed


section \<open>The processors\<close>

lemma shape_madt_entry: "shape (snd (madt_entry p count k)) = shape (k :: 'a smp_scheme)"
proof -
  have i: "shape (k\<lparr>cpu_apic_ids := (cpu_apic_ids k)[j := a]\<rparr>) = shape k" for j a and k :: "'a smp_scheme"
    by (simp add: shape_def)
  show ?thesis
    by (simp add: madt_entry_def Let_def shape i)
qed

lemma shape_madt_loop: "madt_loop p end_ptr count k = Some r \<Longrightarrow> shape (snd r) = shape (k :: 'a smp_scheme)"
proof (induction rule: madt_loop.raw_induct [rotated 1, consumes 1])
  case (1 loop p end_ptr count k r)
  show ?case
  proof (cases "p < end_ptr")
    case True
    obtain c k1 where e: "madt_entry p count k = (c, k1)" by fastforce
    then have "loop (p + ucast (mem k (p + 1))) end_ptr c k1 = Some r"
      using "1"(2) True by (simp add: Let_def)
    then show ?thesis
      using "1"(1) shape_madt_entry [of p count k] e by simp
  next
    case False
    then show ?thesis
      using "1"(2) by auto
  qed
qed

lemma shape_find_cpus:
  assumes "kernel_find_cpus k = Inr r"
  shows "r = Halts t \<or> r = Returns t \<Longrightarrow> shape t = shape (k :: 'a smp_scheme)"
  using assms
  by (auto simp: kernel_find_cpus_def Let_def acpi_parse_madt_def shape split: if_splits option.splits dest!: shape_madt_loop)

lemma shape_writes [shape]: "shape (wrmsr m v k) = shape k" "shape (apic_write r w k) = shape k" "shape (apic_wait_icr k) = shape k"
proof -
  show "shape (wrmsr m v k) = shape k"
    by (simp add: wrmsr_def Let_def cpu_do_def shape_def)
  show "shape (apic_write r w k) = shape k"
    by (rule shape_apic) (simp_all add: apic_write_same [THEN apic_sameD(8)])
  show "shape (apic_wait_icr k) = shape k"
    by (rule shape_apic) (simp_all add: wait_icr)
qed

lemma shape_ipi [shape]: "shape (send_ipi a f k) = shape k"
  unfolding send_ipi_def Let_def by (simp only: shape if_distrib [of shape] if_cancel)

lemma shape_delay [shape]: "shape (udelay n k) = shape k" "shape (mdelay n k) = shape k" "shape (wbinvd k) = shape k"
proof -
  show "shape (udelay n k) = shape k" for n and k :: "'b smp_scheme"
    by (simp only: udelay_def shape)
  note u = this
  show "shape (mdelay n k) = shape k"
    unfolding mdelay_def by (intro for_up_preserves [where P = "\<lambda>t. shape t = shape k"]) (simp_all add: u)
  show "shape (wbinvd k) = shape k"
    by (simp only: wbinvd_def shape)
qed

lemma shape_boot_ap:
  assumes "boot_ap ld i k = Inr t"
  shows "shape t = shape k"
  using assms unfolding boot_ap_def Let_def by (simp only: shape split: if_splits) (auto simp only: sum.inject shape)

text \<open>A loop that stops at the first fault keeps what its body keeps.\<close>

lemma for_up_keeps:
  fixes f :: "u32 \<Rightarrow> 'a \<Rightarrow> 'e + 'a"
  assumes "for_up i n (\<lambda>i r. case r of Inl e \<Rightarrow> Inl e | Inr s \<Rightarrow> f i s) (Inr s) = Inr t"
    and "\<And>i s t. f i s = Inr t \<Longrightarrow> g t = g s"
  shows "g t = g s"
proof -
  let ?P = "\<lambda>r :: 'e + 'a. \<forall>t. r = Inr t \<longrightarrow> g t = g s"
  have "?P (for_up i n (\<lambda>i r. case r of Inl e \<Rightarrow> Inl e | Inr s \<Rightarrow> f i s) (Inr s))"
  proof (rule for_up_preserves [where P = ?P])
    fix j and r :: "'e + 'a"
    assume r: "?P r"
    show "?P (case r of Inl e \<Rightarrow> Inl e | Inr s \<Rightarrow> f j s)"
      using r assms(2) by (cases r) fastforce+
  qed simp
  then show ?thesis
    using assms(1) by simp
qed

lemma shape_start_cpus:
  assumes "kernel_start_cpus ld k = Inr t"
  shows "shape t = shape (k :: 'a smp_scheme)"
proof -
  have "shape t = shape u" if "for_up 1 n (\<lambda>i r. case r of Inl f \<Rightarrow> Inl f | Inr k \<Rightarrow> boot_ap ld i k) (Inr u) = Inr t"
    for n and t u :: "'a smp_scheme"
    using for_up_keeps [where g = shape, OF that] shape_boot_ap by blast
  then show ?thesis
    using assms by (auto simp: kernel_start_cpus_def boot_all_aps_def Let_def shape split: if_splits sum.splits)
qed

section \<open>The reports\<close>

lemma shape_phases [shape]:
  "shape (kernel_report_cpus c k) = shape k"
  "shape (kernel_run_tests k) = shape k" "shape (kernel_verdict e b k) = shape k"
  unfolding kernel_report_cpus_def kernel_run_tests_def kernel_verdict_def Let_def
  by (simp_all only: shape if_distrib [of shape] if_cancel)

lemma tables_ok:
  assumes "arrays_ok k"
  shows "arrays_ok (kernel_init_tables ld k) \<and> table_loaded ld (kernel_init_tables ld k)"
proof -
  have built: "arrays_ok (idt_init ld k) \<and> table_loaded ld (idt_init ld k)" if "arrays_ok k" for k :: "'b smp_scheme"
    using that by (simp add: arrays_ok_def table_loaded_def idt_init_eq cpu_do_def)
  let ?k = "kprint [Ln ''[IDT] Initializing Interrupt Descriptor Table...''] (kprint [Ln ''[GDT] Initializing GDT for BSP...'',
      Ln ''[GDT] Using bootloader GDT (no custom GDT/TSS)...'', Ln ''''] (kprint [Ln '''', Ln ''[OK] Serial port initialized (COM1)'',
      Ln ''[OK] Running in 64-bit long mode'', Ln ''''] k))"
  have "arrays_ok ?k"
    using assms shape_ok [of ?k k] by (simp add: shape)
  moreover have "shape (kernel_init_tables ld k) = shape (idt_init ld ?k)"
    unfolding kernel_init_tables_def Let_def by (simp only: shape)
  ultimately show ?thesis
    using shape_ok [of "kernel_init_tables ld k" "idt_init ld ?k" ld] built [of ?k] by simp
qed

lemma shape_start_timer [shape]: "shape (kernel_start_timer k) = shape k"
  unfolding kernel_start_timer_def Let_def
  by (simp only: case_prod_unfold shape if_distrib [of snd] if_distrib [of shape] snd_conv if_cancel)

lemma shape_done: "kernel_done k = Halts t \<Longrightarrow> shape t = shape k"
  by (auto simp: kernel_done_def Let_def shape)

lemma for_cpus_keeps: "for_cpus n f s = Inr t \<Longrightarrow> (\<And>i s t. f i s = Inr t \<Longrightarrow> g t = g s) \<Longrightarrow> g t = g s"
  by (auto simp: for_cpus_def split: if_splits dest: for_up_keeps [where g = g])

lemma shape_results:
  "kernel_result_1 e k = Inr t \<Longrightarrow> shape t = shape k" "kernel_result_2 e k = Inr t \<Longrightarrow> shape t = shape k"
  "kernel_result_3 e k = Inr (b, t) \<Longrightarrow> shape t = shape k" "kernel_timer_report e k = Inr t \<Longrightarrow> shape t = shape k"
proof -
  show "shape t = shape k" if "kernel_result_1 e k = Inr t"
    by (rule for_cpus_keeps [where g = shape, OF that [unfolded kernel_result_1_def Let_def], THEN trans])
      (auto simp: shape split: sum.splits prod.splits if_splits)
  have "shape u = shape s" if "for_cpus n (\<lambda>i k. case slot xs i of Inl f \<Rightarrow> Inl f | Inr v \<Rightarrow> Inr (kprint (ms i v) k)) s = Inr u"
    for n ms and xs :: "u64 list" and s u :: "'a smp_scheme"
    by (rule for_cpus_keeps [where g = shape, OF that]) (auto simp: shape split: sum.splits)
  note each = this
  show "shape t = shape k" if "kernel_result_2 e k = Inr t"
    using that by (auto simp: kernel_result_2_def Let_def shape split: sum.splits if_splits dest!: each)
  show "shape t = shape k" if "kernel_timer_report e k = Inr t"
    using that by (auto simp: kernel_timer_report_def Let_def shape split: sum.splits if_splits dest!: each)
  show "shape t = shape k" if r: "kernel_result_3 e k = Inr (b, t)"
  proof -
    obtain ok u where u: "for_cpus (cpu_count k) (\<lambda>i (barrier_ok, k). case slot (shown_3 e) i of Inl f \<Rightarrow> Inl f
        | Inr (printed, compared) \<Rightarrow> let k = kprint (show_counter i printed) k
            in Inr (if compared \<noteq> 1000000 then (False, kprint [Ln '' [FAIL]''] k) else (barrier_ok, kprint [Ln '' [OK]''] k)))
        (True, kprint [Ln (newline_char # ''TEST 3: Barrier Synchronization''), Ln ''---------------------------------'',
                Ln ''  (All CPUs should reach 1M after barrier)''] k) = Inr (ok, u)"
      "shape t = shape u"
      using r by (cases b) (auto simp: kernel_result_3_def Let_def shape split: sum.splits prod.splits)
    have "shape (snd (ok, u)) = shape k"
      by (rule for_cpus_keeps [where g = "\<lambda>x. shape (snd x)", OF u(1), THEN trans])
        (auto simp: Let_def shape split: sum.splits prod.splits if_splits)
    then show ?thesis
      using u(2) by simp
  qed
qed


lemma shape_kernel_results: "kernel_results e k = Inr t \<Longrightarrow> shape t = shape k"
  by (auto simp: kernel_results_def shape split: sum.splits prod.splits dest!: shape_results)

section \<open>The kernel\<close>



end
