(* ===== verification/Spec2Isabelle.thy ===== *)
theory Spec2Isabelle
  imports Hybrid Steps_Smp Kernel_Types
begin

text \<open>
  Verification library of the bare-metal x86-64 kernels of this repository, written in C: the final
  kernel \<^verbatim>\<open>c/kernel/minimal_step9.c\<close>, the bootstrap of the hybrid kernel \<^verbatim>\<open>hybrid/boot\<close>, and the
  kernels that led to them, \<^verbatim>\<open>archive/step1-8\<close> and \<^verbatim>\<open>archive/old-modular\<close>.

  \<^bold>\<open>The program.\<close>  The boot loader enters \<open>kernel_main\<close> on processor 0 in long mode, the first gigabyte
  mapped one to one, with the address of a Multiboot2 structure.  It sets up the console, reads the
  memory map, builds a page allocator (bitmap) with it, turns the page tables into recursive ones, places
  a heap, loads the interrupt table, finds the processors in the ACPI tables, starts its interrupt
  controller, starts the other processors, and runs three parallel tests with them before it reports and
  halts.  Each other processor enters at \<open>ap_entry\<close> and takes part in the tests.

  \<^bold>\<open>State.\<close>  The static variables are the fields of one record that each component extends in the order
  of the file: \<open>machine\<close> (console, memory), then the fields of the memory map, page allocator, heap,
  processor (\<open>cpu\<close>: registers, log of the instructions that reach the hardware), \<open>vmm\<close>, \<open>apic\<close>,
  \<open>idt_state\<close>, \<open>acpi\<close>, \<open>smp\<close>.  An operation takes the state and returns the new one and has the name of
  the C function; it works on every extension of the record it needs.  C integers are words of their
  width, memory is a map from 64-bit addresses to bytes, and an array is a list.  What the code can do
  instead of returning is a \<open>fault\<close>: a loop without end, a division by zero, a page fault, an access
  outside an array.  A function that never returns because it halts is an \<open>outcome\<close> \<open>Halts\<close>.

  \<^bold>\<open>Theories of the final kernel.\<close>
  \<^verbatim>\<open>Prelude\<close> has the integer types, the C \<open>for\<close> loop \<open>for_up\<close> with its invariant rule, and the facts on
  words and bits; \<^verbatim>\<open>Memory\<close> loads, stores, \<open>memcpy\<close> and \<open>memset\<close>; \<^verbatim>\<open>Vga\<close> the text screen of \<^verbatim>\<open>vga.h\<close>, as
  a refinement of a terminal; \<^verbatim>\<open>Console\<close> port I/O, COM1 and the number printers, which send canonical
  numerals; \<^verbatim>\<open>Machine\<close> the base of the state; \<^verbatim>\<open>Multiboot\<close> the memory map; \<^verbatim>\<open>Pmm\<close> the page allocator with
  its bitmap invariant, the set of pages it has in use and the pages a map frees; \<^verbatim>\<open>Heap\<close> the bump
  allocator; \<^verbatim>\<open>Cpu\<close> the wrapped instructions; \<^verbatim>\<open>Vmm\<close> the recursive page tables against the processor's
  page walk; \<^verbatim>\<open>Apic\<close> the interrupt controller in both modes and its timer; \<^verbatim>\<open>Idt\<close> gates, stubs with their
  stack frames and handlers; \<^verbatim>\<open>Acpi\<close> root pointer, root table and MADT; \<^verbatim>\<open>Smp\<close> the start of the other
  processors; \<^verbatim>\<open>Interleaving\<close> what runs of several processors share; \<^verbatim>\<open>Barrier\<close> and \<^verbatim>\<open>Parallel\<close> the barrier and the tests as steps of any number of processors in
  any interleaving, with \<open>barrier_run\<close> and \<open>tests_run\<close> the reachable states; \<^verbatim>\<open>Boot_Memory\<close> the memory
  phase of \<open>kernel_main\<close>; \<^verbatim>\<open>Kernel_Main\<close> the whole, in phases; \<^verbatim>\<open>Kernel_Types\<close> that the static arrays keep
  their lengths throughout.

  \<^bold>\<open>Theories of the other kernels.\<close>
  \<^verbatim>\<open>Old_Sync\<close> the spinlock, the atomic operations, \<open>on_each_cpu\<close> and \<open>ap_boot_complete\<close> as interleaved
  steps (\<open>calls_run\<close>); \<^verbatim>\<open>Old_Serial\<close> \<open>serial_printf\<close>; \<^verbatim>\<open>Old_Kernel\<close> the tables, the start of processors
  and \<open>kernel_main\<close> of \<^verbatim>\<open>archive/old-modular\<close>.  \<^verbatim>\<open>Hybrid\<close> the bootstrap up to the call of the Zig kernel and
  the services it calls back.  \<^verbatim>\<open>Steps\<close> the first kernel and steps 1 to 3; \<^verbatim>\<open>Steps_Smp\<close> steps 4 to 8.  Where
  one of these has a function that is textually that of the final kernel, the final kernel's definition
  stands for both.

  \<^bold>\<open>What the lemmas show.\<close>  For each component: its invariant and that its operations keep it; the result
  of each operation on every branch, with the frame it leaves alone; the loops' termination, or exactly
  when they do not end.  Across components: the memory phase leaves allocator, page tables and heap ready;
  the boot runs to its final halt with a verdict that is a function of the counters it reads; those
  counters are right in every interleaving when the tests have finished, and can be misread before; with
  more processors than the arrays hold the kernel leaves their bounds.

  \<^bold>\<open>Interfaces.\<close>  Locale \<open>page_allocator\<close> (theory \<^verbatim>\<open>Pmm\<close>) states what \<open>vmm_map_page\<close> and others rely on:
  allocated pages are new, released ones are free again; it is interpreted by \<open>pmm_alloc_page\<close> and
  \<open>pmm_free_page\<close>.  Locale \<open>bump_allocator\<close> (\<^verbatim>\<open>Heap\<close>) states that blocks lie one after the other below a
  limit; it is interpreted by \<open>kmalloc\<close>.  Locale \<open>register_file\<close> (\<^verbatim>\<open>Apic\<close>) states that registers written
  read back; it is interpreted by \<open>apic_write\<close> for both modes of the controller, so the timer is
  programmed alike in both.  Locales \<open>interleaving\<close>, \<open>progressing\<close> and \<open>ranked\<close> (\<^verbatim>\<open>Interleaving\<close>) state
  when a schedule exists that reaches a goal; they are interpreted by the barrier, the tests and the calls
  of the old kernel, whose liveness theorems rest on them.

  \<^bold>\<open>Bounds and fuel.\<close>  Loops of the source that count are \<open>for_up\<close> over the counter's word type, with no
  fuel.  The polling loops that the source bounds (one million reads of the command register, 1000 rounds
  for a processor) are recursions on that bound.  The unbounded loops over tags and table entries are
  partial functions whose \<open>None\<close> is not returning, and the theorems say when they return; so are the
  \<open>hlt\<close> loops values of \<open>outcome\<close>.  Buffers of the number printers are recursions on their size.

  \<^bold>\<open>What comes from outside.\<close>  Addresses of linker and assembler symbols are in \<open>layout\<close> and
  \<open>old_layout\<close>.  What a hardware register answers is a field of the state (\<open>mmio\<close>, \<open>msr\<close>,
  \<open>cpuid_value\<close>, the delay of the command register).  In \<open>kernel_main\<close> the values that processor 0 finds in
  variables that other processors or the timer write are the argument \<open>env\<close>; the theorems about the tests
  take them from the interleavings of \<^verbatim>\<open>Parallel\<close>.  The values of two shifts that C leaves undefined are
  the parameter \<open>pt_shifts\<close>.

  \<^bold>\<open>Not modelled.\<close>  The kernel in Zig (\<^verbatim>\<open>zig/src\<close>) and the Zig half of the hybrid kernel, which are not C;
  the assembly of boot and start-up code, whose behaviour appears as the state at entry and as hypotheses
  on symbols; inline assembly beyond the instructions that \<^verbatim>\<open>Cpu\<close> and \<^verbatim>\<open>Idt\<close> describe; relaxed memory
  ordering (steps are sequentially consistent, as the atomic operations of the source ask for); time, except
  as the pauses in the log; build files, linker scripts and notes.
\<close>

end
